(* ===== verification/Prelude.thy ===== *)
theory Prelude
  imports Main "HOL-Library.Word" "HOL-Library.Monad_Syntax"
begin

text \<open>
  Shared vocabulary of the development: the collections of simplification rules that the
  component theories fill, and generic facts on lists and options that more than one
  component needs.

  Conventions. A C or C++ \<^verbatim>\<open>assert\<close>, a null dereference or a failed
  \<^verbatim>\<open>klee_assert\<close> is the value \<^term>\<open>None\<close> of an option result; an
  \<^verbatim>\<open>errno\<close> code is an ordinary result value. State is passed explicitly.
\<close>

named_theorems tree_simps \<open>inorder equations of the persistent tree operations\<close>
named_theorems trace_simps \<open>contents equations of the forkable trace operations\<close>
named_theorems hb_simps \<open>node-list equations of the happens-before graph operations\<close>
named_theorems sched_simps \<open>equations of the schedule encoder and decoder\<close>
named_theorems rt_simps \<open>unfolding rules of the constrained execution runtime\<close>

text \<open>The limits of \<^verbatim>\<open>runtime/POSIX/config.h\<close>.\<close>

definition KLEE_MAX_THREADS :: nat where
  "KLEE_MAX_THREADS = 16"

subsection \<open>Lists\<close>

lemma sorted_wrt_append_mid:
  "sorted_wrt P (xs @ y # ys) \<longleftrightarrow>
     sorted_wrt P xs \<and> sorted_wrt P ys \<and> (\<forall>x\<in>set xs. P x y) \<and> (\<forall>z\<in>set ys. P y z) \<and>
     (\<forall>x\<in>set xs. \<forall>z\<in>set ys. P x z)"
  by (auto simp: sorted_wrt_append)

lemma concat_map_upd_notin:
  "a \<notin> set xs \<Longrightarrow> concat (map (f(a := v)) xs) = concat (map f xs)"
  by (induction xs) auto

lemma count_list_eq_0_iff: "count_list xs x = 0 \<longleftrightarrow> x \<notin> set xs"
  by (induction xs) auto

lemma count_list_distinct: "distinct xs \<Longrightarrow> count_list xs x = (if x \<in> set xs then 1 else 0)"
  by (induction xs) auto

lemma butlast_snoc_last: "xs \<noteq> [] \<Longrightarrow> butlast xs @ [last xs] = xs"
  by simp

lemma filter_nth_length:
  "i < length xs \<Longrightarrow> P (xs ! i) \<Longrightarrow> length (filter P (take i xs)) < length (filter P xs)"
proof (induction xs arbitrary: i)
  case (Cons x xs)
  then show ?case by (cases i) auto
qed simp

lemma filter_nth_filter_take:
  "i < length xs \<Longrightarrow> P (xs ! i) \<Longrightarrow>
     filter P xs ! length (filter P (take i xs)) = xs ! i"
proof (induction xs arbitrary: i)
  case (Cons x xs)
  then show ?case by (cases i) auto
qed simp

lemma concat_map_last: "xs \<noteq> [] \<Longrightarrow> concat (map f xs) = concat (map f (butlast xs)) @ f (last xs)"
  by (induction xs) auto

lemma sorted_wrt_fst_unique:
  fixes xs ys :: "('k::linorder \<times> 'd) list"
  shows "sorted_wrt (\<lambda>x y. fst x < fst y) xs \<Longrightarrow> sorted_wrt (\<lambda>x y. fst x < fst y) ys \<Longrightarrow> set xs = set ys \<Longrightarrow> xs = ys"
proof (induction xs arbitrary: ys)
  case (Cons x xs)
  then obtain y ys' where ys: "ys = y # ys'" by (cases ys) auto
  have "x = y"
  proof (rule ccontr)
    assume "x \<noteq> y"
    then have "x \<in> set ys'" "y \<in> set xs" using Cons.prems ys by auto
    then have "fst y < fst x" "fst x < fst y" using Cons.prems ys by auto
    then show False by simp
  qed
  moreover from this have "set xs = set ys'" using Cons.prems ys by auto
  ultimately show ?case using Cons ys by auto
qed simp

lemma dropWhile_sorted_fst:
  fixes xs :: "('k::linorder \<times> 'd) list"
  assumes "sorted_wrt (\<lambda>x y. fst x < fst y) xs" and "\<And>a b. a < b \<Longrightarrow> P b \<Longrightarrow> P a"
  shows "dropWhile (\<lambda>x. P (fst x)) xs = filter (\<lambda>x. \<not> P (fst x)) xs"
  using assms(1)
proof (induction xs)
  case (Cons x xs)
  have "filter (\<lambda>x. \<not> P (fst x)) xs = xs" if "\<not> P (fst x)"
    using Cons.prems that assms(2) by (intro filter_True) auto
  with Cons show ?case by simp
qed simp

lemma strict_sorted_imp_sorted_fst:
  fixes xs :: "('k::linorder \<times> 'd) list"
  shows "sorted_wrt (\<lambda>x y. fst x < fst y) xs \<Longrightarrow> sorted_wrt (\<lambda>x y. fst x \<le> fst y) xs"
  by (rule sorted_wrt_mono_rel) auto

subsection \<open>Options\<close>

lemma bind_eq_SomeE [elim!]:
  "Option.bind m f = Some y \<Longrightarrow> (\<And>x. m = Some x \<Longrightarrow> f x = Some y \<Longrightarrow> R) \<Longrightarrow> R"
  by (cases m) auto

text \<open>An assertion of the source: execution continues only when the condition holds.\<close>

definition assert_opt :: "bool \<Rightarrow> unit option" where
  "assert_opt b = (if b then Some () else None)"

lemma assert_opt_Some [simp]: "assert_opt b = Some u \<longleftrightarrow> b"
  by (auto simp: assert_opt_def)

lemma assert_opt_bind [simp]: "Option.bind (assert_opt b) f = (if b then f () else None)"
  by (simp add: assert_opt_def)

lemma option_eqI: "(\<And>v. a = Some v \<longleftrightarrow> b = Some v) \<Longrightarrow> a = b"
  by (cases a; cases b) auto

lemma merge_induct [case_names Nil1 Nil2 Cons]:
  assumes "\<And>ys. P [] ys" "\<And>x xs. P (x # xs) []"
    and "\<And>x xs y ys. P xs (y # ys) \<Longrightarrow> P (x # xs) ys \<Longrightarrow> P xs ys \<Longrightarrow> P (x # xs) (y # ys)"
  shows "P xs ys"
proof (induction xs arbitrary: ys)
  case (Cons x xs)
  then show ?case by (induction ys) (auto intro: assms)
qed (rule assms)

end
