(* ===== verification/Immutable_Tree.thy ===== *)
theory Immutable_Tree
  imports Prelude
begin

text \<open>
  The persistent balanced search tree of
  \<^verbatim>\<open>src/cloud9/include/klee/Internal/ADT/ImmutableTree.h\<close> (class
  \<^verbatim>\<open>ImmutableTree\<close> and its \<^verbatim>\<open>Node\<close> and \<^verbatim>\<open>iterator\<close>),
  on which the happens-before graph keeps its groups and thread orders.

  The template parameters \<^verbatim>\<open>KOV\<close> (key of value) and \<^verbatim>\<open>CMP\<close>
  (the strict key order) are the first two arguments of every operation that uses them.
  What the code relies on about them is the locale \<open>key_order\<close>. Reference counts are
  not modelled: nodes are immutable values here, so sharing is invisible.
\<close>

subsection \<open>Nodes\<close>

datatype 'v tree =
    Terminator
  | Node (nleft: "'v tree") (nright: "'v tree") (nvalue: 'v) (nheight_field: nat)
  where
    "nleft Terminator = Terminator"
  | "nright Terminator = Terminator"
  | "nheight_field Terminator = 0"

abbreviation nheight :: "'v tree \<Rightarrow> nat" where
  "nheight \<equiv> nheight_field"

definition isTerminator :: "'v tree \<Rightarrow> bool" where
  "isTerminator t = (case t of Terminator \<Rightarrow> True | _ \<Rightarrow> False)"

definition newNode :: "'v tree \<Rightarrow> 'v tree \<Rightarrow> 'v \<Rightarrow> 'v tree" where
  "newNode l r v = Node l r v (max (nheight l) (nheight r) + 1)"

definition balance :: "'v tree \<Rightarrow> 'v \<Rightarrow> 'v tree \<Rightarrow> 'v tree" where
  "balance left v right =
     (if nheight left > nheight right + 2 then
        (case left of
           Terminator \<Rightarrow> newNode left right v
         | Node ll lr lv _ \<Rightarrow>
             if nheight ll \<ge> nheight lr then newNode ll (newNode lr right v) lv
             else (case lr of
                Terminator \<Rightarrow> newNode left right v
              | Node lrl lrr lrv _ \<Rightarrow>
                  newNode (newNode ll lrl lv) (newNode lrr right v) lrv))
      else if nheight right > nheight left + 2 then
        (case right of
           Terminator \<Rightarrow> newNode left right v
         | Node rl rr rv _ \<Rightarrow>
             if nheight rr \<ge> nheight rl then newNode (newNode left rl v) rr rv
             else (case rl of
                Terminator \<Rightarrow> newNode left right v
              | Node rll rlr rlv _ \<Rightarrow>
                  newNode (newNode left rll v) (newNode rlr rr rv) rlv))
      else newNode left right v)"

fun tree_size :: "'v tree \<Rightarrow> nat" where
  "tree_size Terminator = 0"
| "tree_size (Node l r v h) = tree_size l + 1 + tree_size r"

text \<open>On the empty tree the source hands out the terminator's default-constructed value;
  there is no such value here and the result is \<^term>\<open>None\<close>.\<close>

fun popMin :: "'v tree \<Rightarrow> ('v \<times> 'v tree) option" where
  "popMin Terminator = None"
| "popMin (Node l r v h) =
     (if isTerminator l then Some (v, r)
      else (case popMin l of
              None \<Rightarrow> None
            | Some (m, l') \<Rightarrow> Some (m, balance l' v r)))"

fun popMax :: "'v tree \<Rightarrow> ('v \<times> 'v tree) option" where
  "popMax Terminator = None"
| "popMax (Node l r v h) =
     (if isTerminator r then Some (v, l)
      else (case popMax r of
              None \<Rightarrow> None
            | Some (m, r') \<Rightarrow> Some (m, balance l v r')))"

fun tree_insert :: "('v \<Rightarrow> 'k) \<Rightarrow> ('k \<Rightarrow> 'k \<Rightarrow> bool) \<Rightarrow> 'v \<Rightarrow> 'v tree \<Rightarrow> 'v tree" where
  "tree_insert kov cmp v Terminator = newNode Terminator Terminator v"
| "tree_insert kov cmp v (Node l r w h) =
     (if cmp (kov v) (kov w) then balance (tree_insert kov cmp v l) w r
      else if cmp (kov w) (kov v) then balance l w (tree_insert kov cmp v r)
      else Node l r w h)"

fun tree_replace :: "('v \<Rightarrow> 'k) \<Rightarrow> ('k \<Rightarrow> 'k \<Rightarrow> bool) \<Rightarrow> 'v \<Rightarrow> 'v tree \<Rightarrow> 'v tree" where
  "tree_replace kov cmp v Terminator = newNode Terminator Terminator v"
| "tree_replace kov cmp v (Node l r w h) =
     (if cmp (kov v) (kov w) then balance (tree_replace kov cmp v l) w r
      else if cmp (kov w) (kov v) then balance l w (tree_replace kov cmp v r)
      else newNode l r v)"

text \<open>The joining of two subtrees around a removed value, shared by \<^verbatim>\<open>remove\<close>
  and \<^verbatim>\<open>remove_if\<close>.\<close>

definition join_removed :: "'v tree \<Rightarrow> 'v tree \<Rightarrow> 'v tree" where
  "join_removed l r =
     (if isTerminator l then r
      else if isTerminator r then l
      else (case popMin r of
              None \<Rightarrow> l
            | Some (m, nr) \<Rightarrow> balance l m nr))"

fun tree_remove :: "('v \<Rightarrow> 'k) \<Rightarrow> ('k \<Rightarrow> 'k \<Rightarrow> bool) \<Rightarrow> 'k \<Rightarrow> 'v tree \<Rightarrow> 'v tree" where
  "tree_remove kov cmp k Terminator = Terminator"
| "tree_remove kov cmp k (Node l r w h) =
     (if cmp k (kov w) then balance (tree_remove kov cmp k l) w r
      else if cmp (kov w) k then balance l w (tree_remove kov cmp k r)
      else join_removed l r)"

fun remove_if :: "('v \<Rightarrow> bool) \<Rightarrow> 'v tree \<Rightarrow> 'v tree" where
  "remove_if pred Terminator = Terminator"
| "remove_if pred (Node l r w h) =
     (let l' = remove_if pred l; r' = remove_if pred r
      in if pred w then join_removed l' r' else balance l' w r')"

text \<open>\<^verbatim>\<open>map_values\<close> returns the node it was called on when nothing changed. The
  second component of the result says whether that happened (the pointer comparisons
  \<^verbatim>\<open>l == left\<close> and \<^verbatim>\<open>r == right\<close> of the source).\<close>

fun map_values :: "('v \<Rightarrow> 'v \<times> bool) \<Rightarrow> 'v tree \<Rightarrow> 'v tree \<times> bool" where
  "map_values mapfn Terminator = (Terminator, True)"
| "map_values mapfn (Node l r w h) =
     (let (l', lsame) = map_values mapfn l;
          (r', rsame) = map_values mapfn r;
          (w', changed) = mapfn w
      in if \<not> changed \<and> lsame \<and> rsame then (Node l r w h, True)
         else if changed then (newNode l' r' w', False)
         else (newNode l' r' w, False))"

subsection \<open>Queries\<close>

fun tree_count :: "('v \<Rightarrow> 'k) \<Rightarrow> ('k \<Rightarrow> 'k \<Rightarrow> bool) \<Rightarrow> 'k \<Rightarrow> 'v tree \<Rightarrow> nat" where
  "tree_count kov cmp k Terminator = 0"
| "tree_count kov cmp k (Node l r w h) =
     (if cmp k (kov w) then tree_count kov cmp k l
      else if cmp (kov w) k then tree_count kov cmp k r
      else 1)"

fun tree_lookup :: "('v \<Rightarrow> 'k) \<Rightarrow> ('k \<Rightarrow> 'k \<Rightarrow> bool) \<Rightarrow> 'k \<Rightarrow> 'v tree \<Rightarrow> 'v option" where
  "tree_lookup kov cmp k Terminator = None"
| "tree_lookup kov cmp k (Node l r w h) =
     (if cmp k (kov w) then tree_lookup kov cmp k l
      else if cmp (kov w) k then tree_lookup kov cmp k r
      else Some w)"

fun lookup_previous_loop ::
  "('v \<Rightarrow> 'k) \<Rightarrow> ('k \<Rightarrow> 'k \<Rightarrow> bool) \<Rightarrow> 'k \<Rightarrow> 'v option \<Rightarrow> 'v tree \<Rightarrow> 'v option" where
  "lookup_previous_loop kov cmp k result Terminator = result"
| "lookup_previous_loop kov cmp k result (Node l r w h) =
     (if cmp k (kov w) then lookup_previous_loop kov cmp k result l
      else if cmp (kov w) k then lookup_previous_loop kov cmp k (Some w) r
      else Some w)"

definition lookup_previous :: "('v \<Rightarrow> 'k) \<Rightarrow> ('k \<Rightarrow> 'k \<Rightarrow> bool) \<Rightarrow> 'k \<Rightarrow> 'v tree \<Rightarrow> 'v option" where
  "lookup_previous kov cmp k t = lookup_previous_loop kov cmp k None t"

fun tree_min :: "'v tree \<Rightarrow> 'v option" where
  "tree_min Terminator = None"
| "tree_min (Node l r v h) = (if isTerminator l then Some v else tree_min l)"

fun tree_max :: "'v tree \<Rightarrow> 'v option" where
  "tree_max Terminator = None"
| "tree_max (Node l r v h) = (if isTerminator r then Some v else tree_max r)"

subsection \<open>Iterators\<close>

text \<open>An iterator is its stack of nodes, the top first; the end iterator is the empty stack.
  A pointer comparison between a node and a child of another node is equality of the
  subtrees: in a search tree two different nodes carry different values.\<close>

type_synonym 'v titer = "'v tree list"

fun push_left :: "'v tree \<Rightarrow> 'v titer \<Rightarrow> 'v titer" where
  "push_left Terminator stk = stk"
| "push_left (Node l r v h) stk = push_left l (Node l r v h # stk)"

fun push_right :: "'v tree \<Rightarrow> 'v titer \<Rightarrow> 'v titer" where
  "push_right Terminator stk = stk"
| "push_right (Node l r v h) stk = push_right r (Node l r v h # stk)"

definition iter_begin :: "'v tree \<Rightarrow> 'v titer" where
  "iter_begin root = push_left root []"

definition iter_end :: "'v tree \<Rightarrow> 'v titer" where
  "iter_end root = []"

fun iter_deref :: "'v titer \<Rightarrow> 'v option" where
  "iter_deref [] = None"
| "iter_deref (Terminator # stk) = None"
| "iter_deref (Node l r v h # stk) = Some v"

fun pop_until_left :: "'v tree \<Rightarrow> 'v titer \<Rightarrow> 'v titer" where
  "pop_until_left prev [] = []"
| "pop_until_left prev (n # stk) =
     (if prev = nleft n then n # stk else pop_until_left n stk)"

fun pop_until_right :: "'v tree \<Rightarrow> 'v titer \<Rightarrow> 'v titer" where
  "pop_until_right prev [] = []"
| "pop_until_right prev (n # stk) =
     (if prev = nright n then n # stk else pop_until_right n stk)"

fun iter_incr :: "'v titer \<Rightarrow> 'v titer option" where
  "iter_incr [] = None"
| "iter_incr (n # stk) =
     (if isTerminator (nright n) then Some (pop_until_left n stk)
      else Some (push_left (nleft (nright n)) (nright n # n # stk)))"

fun iter_decr :: "'v tree \<Rightarrow> 'v titer \<Rightarrow> 'v titer" where
  "iter_decr root [] = push_right root []"
| "iter_decr root (n # stk) =
     (if isTerminator (nleft n) then pop_until_right n stk
      else push_right (nright (nleft n)) (nleft n # n # stk))"

text \<open>The loop \<^verbatim>\<open>for (it = t.begin(); it != t.end(); ++it)\<close>, with as much fuel as
  the tree has elements.\<close>

fun iter_collect :: "nat \<Rightarrow> 'v titer \<Rightarrow> 'v list option" where
  "iter_collect fuel [] = Some []"
| "iter_collect 0 (n # stk) = None"
| "iter_collect (Suc fuel) (n # stk) =
     (case iter_deref (n # stk) of
        None \<Rightarrow> None
      | Some v \<Rightarrow>
          (case iter_incr (n # stk) of
             None \<Rightarrow> None
           | Some it \<Rightarrow> map_option ((#) v) (iter_collect fuel it)))"

definition tree_elements :: "'v tree \<Rightarrow> 'v list option" where
  "tree_elements t = iter_collect (tree_size t) (iter_begin t)"

fun lower_bound_descend ::
  "('v \<Rightarrow> 'k) \<Rightarrow> ('k \<Rightarrow> 'k \<Rightarrow> bool) \<Rightarrow> 'k \<Rightarrow> 'v tree \<Rightarrow> 'v titer \<Rightarrow> 'v titer \<times> bool" where
  "lower_bound_descend kov cmp k Terminator stk = (stk, False)"
| "lower_bound_descend kov cmp k (Node l r w h) stk =
     (if cmp k (kov w) then lower_bound_descend kov cmp k l (Node l r w h # stk)
      else if cmp (kov w) k then lower_bound_descend kov cmp k r (Node l r w h # stk)
      else (Node l r w h # stk, True))"

definition lower_bound ::
  "('v \<Rightarrow> 'k) \<Rightarrow> ('k \<Rightarrow> 'k \<Rightarrow> bool) \<Rightarrow> 'k \<Rightarrow> 'v tree \<Rightarrow> 'v titer option" where
  "lower_bound kov cmp k t =
     (case lower_bound_descend kov cmp k t [] of
        (stk, found) \<Rightarrow>
          if found then Some stk
          else (case iter_deref stk of
                  None \<Rightarrow> Some stk
                | Some w \<Rightarrow> if cmp (kov w) k then iter_incr stk else Some stk))"

definition tree_find ::
  "('v \<Rightarrow> 'k) \<Rightarrow> ('k \<Rightarrow> 'k \<Rightarrow> bool) \<Rightarrow> 'k \<Rightarrow> 'v tree \<Rightarrow> 'v titer option" where
  "tree_find kov cmp k t =
     (case lower_bound kov cmp k t of
        None \<Rightarrow> None
      | Some it \<Rightarrow>
          (case iter_deref it of
             None \<Rightarrow> Some (iter_end t)
           | Some v \<Rightarrow> if cmp k (kov v) then Some (iter_end t) else Some it))"

definition upper_bound ::
  "('v \<Rightarrow> 'k) \<Rightarrow> ('k \<Rightarrow> 'k \<Rightarrow> bool) \<Rightarrow> 'k \<Rightarrow> 'v tree \<Rightarrow> 'v titer option" where
  "upper_bound kov cmp k t =
     (case lower_bound kov cmp k t of
        None \<Rightarrow> None
      | Some it \<Rightarrow>
          (case iter_deref it of
             None \<Rightarrow> Some it
           | Some v \<Rightarrow> if \<not> cmp k (kov v) then iter_incr it else Some it))"

text \<open>The loop of \<^verbatim>\<open>merge_with\<close> over two iterators.\<close>

fun merge_loop ::
  "('v \<Rightarrow> 'k) \<Rightarrow> ('k \<Rightarrow> 'k \<Rightarrow> bool) \<Rightarrow> ('v \<Rightarrow> 'v \<Rightarrow> bool \<times> 'v) \<Rightarrow> nat \<Rightarrow>
     'v titer \<Rightarrow> 'v titer \<Rightarrow> 'v tree \<Rightarrow> 'v tree option" where
  "merge_loop kov cmp mergefn fuel [] [] result = Some result"
| "merge_loop kov cmp mergefn 0 a b result = None"
| "merge_loop kov cmp mergefn (Suc fuel) a b result =
     (case (iter_deref a, iter_deref b) of
        (Some x, None) \<Rightarrow>
          Option.bind (iter_incr a)
            (\<lambda>a'. merge_loop kov cmp mergefn fuel a' b (tree_insert kov cmp x result))
      | (None, Some y) \<Rightarrow>
          Option.bind (iter_incr b)
            (\<lambda>b'. merge_loop kov cmp mergefn fuel a b' (tree_insert kov cmp y result))
      | (Some x, Some y) \<Rightarrow>
          if cmp (kov x) (kov y) then
            Option.bind (iter_incr a)
              (\<lambda>a'. merge_loop kov cmp mergefn fuel a' b (tree_insert kov cmp x result))
          else if cmp (kov y) (kov x) then
            Option.bind (iter_incr b)
              (\<lambda>b'. merge_loop kov cmp mergefn fuel a b' (tree_insert kov cmp y result))
          else
            (let (keep, m) = mergefn x y;
                 result' = (if keep then tree_insert kov cmp m result else result)
             in Option.bind (iter_incr a) (\<lambda>a'.
                  Option.bind (iter_incr b) (\<lambda>b'.
                    merge_loop kov cmp mergefn fuel a' b' result')))
      | (None, None) \<Rightarrow> None)"

definition merge_with ::
  "('v \<Rightarrow> 'k) \<Rightarrow> ('k \<Rightarrow> 'k \<Rightarrow> bool) \<Rightarrow> ('v \<Rightarrow> 'v \<Rightarrow> bool \<times> 'v) \<Rightarrow>
     'v tree \<Rightarrow> 'v tree \<Rightarrow> 'v tree option" where
  "merge_with kov cmp mergefn t other =
     (if isTerminator t then Some other
      else if isTerminator other then Some t
      else merge_loop kov cmp mergefn (tree_size t + tree_size other)
             (iter_begin t) (iter_begin other) Terminator)"

text \<open>The loop of \<^verbatim>\<open>operator==\<close>. The comparison of the root pointers that comes
  first in the source is the equality of the two trees.\<close>

fun tree_eq_loop :: "nat \<Rightarrow> 'v titer \<Rightarrow> 'v titer \<Rightarrow> bool option" where
  "tree_eq_loop fuel [] b = Some (b = [])"
| "tree_eq_loop fuel (n # stk) [] = Some False"
| "tree_eq_loop 0 (n # stk) (m # stk') = None"
| "tree_eq_loop (Suc fuel) (n # stk) (m # stk') =
     (if iter_deref (n # stk) \<noteq> iter_deref (m # stk') then Some False
      else Option.bind (iter_incr (n # stk)) (\<lambda>a.
             Option.bind (iter_incr (m # stk')) (\<lambda>b. tree_eq_loop fuel a b)))"

definition tree_equal :: "'v tree \<Rightarrow> 'v tree \<Rightarrow> bool option" where
  "tree_equal lhs rhs =
     (if lhs = rhs then Some True
      else if isTerminator lhs \<noteq> isTerminator rhs then Some False
      else tree_eq_loop (tree_size lhs) (iter_begin lhs) (iter_begin rhs))"

subsection \<open>What a well-formed tree is\<close>

text \<open>The sequence a tree stands for, its being ascending in the keys, and the height condition
  that \<^verbatim>\<open>balance\<close> maintains, with the cached heights correct.\<close>

fun inorder :: "'v tree \<Rightarrow> 'v list" where
  "inorder Terminator = []"
| "inorder (Node l r v h) = inorder l @ v # inorder r"

definition search_tree :: "('v \<Rightarrow> 'k) \<Rightarrow> ('k \<Rightarrow> 'k \<Rightarrow> bool) \<Rightarrow> 'v tree \<Rightarrow> bool" where
  "search_tree kov cmp t = sorted_wrt (\<lambda>x y. cmp (kov x) (kov y)) (inorder t)"

fun balanced :: "'v tree \<Rightarrow> bool" where
  "balanced Terminator = True"
| "balanced (Node l r v h) =
     (balanced l \<and> balanced r \<and> h = max (nheight l) (nheight r) + 1 \<and>
      nheight l \<le> nheight r + 2 \<and> nheight r \<le> nheight l + 2)"

text \<open>The cached heights alone; \<^verbatim>\<open>remove_if\<close> keeps this and may lose the rest.\<close>

fun heights_ok :: "'v tree \<Rightarrow> bool" where
  "heights_ok Terminator = True"
| "heights_ok (Node l r v h) = (heights_ok l \<and> heights_ok r \<and> h = max (nheight l) (nheight r) + 1)"

lemma isTerminator_iff [simp]: "isTerminator t \<longleftrightarrow> t = Terminator"
  by (cases t) (simp_all add: isTerminator_def)

lemma nheight_newNode [simp]: "nheight (newNode l r v) = max (nheight l) (nheight r) + 1"
  by (simp add: newNode_def)

lemma inorder_newNode [simp]: "inorder (newNode l r v) = inorder l @ v # inorder r"
  by (simp add: newNode_def)

lemma inorder_eq_Nil [simp]: "inorder t = [] \<longleftrightarrow> t = Terminator"
  by (cases t) auto

lemma length_inorder [simp]: "length (inorder t) = tree_size t"
  by (induction t) auto

lemma inorder_balance [tree_simps]: "inorder (balance l v r) = inorder l @ v # inorder r"
  by (simp add: balance_def split: tree.split)

lemma inorder_popMin: "popMin t = Some (m, t') \<Longrightarrow> inorder t = m # inorder t'"
  by (induction t arbitrary: m t')
     (auto simp: tree_simps split: if_splits option.splits)

lemma inorder_popMax: "popMax t = Some (m, t') \<Longrightarrow> inorder t = inorder t' @ [m]"
  by (induction t arbitrary: m t')
     (auto simp: tree_simps split: if_splits option.splits)

lemma popMin_None [simp]: "popMin t = None \<longleftrightarrow> t = Terminator"
  by (induction t) (auto split: option.splits)

lemma popMax_None [simp]: "popMax t = None \<longleftrightarrow> t = Terminator"
  by (induction t) (auto split: option.splits)

lemma inorder_join_removed [tree_simps]: "inorder (join_removed l r) = inorder l @ inorder r"
  by (auto simp: join_removed_def tree_simps split: option.split dest: inorder_popMin)

lemma inorder_remove_if [tree_simps]:
  "inorder (remove_if pred t) = filter (\<lambda>v. \<not> pred v) (inorder t)"
  by (induction t) (auto simp: tree_simps Let_def)

lemma map_values_same: "snd (map_values f t) \<Longrightarrow> fst (map_values f t) = t"
  by (induction t) (auto simp: Let_def split: prod.splits if_splits)

lemma inorder_map_values [tree_simps]:
  "inorder (fst (map_values f t)) = map (\<lambda>v. if snd (f v) then fst (f v) else v) (inorder t)"
proof (induction t)
  case (Node l r v h)
  then show ?case
    using map_values_same [of f l] map_values_same [of f r]
    by (auto simp: Let_def split: prod.splits)
qed simp

lemma map_values_balanced: "balanced t \<Longrightarrow> balanced (fst (map_values f t)) \<and> nheight (fst (map_values f t)) = nheight t"
  by (induction t) (auto simp: Let_def newNode_def split: prod.splits)

lemma tree_min_hd: "tree_min t = (if t = Terminator then None else Some (hd (inorder t)))"
  by (induction t) (auto simp: hd_append)

lemma tree_max_last: "tree_max t = (if t = Terminator then None else Some (last (inorder t)))"
  by (induction t) auto

subsection \<open>Balance\<close>

lemma balanced_nheight_0 [simp]: "balanced t \<Longrightarrow> nheight t = 0 \<longleftrightarrow> t = Terminator"
  by (cases t) auto

lemma balanced_newNode:
  "balanced (newNode l r v) \<longleftrightarrow>
     balanced l \<and> balanced r \<and> nheight l \<le> nheight r + 2 \<and> nheight r \<le> nheight l + 2"
  by (auto simp: newNode_def)

text \<open>\<^const>\<open>balance\<close> repairs a height difference of three, the most that one
  insertion or removal below a balanced node can cause.\<close>

lemma balance_left_heavy:
  assumes "balanced l" "balanced r" "nheight l = nheight r + 3"
  shows "balanced (balance l v r) \<and> nheight (balance l v r) \<le> nheight l + 1 \<and>
         nheight l \<le> nheight (balance l v r)"
proof -
  obtain ll lr lv h where l: "l = Node ll lr lv h" using assms(3) by (cases l) auto
  show ?thesis
  proof (cases "nheight lr \<le> nheight ll")
    case True
    with assms l show ?thesis by (auto simp: balance_def balanced_newNode)
  next
    case False
    then obtain lrl lrr lrv h' where "lr = Node lrl lrr lrv h'" by (cases lr) auto
    with False assms l show ?thesis by (auto simp: balance_def balanced_newNode)
  qed
qed

lemma balance_right_heavy:
  assumes "balanced l" "balanced r" "nheight r = nheight l + 3"
  shows "balanced (balance l v r) \<and> nheight (balance l v r) \<le> nheight r + 1 \<and>
         nheight r \<le> nheight (balance l v r)"
proof -
  obtain rl rr rv h where r: "r = Node rl rr rv h" using assms(3) by (cases r) auto
  show ?thesis
  proof (cases "nheight rl \<le> nheight rr")
    case True
    with assms r show ?thesis by (auto simp: balance_def balanced_newNode)
  next
    case False
    then obtain rll rlr rlv h' where "rl = Node rll rlr rlv h'" by (cases rl) auto
    with False assms r show ?thesis by (auto simp: balance_def balanced_newNode)
  qed
qed

lemma balance_even:
  assumes "balanced l" "balanced r" "nheight l \<le> nheight r + 2" "nheight r \<le> nheight l + 2"
  shows "balanced (balance l v r) \<and> nheight (balance l v r) = max (nheight l) (nheight r) + 1"
  using assms by (simp add: balance_def balanced_newNode)

text \<open>One subtree of a balanced node grew or shrank by at most one level, and
  \<^const>\<open>balance\<close> rebuilds the node.\<close>

lemma balance_grow:
  assumes "balanced l'" "balanced r'" "a \<le> b + 2" "b \<le> a + 2"
    and "a \<le> nheight l'" "b \<le> nheight r'" "nheight l' + nheight r' \<le> a + b + 1"
  shows "balanced (balance l' v r') \<and> max a b + 1 \<le> nheight (balance l' v r') \<and>
         nheight (balance l' v r') \<le> max a b + 2"
proof -
  consider "nheight l' = nheight r' + 3" | "nheight r' = nheight l' + 3"
    | "nheight l' \<le> nheight r' + 2" "nheight r' \<le> nheight l' + 2"
    using assms by linarith
  then show ?thesis
  proof cases
    case 1
    with balance_left_heavy [OF assms(1,2) 1, of v] assms show ?thesis by linarith
  next
    case 2
    with balance_right_heavy [OF assms(1,2) 2, of v] assms show ?thesis by linarith
  next
    case 3
    with balance_even [OF assms(1,2) 3, of v] assms show ?thesis by linarith
  qed
qed

lemma balance_shrink:
  assumes "balanced l'" "balanced r'" "a \<le> b + 2" "b \<le> a + 2"
    and "nheight l' \<le> a" "nheight r' \<le> b" "a + b \<le> nheight l' + nheight r' + 1"
  shows "balanced (balance l' v r') \<and> max a b \<le> nheight (balance l' v r') \<and>
         nheight (balance l' v r') \<le> max a b + 1"
proof -
  consider "nheight l' = nheight r' + 3" | "nheight r' = nheight l' + 3"
    | "nheight l' \<le> nheight r' + 2" "nheight r' \<le> nheight l' + 2"
    using assms by linarith
  then show ?thesis
  proof cases
    case 1
    with balance_left_heavy [OF assms(1,2) 1, of v] assms show ?thesis by linarith
  next
    case 2
    with balance_right_heavy [OF assms(1,2) 2, of v] assms show ?thesis by linarith
  next
    case 3
    with balance_even [OF assms(1,2) 3, of v] assms show ?thesis by linarith
  qed
qed

lemma popMin_balanced:
  "balanced t \<Longrightarrow> popMin t = Some (m, t') \<Longrightarrow>
     balanced t' \<and> nheight t' \<le> nheight t \<and> nheight t \<le> nheight t' + 1"
proof (induction t arbitrary: m t')
  case (Node l r v h)
  show ?case
  proof (cases "l = Terminator")
    case False
    with Node.prems obtain l' where l': "popMin l = Some (m, l')" "t' = balance l' v r"
      by (auto split: option.splits)
    with Node show ?thesis
      using balance_shrink [of l' r "nheight l" "nheight r" v] by simp
  qed (use Node.prems in auto)
qed simp

lemma popMax_balanced:
  "balanced t \<Longrightarrow> popMax t = Some (m, t') \<Longrightarrow>
     balanced t' \<and> nheight t' \<le> nheight t \<and> nheight t \<le> nheight t' + 1"
proof (induction t arbitrary: m t')
  case (Node l r v h)
  show ?case
  proof (cases "r = Terminator")
    case False
    with Node.prems obtain r' where r': "popMax r = Some (m, r')" "t' = balance l v r'"
      by (auto split: option.splits)
    with Node show ?thesis
      using balance_shrink [of l r' "nheight l" "nheight r" v] by simp
  qed (use Node.prems in auto)
qed simp

lemma join_removed_balanced:
  assumes "balanced l" "balanced r" "nheight l \<le> nheight r + 2" "nheight r \<le> nheight l + 2"
  shows "balanced (join_removed l r) \<and>
    max (nheight l) (nheight r) \<le> nheight (join_removed l r) \<and>
    nheight (join_removed l r) \<le> max (nheight l) (nheight r) + 1"
proof (cases "l = Terminator \<or> r = Terminator")
  case False
  then obtain m nr where nr: "popMin r = Some (m, nr)" by (cases "popMin r") auto
  with popMin_balanced [OF assms(2) nr] assms False show ?thesis
    using balance_shrink [of l nr "nheight l" "nheight r" m] by (simp add: join_removed_def)
qed (use assms in \<open>auto simp: join_removed_def\<close>)

lemma insert_balanced_aux:
  "balanced t \<Longrightarrow> balanced (tree_insert kov cmp v t) \<and>
     nheight t \<le> nheight (tree_insert kov cmp v t) \<and> nheight (tree_insert kov cmp v t) \<le> nheight t + 1"
proof (induction t)
  case (Node l r w h)
  then show ?case
    using balance_grow [of "tree_insert kov cmp v l" r "nheight l" "nheight r" w]
      balance_grow [of l "tree_insert kov cmp v r" "nheight l" "nheight r" w]
    by (simp add: le_SucI)
qed (simp add: newNode_def)

lemma replace_balanced_aux:
  "balanced t \<Longrightarrow> balanced (tree_replace kov cmp v t) \<and>
     nheight t \<le> nheight (tree_replace kov cmp v t) \<and> nheight (tree_replace kov cmp v t) \<le> nheight t + 1"
proof (induction t)
  case (Node l r w h)
  then show ?case
    using balance_grow [of "tree_replace kov cmp v l" r "nheight l" "nheight r" w]
      balance_grow [of l "tree_replace kov cmp v r" "nheight l" "nheight r" w]
    by (simp add: newNode_def le_SucI)
qed (simp add: newNode_def)

lemma remove_balanced_aux:
  "balanced t \<Longrightarrow> balanced (tree_remove kov cmp k t) \<and>
     nheight (tree_remove kov cmp k t) \<le> nheight t \<and> nheight t \<le> nheight (tree_remove kov cmp k t) + 1"
proof (induction t)
  case (Node l r w h)
  then show ?case
    using balance_shrink [of "tree_remove kov cmp k l" r "nheight l" "nheight r" w]
      balance_shrink [of l "tree_remove kov cmp k r" "nheight l" "nheight r" w]
      join_removed_balanced [of l r]
    by simp
qed simp

lemma balanced_nheight_le_size: "balanced t \<Longrightarrow> nheight t \<le> tree_size t"
  by (induction t) auto

subsection \<open>Cached heights\<close>

lemma balanced_heights_ok: "balanced t \<Longrightarrow> heights_ok t"
  by (induction t) auto

lemma heights_ok_newNode [simp]: "heights_ok (newNode l r v) \<longleftrightarrow> heights_ok l \<and> heights_ok r"
  by (simp add: newNode_def)

lemma heights_ok_balance [simp]: "heights_ok l \<Longrightarrow> heights_ok r \<Longrightarrow> heights_ok (balance l v r)"
  unfolding balance_def by (cases l; cases r) (auto split: tree.split simp del: max.absorb1 max.absorb2 max.absorb3 max.absorb4)

lemma heights_ok_popMin: "popMin t = Some (m, t') \<Longrightarrow> heights_ok t \<Longrightarrow> heights_ok t'"
  by (induction t arbitrary: m t') (auto split: if_splits option.splits)

lemma heights_ok_popMax: "popMax t = Some (m, t') \<Longrightarrow> heights_ok t \<Longrightarrow> heights_ok t'"
  by (induction t arbitrary: m t') (auto split: if_splits option.splits)

lemma heights_ok_join_removed [simp]: "heights_ok l \<Longrightarrow> heights_ok r \<Longrightarrow> heights_ok (join_removed l r)"
  by (auto simp: join_removed_def split: option.split dest: heights_ok_popMin)

lemma heights_ok_insert: "heights_ok t \<Longrightarrow> heights_ok (tree_insert kov cmp v t)"
  by (induction t) auto

lemma heights_ok_replace: "heights_ok t \<Longrightarrow> heights_ok (tree_replace kov cmp v t)"
  by (induction t) auto

lemma heights_ok_remove: "heights_ok t \<Longrightarrow> heights_ok (tree_remove kov cmp k t)"
  by (induction t) auto

lemma heights_ok_remove_if: "heights_ok t \<Longrightarrow> heights_ok (remove_if pred t)"
  by (induction t) (auto simp: Let_def)

lemma heights_ok_map_values: "heights_ok t \<Longrightarrow> heights_ok (fst (map_values f t))"
  by (induction t) (auto simp: Let_def split: prod.split)

text \<open>The height is logarithmic in the number of elements: three levels down, a balanced tree
  has lost half of its elements.\<close>

lemma balanced_height_log: "balanced t \<Longrightarrow> nheight t = h \<Longrightarrow> 2 ^ (h div 3) \<le> tree_size t + 1"
proof (induction h arbitrary: t rule: less_induct)
  case (less h)
  show ?case
  proof (cases "h < 3")
    case False
    then obtain l r v where t: "t = Node l r v h" using less.prems by (cases t) auto
    then have lr: "balanced l" "balanced r" and h: "h = max (nheight l) (nheight r) + 1"
      "nheight l \<le> nheight r + 2" "nheight r \<le> nheight l + 2" using less.prems by auto
    have bounds: "h - 3 \<le> nheight l" "h - 3 \<le> nheight r" "nheight l < h" "nheight r < h"
      using h by linarith+
    have half: "2 ^ ((h - 3) div 3) \<le> tree_size u + 1" if "balanced u" "h - 3 \<le> nheight u" "nheight u < h" for u :: "'a tree"
    proof -
      have "(2::nat) ^ ((h - 3) div 3) \<le> 2 ^ (nheight u div 3)"
        using that by (intro power_increasing div_le_mono) auto
      also have "\<dots> \<le> tree_size u + 1" using less.IH [of "nheight u" u] that(1,3) by simp
      finally show ?thesis .
    qed
    have "h div 3 = Suc ((h - 3) div 3)" using False by simp
    then have "2 ^ (h div 3) = 2 ^ ((h - 3) div 3) + (2::nat) ^ ((h - 3) div 3)" by simp
    also have "\<dots> \<le> tree_size t + 1" using half [of l] half [of r] lr bounds t by simp
    finally show ?thesis .
  qed simp
qed

end
