(* ===== verification/Tree_Search.thy ===== *)
theory Tree_Search
  imports Immutable_Tree
begin

text \<open>
  The laws of the search operations of \<^verbatim>\<open>ImmutableTree.h\<close>. The template parameters
  \<^verbatim>\<open>KOV\<close> (the key of a value) and \<^verbatim>\<open>CMP\<close> (the order of the keys) are
  the locale \<^verbatim>\<open>key_order\<close>; what the functions of the tree do to the mapping it
  stands for is proved once for all instances.
\<close>

subsection \<open>Search tree laws\<close>

locale key_order =
  fixes kov :: "'v \<Rightarrow> 'k" and cmp :: "'k \<Rightarrow> 'k \<Rightarrow> bool"
  assumes cmp_irrefl: "\<not> cmp a a"
    and cmp_trans: "cmp a b \<Longrightarrow> cmp b c \<Longrightarrow> cmp a c"
    and cmp_total: "\<not> cmp a b \<Longrightarrow> \<not> cmp b a \<Longrightarrow> a = b"
begin

lemma cmp_asym: "cmp a b \<Longrightarrow> \<not> cmp b a"
  using cmp_irrefl cmp_trans by blast

lemma search_tree_Terminator [simp]: "search_tree kov cmp Terminator"
  by (simp add: search_tree_def)

lemma search_tree_Node:
  "search_tree kov cmp (Node l r v h) \<longleftrightarrow>
     search_tree kov cmp l \<and> search_tree kov cmp r \<and>
     (\<forall>x\<in>set (inorder l). cmp (kov x) (kov v)) \<and> (\<forall>x\<in>set (inorder r). cmp (kov v) (kov x))"
  unfolding search_tree_def by (auto simp: sorted_wrt_append_mid intro: cmp_trans)

lemma search_tree_balance:
  "search_tree kov cmp (balance l v r) \<longleftrightarrow>
     search_tree kov cmp l \<and> search_tree kov cmp r \<and>
     (\<forall>x\<in>set (inorder l). cmp (kov x) (kov v)) \<and> (\<forall>x\<in>set (inorder r). cmp (kov v) (kov x))"
  using search_tree_Node [of l r v 0] by (simp add: search_tree_def tree_simps)

lemma search_tree_newNode:
  "search_tree kov cmp (newNode l r v) \<longleftrightarrow>
     search_tree kov cmp l \<and> search_tree kov cmp r \<and>
     (\<forall>x\<in>set (inorder l). cmp (kov x) (kov v)) \<and> (\<forall>x\<in>set (inorder r). cmp (kov v) (kov x))"
  using search_tree_Node [of l r v 0] by (simp add: search_tree_def tree_simps)

lemmas search_tree_simps = search_tree_Node search_tree_balance search_tree_newNode

lemma sorted_wrt_cmp_distinct: "sorted_wrt cmp ks \<Longrightarrow> distinct ks"
  by (induction ks) (auto simp: cmp_irrefl)

lemma search_tree_distinct: "search_tree kov cmp t \<Longrightarrow> distinct (map kov (inorder t))"
  unfolding search_tree_def sorted_wrt_map [symmetric] by (rule sorted_wrt_cmp_distinct)

lemma search_tree_key_inj:
  "search_tree kov cmp t \<Longrightarrow> x \<in> set (inorder t) \<Longrightarrow> y \<in> set (inorder t) \<Longrightarrow>
     kov x = kov y \<Longrightarrow> x = y"
  using search_tree_distinct [of t] by (auto simp: distinct_map inj_on_def)

lemma set_inorder_insert:
  "search_tree kov cmp t \<Longrightarrow>
     set (inorder (tree_insert kov cmp v t)) =
       (if kov v \<in> kov ` set (inorder t) then set (inorder t) else insert v (set (inorder t)))"
  by (induction t)
     (auto simp: search_tree_Node tree_simps cmp_irrefl dest: cmp_asym cmp_total split: if_splits)

lemma set_inorder_replace:
  "search_tree kov cmp t \<Longrightarrow>
     set (inorder (tree_replace kov cmp v t)) =
       insert v {w \<in> set (inorder t). kov w \<noteq> kov v}"
  by (induction t)
     (auto simp: search_tree_Node tree_simps cmp_irrefl dest: cmp_asym cmp_total split: if_splits)

lemma set_inorder_remove:
  "search_tree kov cmp t \<Longrightarrow>
     set (inorder (tree_remove kov cmp k t)) = {w \<in> set (inorder t). kov w \<noteq> k}"
  by (induction t)
     (auto simp: search_tree_Node tree_simps cmp_irrefl dest: cmp_asym cmp_total split: if_splits)

lemma search_tree_insert:
  "search_tree kov cmp t \<Longrightarrow> search_tree kov cmp (tree_insert kov cmp v t)"
  by (induction t)
     (auto simp: search_tree_simps set_inorder_insert split: if_splits)

lemma search_tree_replace:
  "search_tree kov cmp t \<Longrightarrow> search_tree kov cmp (tree_replace kov cmp v t)"
proof (induction t)
  case (Node l r w h)
  have "kov v = kov w" if "\<not> cmp (kov v) (kov w)" "\<not> cmp (kov w) (kov v)"
    using that by (rule cmp_total)
  with Node show ?case
    by (auto simp: search_tree_simps set_inorder_replace)
qed (simp add: search_tree_newNode)

lemma search_tree_join_removed:
  "search_tree kov cmp (Node l r w h) \<Longrightarrow> search_tree kov cmp (join_removed l r)"
  unfolding search_tree_def by (auto simp: tree_simps sorted_wrt_append)

lemma search_tree_remove:
  "search_tree kov cmp t \<Longrightarrow> search_tree kov cmp (tree_remove kov cmp k t)"
  by (induction t)
     (auto simp: search_tree_simps set_inorder_remove
       intro: search_tree_join_removed [unfolded search_tree_Node])

lemma search_tree_remove_if:
  "search_tree kov cmp t \<Longrightarrow> search_tree kov cmp (remove_if pred t)"
  by (simp add: search_tree_def tree_simps sorted_wrt_filter)

lemma lookup_Some_iff:
  "search_tree kov cmp t \<Longrightarrow>
     tree_lookup kov cmp k t = Some v \<longleftrightarrow> v \<in> set (inorder t) \<and> kov v = k"
  by (induction t)
     (auto simp: search_tree_Node cmp_irrefl dest: cmp_asym cmp_total)

lemma lookup_None_iff:
  assumes "search_tree kov cmp t"
  shows "tree_lookup kov cmp k t = None \<longleftrightarrow> k \<notin> kov ` set (inorder t)"
proof -
  have "tree_lookup kov cmp k t = None \<longleftrightarrow> (\<forall>v. tree_lookup kov cmp k t \<noteq> Some v)" by auto
  with lookup_Some_iff [OF assms] show ?thesis by (auto simp: image_iff)
qed

lemma count_lookup: "tree_count kov cmp k t = (if tree_lookup kov cmp k t = None then 0 else 1)"
  by (induction t) auto

lemma lookup_insert:
  assumes "search_tree kov cmp t"
  shows "tree_lookup kov cmp k (tree_insert kov cmp v t) =
     (if k = kov v \<and> tree_lookup kov cmp k t = None then Some v else tree_lookup kov cmp k t)"
  by (rule option_eqI)
     (auto simp: lookup_Some_iff lookup_None_iff search_tree_insert set_inorder_insert image_iff assms)

lemma lookup_replace:
  assumes "search_tree kov cmp t"
  shows "tree_lookup kov cmp k (tree_replace kov cmp v t) =
     (if k = kov v then Some v else tree_lookup kov cmp k t)"
  by (rule option_eqI)
     (auto simp: lookup_Some_iff search_tree_replace set_inorder_replace assms)

lemma lookup_remove:
  assumes "search_tree kov cmp t"
  shows "tree_lookup kov cmp k (tree_remove kov cmp k' t) =
     (if k = k' then None else tree_lookup kov cmp k t)"
  by (rule option_eqI)
     (auto simp: lookup_Some_iff search_tree_remove set_inorder_remove assms)

lemma lookup_previous_loop_spec:
  assumes "search_tree kov cmp t"
  shows "lookup_previous_loop kov cmp k res t =
     (let vs = filter (\<lambda>v. \<not> cmp k (kov v)) (inorder t) in if vs = [] then res else Some (last vs))"
  using assms
proof (induction t arbitrary: res)
  case (Node l r w h)
  have none: "filter (\<lambda>v. \<not> cmp k (kov v)) (inorder r) = []" if "cmp k (kov w) \<or> k = kov w"
    using that Node.prems by (auto simp: search_tree_Node filter_empty_conv intro: cmp_trans)
  have IH: "search_tree kov cmp l" "search_tree kov cmp r" using Node.prems by (auto simp: search_tree_Node)
  consider (lt) "cmp k (kov w)" | (gt) "\<not> cmp k (kov w)" "cmp (kov w) k" | (eq) "k = kov w"
    using cmp_total by blast
  then show ?case
  proof cases
    case lt
    with none Node.IH(1) IH show ?thesis by (simp add: Let_def)
  next
    case gt
    with Node.IH(2) IH show ?thesis by (auto simp: Let_def)
  next
    case eq
    with none show ?thesis by (simp add: cmp_irrefl)
  qed
qed simp

end

end
