(* ===== verification/Tree_Iter.thy ===== *)
theory Tree_Iter
  imports Tree_Search
begin

text \<open>
  The iterators of \<^verbatim>\<open>ImmutableTree.h\<close>: an iterator is a path from the root, and
  what it will still deliver is computed from the path. \<^verbatim>\<open>begin\<close>,
  \<^verbatim>\<open>++\<close>, \<^verbatim>\<open>lower_bound\<close>, \<^verbatim>\<open>upper_bound\<close> and
  \<^verbatim>\<open>find\<close> are characterised by that sequence.
\<close>

subsection \<open>Iterators\<close>

text \<open>A stack is a path when each node on it is a child of the one below and the bottom is the
  root. What an iterator still has to deliver is read off its path.\<close>

fun is_path :: "'v tree \<Rightarrow> 'v titer \<Rightarrow> bool" where
  "is_path root [] = True"
| "is_path root [n] = (n = root \<and> n \<noteq> Terminator)"
| "is_path root (c # p # stk) =
     (c \<noteq> Terminator \<and> (c = nleft p \<or> c = nright p) \<and> is_path root (p # stk))"

fun up_rest :: "'v tree \<Rightarrow> 'v titer \<Rightarrow> 'v list" where
  "up_rest c [] = []"
| "up_rest c (p # stk) =
     (if c = nleft p then nvalue p # inorder (nright p) @ up_rest p stk else up_rest p stk)"

fun iter_rest :: "'v titer \<Rightarrow> 'v list" where
  "iter_rest [] = []"
| "iter_rest (n # stk) = nvalue n # inorder (nright n) @ up_rest n stk"

lemma iter_rest_eq_Nil [simp]: "iter_rest it = [] \<longleftrightarrow> it = []"
  by (cases it) auto

lemma path_nonterminator: "is_path root (n # stk) \<Longrightarrow> n \<noteq> Terminator"
  by (cases stk) auto

lemma path_tl: "is_path root (n # stk) \<Longrightarrow> is_path root stk"
  by (cases stk) auto

lemma iter_deref_path: "is_path root it \<Longrightarrow>
    iter_deref it = (if it = [] then None else Some (hd (iter_rest it)))"
proof (cases it)
  case (Cons n stk)
  assume "is_path root it"
  with Cons have "n \<noteq> Terminator" by (auto dest: path_nonterminator)
  with Cons show ?thesis by (cases n) auto
qed simp

lemma push_left_path:
  "is_path root stk \<Longrightarrow> (if stk = [] then t = root else t = nleft (hd stk) \<or> t = nright (hd stk)) \<Longrightarrow>
     is_path root (push_left t stk)"
proof (induction t arbitrary: stk)
  case (Node l r v h)
  then have "is_path root (Node l r v h # stk)" by (cases stk) auto
  with Node.IH(1) [of "Node l r v h # stk"] show ?case by simp
qed simp

lemma push_left_rest:
  "t \<noteq> Terminator \<Longrightarrow> iter_rest (push_left t stk) = inorder t @ up_rest t stk"
proof (induction t arbitrary: stk)
  case (Node l r v h)
  then show ?case by (cases "l = Terminator") auto
qed simp

lemma pop_until_left_path: "is_path root (c # stk) \<Longrightarrow> is_path root (pop_until_left c stk)"
  by (induction c stk rule: pop_until_left.induct) auto

lemma pop_until_left_rest: "iter_rest (pop_until_left c stk) = up_rest c stk"
  by (induction c stk rule: pop_until_left.induct) auto

lemma iter_begin_path [simp]: "is_path root (iter_begin root)"
  by (simp add: iter_begin_def push_left_path)

lemma iter_begin_rest [simp]: "iter_rest (iter_begin root) = inorder root"
  by (cases "root = Terminator") (simp_all add: iter_begin_def push_left_rest)

lemma iter_incr_path:
  "is_path root it \<Longrightarrow> iter_incr it = Some it' \<Longrightarrow> is_path root it'"
proof (cases it)
  case (Cons n stk)
  assume *: "is_path root it" "iter_incr it = Some it'"
  show ?thesis
  proof (cases "nright n = Terminator")
    case True
    with * Cons show ?thesis by (auto simp: pop_until_left_path)
  next
    case False
    then have "is_path root (nright n # n # stk)" using * Cons by simp
    with False * Cons show ?thesis by (auto simp: push_left_path)
  qed
qed simp

text \<open>The stack of \<^verbatim>\<open>FixedStack\<close> is allocated with \<^verbatim>\<open>root->height\<close>
  slots; a path never needs more.\<close>

lemma path_height:
  "heights_ok root \<Longrightarrow> is_path root (n # stk) \<Longrightarrow>
     heights_ok n \<and> nheight n + length stk \<le> nheight root"
proof (induction stk arbitrary: n)
  case (Cons p stk)
  then have "heights_ok p" "nheight p + length stk \<le> nheight root" by (auto simp: path_nonterminator)
  moreover have "n = nleft p \<or> n = nright p" "p \<noteq> Terminator" "n \<noteq> Terminator"
    using Cons.prems by (auto dest: path_nonterminator)
  ultimately show ?case by (cases p) auto
qed auto

lemma path_length:
  assumes "heights_ok root" "is_path root it"
  shows "length it \<le> nheight root"
proof (cases it)
  case (Cons n stk)
  with assms path_height [of root n stk] have "heights_ok n" "nheight n + length stk \<le> nheight root" by auto
  moreover have "0 < nheight n"
    using assms Cons path_nonterminator \<open>heights_ok n\<close> by (cases n) auto
  ultimately show ?thesis using Cons by simp
qed simp

context key_order
begin

lemma search_tree_children_differ:
  "search_tree kov cmp n \<Longrightarrow> nright n \<noteq> Terminator \<Longrightarrow> nleft n \<noteq> nright n"
proof (cases n)
  case (Node l r v h)
  assume *: "search_tree kov cmp n" "nright n \<noteq> Terminator"
  then obtain x where "x \<in> set (inorder r)" using Node by (cases "inorder r") auto
  with * Node show ?thesis by (auto simp: search_tree_Node dest: cmp_asym)
qed simp

lemma search_tree_path:
  "search_tree kov cmp root \<Longrightarrow> is_path root (n # stk) \<Longrightarrow> search_tree kov cmp n"
proof (induction stk arbitrary: n)
  case (Cons p stk)
  then have "search_tree kov cmp p" "n = nleft p \<or> n = nright p" by auto
  then show ?case by (cases p) (auto simp: search_tree_Node)
qed auto

lemma iter_incr_rest:
  assumes "search_tree kov cmp root" "is_path root it" "it \<noteq> []"
  shows "\<exists>it'. iter_incr it = Some it' \<and> is_path root it' \<and> iter_rest it' = tl (iter_rest it)"
proof -
  obtain n stk where it: "it = n # stk" using assms(3) by (cases it) auto
  have sn: "search_tree kov cmp n" using assms it by (auto intro: search_tree_path)
  show ?thesis
  proof (cases "nright n = Terminator")
    case True
    with it assms show ?thesis by (auto simp: pop_until_left_rest pop_until_left_path)
  next
    case False
    with sn have ne: "nright n \<noteq> nleft n" by (auto dest: search_tree_children_differ)
    have "iter_incr it = Some (push_left (nright n) (n # stk))"
      using False it by (cases "nright n") auto
    moreover have "iter_rest (push_left (nright n) (n # stk)) = inorder (nright n) @ up_rest n stk"
      using False ne by (simp add: push_left_rest)
    moreover have "is_path root (push_left (nright n) (n # stk))"
      using assms it by (simp add: push_left_path)
    ultimately show ?thesis using it by simp
  qed
qed

lemma iter_collect_rest:
  assumes "search_tree kov cmp root"
  shows "is_path root it \<Longrightarrow> length (iter_rest it) \<le> fuel \<Longrightarrow> iter_collect fuel it = Some (iter_rest it)"
proof (induction fuel arbitrary: it)
  case 0
  then show ?case by (cases it) auto
next
  case (Suc fuel)
  show ?case
  proof (cases it)
    case (Cons n stk)
    then obtain it' where it': "iter_incr it = Some it'" "is_path root it'" "iter_rest it' = tl (iter_rest it)"
      using iter_incr_rest [OF assms, of it] Suc.prems by auto
    have "iter_collect fuel it' = Some (iter_rest it')"
      using Suc it' by simp
    with it' Cons Suc.prems iter_deref_path [of root it] show ?thesis by simp
  qed simp
qed

lemma tree_elements_inorder:
  "search_tree kov cmp t \<Longrightarrow> tree_elements t = Some (inorder t)"
  using iter_collect_rest [of t "iter_begin t" "tree_size t"] by (simp add: tree_elements_def)

end

context key_order
begin

lemma lower_bound_descend_spec:
  assumes "search_tree kov cmp root" "search_tree kov cmp c" "c \<noteq> Terminator"
    and "is_path root (c # stk)"
    and "lower_bound_descend kov cmp k c stk = (stk', found)"
  shows "is_path root stk' \<and> stk' \<noteq> [] \<and>
    (let below = dropWhile (\<lambda>v. cmp (kov v) k) (inorder c) @ up_rest c stk;
         top = hd (iter_rest stk')
     in if found \<or> \<not> cmp (kov top) k then iter_rest stk' = below else tl (iter_rest stk') = below)"
  using assms
proof (induction c arbitrary: stk)
  case (Node l r w h)
  let ?c = "Node l r w h" and ?P = "\<lambda>v. cmp (kov v) k"
  have sub: "search_tree kov cmp l" "search_tree kov cmp r"
    and lw: "\<forall>x\<in>set (inorder l). cmp (kov x) (kov w)"
    using Node.prems(2) by (auto simp: search_tree_Node)
  consider (lt) "cmp k (kov w)" | (gt) "cmp (kov w) k" "\<not> cmp k (kov w)" | (eq) "k = kov w"
    using cmp_total by blast
  then show ?case
  proof cases
    case lt
    then have nP: "\<not> ?P w" by (rule cmp_asym)
    show ?thesis
    proof (cases "l = Terminator")
      case True
      with lt nP Node.prems show ?thesis by auto
    next
      case False
      have "is_path root (l # ?c # stk)" using Node.prems False by simp
      with Node.IH(1) [of "?c # stk"] Node.prems lt sub False nP show ?thesis
        by (simp add: dropWhile_append3)
    qed
  next
    case gt
    then have dl: "dropWhile ?P (inorder l @ w # inorder r) = dropWhile ?P (inorder r)"
      using lw by (subst dropWhile_append2) (auto intro: cmp_trans)
    show ?thesis
    proof (cases "r = Terminator")
      case True
      with gt dl Node.prems show ?thesis by auto
    next
      case False
      have "nleft ?c \<noteq> nright ?c"
        using search_tree_children_differ [OF Node.prems(2)] False by simp
      moreover have "is_path root (r # ?c # stk)" using Node.prems False by simp
      ultimately show ?thesis
        using Node.IH(2) [of "?c # stk"] Node.prems gt sub False dl by simp
    qed
  next
    case eq
    have "dropWhile ?P (inorder l @ w # inorder r) = w # inorder r"
      using lw eq cmp_irrefl by (subst dropWhile_append2) auto
    with eq Node.prems show ?thesis by (auto simp: cmp_irrefl)
  qed
qed simp

lemma lower_bound_rest:
  assumes "search_tree kov cmp t"
  shows "\<exists>it. lower_bound kov cmp k t = Some it \<and> is_path t it \<and>
           iter_rest it = dropWhile (\<lambda>v. cmp (kov v) k) (inorder t)"
proof (cases "t = Terminator")
  case True
  then show ?thesis by (simp add: lower_bound_def)
next
  case False
  obtain stk found where d: "lower_bound_descend kov cmp k t [] = (stk, found)" by fastforce
  note spec = lower_bound_descend_spec [OF assms assms False _ d]
  have p: "is_path t stk" "stk \<noteq> []" using spec False by auto
  show ?thesis
  proof (cases "found \<or> \<not> cmp (kov (hd (iter_rest stk))) k")
    case True
    with d spec p False show ?thesis by (auto simp: lower_bound_def iter_deref_path)
  next
    case False
    obtain it where "iter_incr stk = Some it" "is_path t it" "iter_rest it = tl (iter_rest stk)"
      using iter_incr_rest [OF assms p] by auto
    with d spec p False \<open>t \<noteq> Terminator\<close> show ?thesis by (auto simp: lower_bound_def iter_deref_path)
  qed
qed

lemma dropWhile_sorted_hd:
  "sorted_wrt (\<lambda>x y. cmp (kov x) (kov y)) xs \<Longrightarrow>
     dropWhile (\<lambda>v. \<not> cmp k (kov v)) xs =
       (case dropWhile (\<lambda>v. cmp (kov v) k) xs of [] \<Rightarrow> []
        | v # vs \<Rightarrow> if \<not> cmp k (kov v) then vs else v # vs)"
proof (induction xs)
  case (Cons x xs)
  have "dropWhile (\<lambda>v. \<not> cmp k (kov v)) xs = xs" if "\<not> cmp (kov x) k" "\<not> cmp k (kov x)"
  proof -
    have "k = kov x" using that cmp_total by blast
    with Cons.prems show ?thesis by (cases xs) auto
  qed
  with Cons cmp_asym show ?case by auto
qed simp

lemma upper_bound_rest:
  assumes "search_tree kov cmp t"
  shows "\<exists>it. upper_bound kov cmp k t = Some it \<and> is_path t it \<and>
           iter_rest it = dropWhile (\<lambda>v. \<not> cmp k (kov v)) (inorder t)"
proof -
  obtain it where it: "lower_bound kov cmp k t = Some it" "is_path t it"
    "iter_rest it = dropWhile (\<lambda>v. cmp (kov v) k) (inorder t)"
    using lower_bound_rest [OF assms] by blast
  have d: "dropWhile (\<lambda>v. \<not> cmp k (kov v)) (inorder t) =
      (case iter_rest it of [] \<Rightarrow> [] | v # vs \<Rightarrow> if \<not> cmp k (kov v) then vs else v # vs)"
    using dropWhile_sorted_hd assms it(3) by (simp add: search_tree_def)
  show ?thesis
  proof (cases "it = []")
    case True
    with it(1,2) show ?thesis by (simp add: upper_bound_def d)
  next
    case False
    with iter_incr_rest [OF assms it(2) False] it(1,2) show ?thesis
      by (cases "iter_rest it") (auto simp: upper_bound_def iter_deref_path d)
  qed
qed

lemma tree_find_rest:
  assumes "search_tree kov cmp t"
  shows "\<exists>it. tree_find kov cmp k t = Some it \<and> is_path t it \<and>
           iter_deref it = tree_lookup kov cmp k t"
proof -
  obtain it where it: "lower_bound kov cmp k t = Some it" "is_path t it"
    "iter_rest it = dropWhile (\<lambda>v. cmp (kov v) k) (inorder t)"
    using lower_bound_rest [OF assms] by blast
  have look: "tree_lookup kov cmp k t = (case iter_rest it of [] \<Rightarrow> None | v # vs \<Rightarrow> if cmp k (kov v) then None else Some v)"
  proof (cases "iter_rest it")
    case Nil
    then have "\<forall>v\<in>set (inorder t). cmp (kov v) k" using it by (simp add: dropWhile_eq_Nil_conv)
    with assms Nil show ?thesis by (auto simp: lookup_None_iff cmp_irrefl)
  next
    case (Cons v vs)
    then have eq: "inorder t = takeWhile (\<lambda>v. cmp (kov v) k) (inorder t) @ v # vs"
      using it by (metis takeWhile_dropWhile_id)
    have nv: "\<not> cmp (kov v) k" using Cons it by (metis dropWhile_eq_Cons_conv)
    have vin: "v \<in> set (inorder t)" using eq by (metis in_set_conv_decomp)
    show ?thesis
    proof (cases "cmp k (kov v)")
      case True
      have "\<forall>x\<in>set (takeWhile (\<lambda>v. cmp (kov v) k) (inorder t)). cmp (kov x) k"
        by (auto dest: set_takeWhileD)
      moreover have "sorted_wrt (\<lambda>x y. cmp (kov x) (kov y)) (v # vs)"
        using assms eq unfolding search_tree_def by (metis sorted_wrt_append)
      ultimately have "k \<notin> kov ` set (inorder t)"
        using True by (subst eq) (auto simp: cmp_irrefl dest: cmp_asym cmp_trans)
      with True Cons assms show ?thesis by (simp add: lookup_None_iff)
    next
      case False
      with nv have "kov v = k" using cmp_total by blast
      with Cons vin assms show ?thesis by (simp add: lookup_Some_iff cmp_irrefl)
    qed
  qed
  with it(1,2) show ?thesis
    by (cases "iter_rest it") (auto simp: tree_find_def iter_deref_path iter_end_def)
qed

end

end
