(* ===== verification/Tree_Merge.thy ===== *)
theory Tree_Merge
  imports Tree_Iter
begin

text \<open>
  \<^verbatim>\<open>merge_with\<close> and \<^verbatim>\<open>operator==\<close> of
  \<^verbatim>\<open>ImmutableTree.h\<close>, which walk two trees with two iterators.
\<close>

text \<open>The specification of \<^verbatim>\<open>merge_with\<close>: a merge of the two ascending sequences.\<close>

fun merge_lists ::
  "('v \<Rightarrow> 'k) \<Rightarrow> ('k \<Rightarrow> 'k \<Rightarrow> bool) \<Rightarrow> ('v \<Rightarrow> 'v \<Rightarrow> bool \<times> 'v) \<Rightarrow> 'v list \<Rightarrow> 'v list \<Rightarrow> 'v list" where
  "merge_lists kov cmp mergefn [] ys = ys"
| "merge_lists kov cmp mergefn (x # xs) [] = x # xs"
| "merge_lists kov cmp mergefn (x # xs) (y # ys) =
     (if cmp (kov x) (kov y) then x # merge_lists kov cmp mergefn xs (y # ys)
      else if cmp (kov y) (kov x) then y # merge_lists kov cmp mergefn (x # xs) ys
      else (if fst (mergefn x y) then [snd (mergefn x y)] else []) @ merge_lists kov cmp mergefn xs ys)"

text \<open>What the source asks of the functions given to \<^verbatim>\<open>merge_with\<close>: they keep
  the key.\<close>

definition key_preserving :: "('v \<Rightarrow> 'k) \<Rightarrow> ('v \<Rightarrow> 'v \<Rightarrow> bool \<times> 'v) \<Rightarrow> bool" where
  "key_preserving kov mergefn \<longleftrightarrow> (\<forall>x y. kov x = kov y \<longrightarrow> kov (snd (mergefn x y)) = kov x)"

lemma merge_lists_Nil2 [simp]: "merge_lists kov cmp mergefn xs [] = xs"
  by (cases xs) auto


context key_order
begin

lemma tree_eq_loop_rest:
  assumes "search_tree kov cmp t" "search_tree kov cmp u"
  shows "is_path t a \<Longrightarrow> is_path u b \<Longrightarrow> length (iter_rest a) \<le> fuel \<Longrightarrow>
     tree_eq_loop fuel a b = Some (iter_rest a = iter_rest b)"
proof (induction fuel arbitrary: a b)
  case 0
  then show ?case by (cases a; cases b) auto
next
  case (Suc fuel)
  show ?case
  proof (cases "a = [] \<or> b = []")
    case True
    then show ?thesis by (cases a; cases b) auto
  next
    case False
    obtain a' b' where a': "iter_incr a = Some a'" "is_path t a'" "iter_rest a' = tl (iter_rest a)"
      and b': "iter_incr b = Some b'" "is_path u b'" "iter_rest b' = tl (iter_rest b)"
      using iter_incr_rest [OF assms(1), of a] iter_incr_rest [OF assms(2), of b] False Suc.prems by blast
    have IH: "tree_eq_loop fuel a' b' = Some (iter_rest a' = iter_rest b')"
      using Suc a' b' by simp
    have deref: "iter_deref a = Some (hd (iter_rest a))" "iter_deref b = Some (hd (iter_rest b))"
      using Suc.prems False by (auto simp: iter_deref_path)
    have "iter_rest a = iter_rest b \<longleftrightarrow>
        hd (iter_rest a) = hd (iter_rest b) \<and> tl (iter_rest a) = tl (iter_rest b)"
      using False by (metis iter_rest_eq_Nil list.expand)
    with False IH deref a' b' show ?thesis by (cases a; cases b) auto
  qed
qed

lemma tree_equal_iff:
  assumes "search_tree kov cmp t" "search_tree kov cmp u"
  shows "tree_equal t u = Some (inorder t = inorder u)"
  using tree_eq_loop_rest [OF assms, of "iter_begin t" "iter_begin u" "tree_size t"]
  by (cases t; cases u) (auto simp: tree_equal_def)

lemma insert_greatest:
  "(\<forall>x\<in>set (inorder t). cmp (kov x) (kov v)) \<Longrightarrow> inorder (tree_insert kov cmp v t) = inorder t @ [v]"
  by (induction t) (auto simp: tree_simps dest: cmp_asym)

lemma merge_lists_keys:
  "key_preserving kov mergefn \<Longrightarrow>
     kov ` set (merge_lists kov cmp mergefn xs ys) \<subseteq> kov ` set xs \<union> kov ` set ys"
proof (induction xs ys rule: merge_induct)
  case (Cons x xs y ys)
  have "kov y = kov x \<Longrightarrow> kov (snd (mergefn x y)) = kov x"
    using Cons.prems by (simp add: key_preserving_def)
  with Cons cmp_total [of "kov x" "kov y"] show ?case by (auto 4 3)
qed auto

lemma merge_lists_ascending:
  assumes "key_preserving kov mergefn"
    and "sorted_wrt (\<lambda>x y. cmp (kov x) (kov y)) xs" "sorted_wrt (\<lambda>x y. cmp (kov x) (kov y)) ys"
  shows "sorted_wrt (\<lambda>x y. cmp (kov x) (kov y)) (merge_lists kov cmp mergefn xs ys)"
  using assms
proof (induction xs ys rule: merge_induct)
  case (Cons x xs y ys)
  have below: "\<forall>z\<in>set (merge_lists kov cmp mergefn as bs). cmp a (kov z)"
    if "\<forall>u\<in>set as. cmp a (kov u)" "\<forall>u\<in>set bs. cmp a (kov u)" for a as bs
    using merge_lists_keys [OF assms(1), of as bs] that by (auto simp: image_subset_iff)
  have x: "\<forall>z\<in>set xs. cmp (kov x) (kov z)" "sorted_wrt (\<lambda>x y. cmp (kov x) (kov y)) xs"
    and y: "\<forall>z\<in>set ys. cmp (kov y) (kov z)" "sorted_wrt (\<lambda>x y. cmp (kov x) (kov y)) ys"
    using Cons.prems by auto
  consider (lt) "cmp (kov x) (kov y)" | (gt) "\<not> cmp (kov x) (kov y)" "cmp (kov y) (kov x)"
    | (eq) "kov y = kov x" using cmp_total by metis
  then show ?case
  proof cases
    case lt
    then have "\<forall>u\<in>set (y # ys). cmp (kov x) (kov u)" using y(1) by (auto intro: cmp_trans)
    then have "\<forall>z\<in>set (merge_lists kov cmp mergefn xs (y # ys)). cmp (kov x) (kov z)"
      using x(1) by (rule below [rotated])
    with lt Cons.IH(1) Cons.prems show ?thesis by simp
  next
    case gt
    then have "\<forall>u\<in>set (x # xs). cmp (kov y) (kov u)" using x(1) by (auto intro: cmp_trans)
    then have "\<forall>z\<in>set (merge_lists kov cmp mergefn (x # xs) ys). cmp (kov y) (kov z)"
      using y(1) by (rule below)
    with gt Cons.IH(2) Cons.prems show ?thesis by simp
  next
    case eq
    then have "kov (snd (mergefn x y)) = kov x" using assms(1) by (simp add: key_preserving_def)
    moreover have "\<forall>z\<in>set (merge_lists kov cmp mergefn xs ys). cmp (kov x) (kov z)"
      using below [OF x(1)] y(1) unfolding eq by blast
    ultimately show ?thesis using eq Cons.IH(3) [OF assms(1) x(2) y(2)] by (simp add: cmp_irrefl)
  qed
qed auto

lemma in_merge_lists:
  assumes "key_preserving kov mergefn"
    and "sorted_wrt (\<lambda>x y. cmp (kov x) (kov y)) xs" "sorted_wrt (\<lambda>x y. cmp (kov x) (kov y)) ys"
  shows "v \<in> set (merge_lists kov cmp mergefn xs ys) \<longleftrightarrow>
     (v \<in> set xs \<and> kov v \<notin> kov ` set ys) \<or> (v \<in> set ys \<and> kov v \<notin> kov ` set xs) \<or>
     (\<exists>x\<in>set xs. \<exists>y\<in>set ys. kov x = kov y \<and> mergefn x y = (True, v))"
  using assms
proof (induction xs ys rule: merge_induct)
  case (Cons x xs y ys)
  have x: "\<forall>z\<in>set xs. cmp (kov x) (kov z)" and y: "\<forall>z\<in>set ys. cmp (kov y) (kov z)"
    using Cons.prems by auto
  consider (lt) "cmp (kov x) (kov y)" | (gt) "\<not> cmp (kov x) (kov y)" "cmp (kov y) (kov x)"
    | (eq) "kov x = kov y" using cmp_total by blast
  then show ?case
  proof cases
    case lt
    with y have "kov x \<notin> kov ` set (y # ys)" by (auto dest: cmp_asym simp: cmp_irrefl)
    moreover have m: "v \<in> set (merge_lists kov cmp mergefn (x # xs) (y # ys)) \<longleftrightarrow>
        v = x \<or> v \<in> set (merge_lists kov cmp mergefn xs (y # ys))" using lt by simp
    have "sorted_wrt (\<lambda>x y. cmp (kov x) (kov y)) xs" using Cons.prems by simp
    note IH = Cons.IH(1) [OF assms(1) this Cons.prems(3)]
    ultimately show ?thesis unfolding m IH by (auto simp: image_iff)
  next
    case gt
    with x have "kov y \<notin> kov ` set (x # xs)" by (auto dest: cmp_asym simp: cmp_irrefl)
    moreover have m: "v \<in> set (merge_lists kov cmp mergefn (x # xs) (y # ys)) \<longleftrightarrow>
        v = y \<or> v \<in> set (merge_lists kov cmp mergefn (x # xs) ys)" using gt by simp
    have "sorted_wrt (\<lambda>x y. cmp (kov x) (kov y)) ys" using Cons.prems by simp
    note IH = Cons.IH(2) [OF assms(1) Cons.prems(2) this]
    ultimately show ?thesis unfolding m IH by (auto simp: image_iff)
  next
    case eq
    have k: "kov y \<notin> kov ` set xs" "kov x \<notin> kov ` set ys"
      using x y eq by (auto simp: cmp_irrefl image_iff)
    have m: "v \<in> set (merge_lists kov cmp mergefn (x # xs) (y # ys)) \<longleftrightarrow>
        mergefn x y = (True, v) \<or> v \<in> set (merge_lists kov cmp mergefn xs ys)"
      using eq by (cases "mergefn x y") (auto simp: cmp_irrefl)
    have "sorted_wrt (\<lambda>x y. cmp (kov x) (kov y)) xs" "sorted_wrt (\<lambda>x y. cmp (kov x) (kov y)) ys"
      using Cons.prems by auto
    note IH = Cons.IH(3) [OF assms(1) this]
    from k eq show ?thesis unfolding m IH by (auto simp: image_iff)
  qed
qed auto

lemma merge_loop_spec:
  assumes "search_tree kov cmp t" "search_tree kov cmp u" "key_preserving kov mergefn"
  shows "is_path t a \<Longrightarrow> is_path u b \<Longrightarrow> balanced result \<Longrightarrow>
     sorted_wrt (\<lambda>x y. cmp (kov x) (kov y)) (inorder result @ iter_rest a) \<Longrightarrow>
     sorted_wrt (\<lambda>x y. cmp (kov x) (kov y)) (inorder result @ iter_rest b) \<Longrightarrow>
     length (iter_rest a) + length (iter_rest b) \<le> fuel \<Longrightarrow>
     \<exists>r. merge_loop kov cmp mergefn fuel a b result = Some r \<and> balanced r \<and>
         inorder r = inorder result @ merge_lists kov cmp mergefn (iter_rest a) (iter_rest b)"
proof (induction fuel arbitrary: a b result)
  case 0
  then have "a = []" "b = []" by auto
  with 0 show ?case by simp
next
  case (Suc fuel)
  let ?asc = "sorted_wrt (\<lambda>x y. cmp (kov x) (kov y))"
  have da: "iter_deref a = (if a = [] then None else Some (hd (iter_rest a)))"
    and db: "iter_deref b = (if b = [] then None else Some (hd (iter_rest b)))"
    using Suc.prems by (auto simp: iter_deref_path)
  have ins: "inorder (tree_insert kov cmp v result) = inorder result @ [v]"
    if "?asc (inorder result @ v # vs)" for v vs
    using that by (intro insert_greatest) (auto simp: sorted_wrt_append)
  have bal: "balanced (tree_insert kov cmp v result)" for v
    using insert_balanced_aux [OF Suc.prems(3)] by blast
  have nexta: "\<exists>a'. iter_incr a = Some a' \<and> is_path t a' \<and> iter_rest a' = tl (iter_rest a)" if "a \<noteq> []"
    using iter_incr_rest [OF assms(1) Suc.prems(1) that] .
  have nextb: "\<exists>b'. iter_incr b = Some b' \<and> is_path u b' \<and> iter_rest b' = tl (iter_rest b)" if "b \<noteq> []"
    using iter_incr_rest [OF assms(2) Suc.prems(2) that] .
  consider (both) "a = []" "b = []" | (onlya) "a \<noteq> []" "b = []" | (onlyb) "a = []" "b \<noteq> []"
    | (some) "a \<noteq> []" "b \<noteq> []" by blast
  then show ?case
  proof cases
    case both
    with Suc.prems show ?thesis by simp
  next
    case onlya
    then obtain x xs a' where x: "iter_rest a = x # xs" and a': "iter_incr a = Some a'" "is_path t a'" "iter_rest a' = xs"
      using nexta by (cases "iter_rest a") auto
    have "\<exists>r. merge_loop kov cmp mergefn fuel a' b (tree_insert kov cmp x result) = Some r \<and> balanced r \<and>
        inorder r = inorder (tree_insert kov cmp x result) @ merge_lists kov cmp mergefn (iter_rest a') (iter_rest b)"
      using Suc.prems onlya x a' ins [of x xs] bal by (intro Suc.IH) (auto simp: sorted_wrt_append)
    with onlya x a' da db ins [of x xs] Suc.prems show ?thesis by (cases a) auto
  next
    case onlyb
    then obtain y ys b' where y: "iter_rest b = y # ys" and b': "iter_incr b = Some b'" "is_path u b'" "iter_rest b' = ys"
      using nextb by (cases "iter_rest b") auto
    have "\<exists>r. merge_loop kov cmp mergefn fuel a b' (tree_insert kov cmp y result) = Some r \<and> balanced r \<and>
        inorder r = inorder (tree_insert kov cmp y result) @ merge_lists kov cmp mergefn (iter_rest a) (iter_rest b')"
      using Suc.prems onlyb y b' ins [of y ys] bal by (intro Suc.IH) (auto simp: sorted_wrt_append)
    with onlyb y b' da db ins [of y ys] Suc.prems show ?thesis by (cases b) auto
  next
    case some
    then obtain x xs a' y ys b' where x: "iter_rest a = x # xs" and y: "iter_rest b = y # ys"
      and a': "iter_incr a = Some a'" "is_path t a'" "iter_rest a' = xs"
      and b': "iter_incr b = Some b'" "is_path u b'" "iter_rest b' = ys"
      using nexta nextb by (cases "iter_rest a"; cases "iter_rest b") auto
    have unfold: "merge_loop kov cmp mergefn (Suc fuel) a b result =
       (if cmp (kov x) (kov y) then merge_loop kov cmp mergefn fuel a' b (tree_insert kov cmp x result)
        else if cmp (kov y) (kov x) then merge_loop kov cmp mergefn fuel a b' (tree_insert kov cmp y result)
        else merge_loop kov cmp mergefn fuel a' b'
          (if fst (mergefn x y) then tree_insert kov cmp (snd (mergefn x y)) result else result))"
      using some x y a' b' da db by (cases a; cases b) (auto split: prod.split)
    have sorted: "?asc (inorder result @ x # xs)" "?asc (inorder result @ y # ys)"
      using Suc.prems x y by auto
    consider (lt) "cmp (kov x) (kov y)" | (gt) "\<not> cmp (kov x) (kov y)" "cmp (kov y) (kov x)"
      | (eq) "kov x = kov y" using cmp_total by blast
    then show ?thesis
    proof cases
      case lt
      have "?asc ((inorder result @ [x]) @ y # ys)"
        using sorted lt by (auto simp: sorted_wrt_append intro: cmp_trans)
      then have "\<exists>r. merge_loop kov cmp mergefn fuel a' b (tree_insert kov cmp x result) = Some r \<and> balanced r \<and>
        inorder r = inorder (tree_insert kov cmp x result) @ merge_lists kov cmp mergefn (iter_rest a') (iter_rest b)"
        using Suc.prems x y a' ins [OF sorted(1)] sorted bal by (intro Suc.IH) auto
      with lt unfold x y a' ins [OF sorted(1)] show ?thesis by auto
    next
      case gt
      have "?asc ((inorder result @ [y]) @ x # xs)"
        using sorted gt by (auto simp: sorted_wrt_append intro: cmp_trans)
      then have "\<exists>r. merge_loop kov cmp mergefn fuel a b' (tree_insert kov cmp y result) = Some r \<and> balanced r \<and>
        inorder r = inorder (tree_insert kov cmp y result) @ merge_lists kov cmp mergefn (iter_rest a) (iter_rest b')"
        using Suc.prems x y b' ins [OF sorted(2)] sorted bal by (intro Suc.IH) auto
      with gt unfold x y b' ins [OF sorted(2)] show ?thesis by auto
    next
      case eq
      let ?m = "snd (mergefn x y)"
      let ?res = "if fst (mergefn x y) then tree_insert kov cmp ?m result else result"
      have m: "kov ?m = kov x" using assms(3) eq by (simp add: key_preserving_def)
      have sm: "?asc (inorder result @ ?m # xs)" "?asc (inorder result @ ?m # ys)"
        using sorted m eq by (auto simp: sorted_wrt_append)
      have "\<exists>r. merge_loop kov cmp mergefn fuel a' b' ?res = Some r \<and> balanced r \<and>
        inorder r = inorder ?res @ merge_lists kov cmp mergefn (iter_rest a') (iter_rest b')"
        using Suc.prems x y a' b' ins [OF sm(1)] sm sorted bal by (intro Suc.IH) (auto simp: sorted_wrt_append)
      with eq unfold x y a' b' ins [OF sm(1)] show ?thesis by (auto simp: cmp_irrefl)
    qed
  qed
qed

lemma merge_with_spec:
  assumes "search_tree kov cmp t" "search_tree kov cmp u" "balanced t" "balanced u"
    and "key_preserving kov mergefn"
  shows "\<exists>r. merge_with kov cmp mergefn t u = Some r \<and> balanced r \<and> search_tree kov cmp r \<and>
           inorder r = merge_lists kov cmp mergefn (inorder t) (inorder u)"
proof (cases "t = Terminator \<or> u = Terminator")
  case True
  with assms show ?thesis by (auto simp: merge_with_def)
next
  case False
  have "\<exists>r. merge_loop kov cmp mergefn (tree_size t + tree_size u) (iter_begin t) (iter_begin u) Terminator = Some r \<and>
      balanced r \<and> inorder r = inorder Terminator @ merge_lists kov cmp mergefn (iter_rest (iter_begin t)) (iter_rest (iter_begin u))"
    using assms by (intro merge_loop_spec [where t = t and u = u]) (auto simp: search_tree_def)
  with False assms merge_lists_ascending [of mergefn "inorder t" "inorder u"] show ?thesis
    by (auto simp: merge_with_def search_tree_def)
qed

lemma lookup_merge_with:
  assumes "search_tree kov cmp t" "search_tree kov cmp u" "balanced t" "balanced u"
    and "key_preserving kov mergefn" and "merge_with kov cmp mergefn t u = Some r"
  shows "tree_lookup kov cmp k r =
    (case (tree_lookup kov cmp k t, tree_lookup kov cmp k u) of
       (None, b) \<Rightarrow> b
     | (Some x, None) \<Rightarrow> Some x
     | (Some x, Some y) \<Rightarrow> if fst (mergefn x y) then Some (snd (mergefn x y)) else None)"
proof -
  have r: "search_tree kov cmp r" "inorder r = merge_lists kov cmp mergefn (inorder t) (inorder u)"
    using merge_with_spec [OF assms(1-5)] assms(6) by auto
  have mem: "v \<in> set (inorder r) \<longleftrightarrow>
     (v \<in> set (inorder t) \<and> kov v \<notin> kov ` set (inorder u)) \<or>
     (v \<in> set (inorder u) \<and> kov v \<notin> kov ` set (inorder t)) \<or>
     (\<exists>x\<in>set (inorder t). \<exists>y\<in>set (inorder u). kov x = kov y \<and> mergefn x y = (True, v))" for v
    using in_merge_lists [OF assms(5), of "inorder t" "inorder u" v] assms(1,2) r(2)
    by (simp add: search_tree_def)
  have lt: "tree_lookup kov cmp k t = Some x \<longleftrightarrow> x \<in> set (inorder t) \<and> kov x = k" for x
    using assms(1) by (rule lookup_Some_iff)
  have lu: "tree_lookup kov cmp k u = Some x \<longleftrightarrow> x \<in> set (inorder u) \<and> kov x = k" for x
    using assms(2) by (rule lookup_Some_iff)
  have key: "kov v = kov x" if "kov x = kov y" "mergefn x y = (True, v)" for x y v
    using assms(5) that unfolding key_preserving_def by (metis snd_conv)
  show ?thesis
  proof (rule option_eqI)
    fix v
    show "tree_lookup kov cmp k r = Some v \<longleftrightarrow>
      (case (tree_lookup kov cmp k t, tree_lookup kov cmp k u) of
         (None, b) \<Rightarrow> b
       | (Some x, None) \<Rightarrow> Some x
       | (Some x, Some y) \<Rightarrow> if fst (mergefn x y) then Some (snd (mergefn x y)) else None) = Some v"
    proof (cases "tree_lookup kov cmp k t"; cases "tree_lookup kov cmp k u")
      assume "tree_lookup kov cmp k t = None" "tree_lookup kov cmp k u = None"
      then have "k \<notin> kov ` set (inorder t)" "k \<notin> kov ` set (inorder u)"
        using assms(1,2) by (simp_all add: lookup_None_iff)
      then have "\<not> (v \<in> set (inorder r) \<and> kov v = k)" unfolding mem by (auto dest: key)
      with \<open>tree_lookup kov cmp k t = None\<close> \<open>tree_lookup kov cmp k u = None\<close> show ?thesis
        by (simp add: lookup_Some_iff [OF r(1)])
    next
      fix y assume *: "tree_lookup kov cmp k t = None" "tree_lookup kov cmp k u = Some y"
      then have "k \<notin> kov ` set (inorder t)" "y \<in> set (inorder u)" "kov y = k"
        using assms(1) by (simp_all add: lookup_None_iff lu)
      moreover have "v \<in> set (inorder u) \<and> kov v = k \<longleftrightarrow> v = y" using lu [of v] * by auto
      moreover have "kov v \<noteq> k" if "a \<in> set (inorder t)" "kov a = kov b" "mergefn a b = (True, v)" for a b
        using key [OF that(2,3)] that(1) calculation(1) by auto
      ultimately have "v \<in> set (inorder r) \<and> kov v = k \<longleftrightarrow> v = y" unfolding mem by blast
      with * show ?thesis by (auto simp: lookup_Some_iff [OF r(1)])
    next
      fix x assume *: "tree_lookup kov cmp k t = Some x" "tree_lookup kov cmp k u = None"
      then have "k \<notin> kov ` set (inorder u)" "x \<in> set (inorder t)" "kov x = k"
        using assms(2) by (simp_all add: lookup_None_iff lt)
      moreover have "v \<in> set (inorder t) \<and> kov v = k \<longleftrightarrow> v = x" using lt [of v] * by auto
      moreover have "kov v \<noteq> k" if "b \<in> set (inorder u)" "kov a = kov b" "mergefn a b = (True, v)" for a b
        using key [OF that(2,3)] that(1,2) calculation(1) by auto
      ultimately have "v \<in> set (inorder r) \<and> kov v = k \<longleftrightarrow> v = x" unfolding mem by blast
      with * show ?thesis by (auto simp: lookup_Some_iff [OF r(1)])
    next
      fix x y assume *: "tree_lookup kov cmp k t = Some x" "tree_lookup kov cmp k u = Some y"
      then have xy: "x \<in> set (inorder t)" "y \<in> set (inorder u)" "kov x = k" "kov y = k" by (auto simp: lt lu)
      have x': "x' \<in> set (inorder t) \<and> kov x' = k \<longleftrightarrow> x' = x" for x' using lt [of x'] * by auto
      have y': "y' \<in> set (inorder u) \<and> kov y' = k \<longleftrightarrow> y' = y" for y' using lu [of y'] * by auto
      have "v \<in> set (inorder r) \<and> kov v = k \<longleftrightarrow> mergefn x y = (True, v)" (is "?l \<longleftrightarrow> ?r")
      proof
        assume ?l
        then obtain a b where "a \<in> set (inorder t)" "b \<in> set (inorder u)" "kov a = kov b"
            "mergefn a b = (True, v)" "kov v = k"
          using xy unfolding mem by (auto simp: image_iff)
        with x' [of a] y' [of b] key [of a b v] show ?r by simp
      next
        assume ?r
        with xy key [of x y v] show ?l unfolding mem by auto
      qed
      with * show ?thesis by (auto simp: lookup_Some_iff [OF r(1)] prod_eq_iff)
    qed
  qed
qed

end

end
