(* ===== verification/Immutable_Map.thy ===== *)
theory Immutable_Map
  imports Tree_Merge
begin

text \<open>
  \<^verbatim>\<open>ImmutableMap\<close> and \<^verbatim>\<open>ImmutableSet\<close>: the two instances of the
  persistent tree, a map ordered by the first component of its pairs and a set ordered by its
  elements (\<^verbatim>\<open>include/klee/Internal/ADT/ImmutableMap.h\<close>,
  \<^verbatim>\<open>ImmutableSet.h\<close>). The locale \<^verbatim>\<open>key_order\<close> is interpreted for both,
  and each operation is shown to implement the operation on partial functions or sets.
\<close>

subsection \<open>Maps\<close>

type_synonym ('k, 'd) imap = "('k \<times> 'd) tree"

definition map_empty :: "('k, 'd) imap" where
  "map_empty = Terminator"

definition map_isEmpty :: "('k, 'd) imap \<Rightarrow> bool" where
  "map_isEmpty m = isTerminator m"

definition map_count :: "'k::linorder \<Rightarrow> ('k, 'd) imap \<Rightarrow> nat" where
  "map_count k m = tree_count fst (<) k m"

definition map_lookup :: "'k::linorder \<Rightarrow> ('k, 'd) imap \<Rightarrow> ('k \<times> 'd) option" where
  "map_lookup k m = tree_lookup fst (<) k m"

definition map_lookup_previous :: "'k::linorder \<Rightarrow> ('k, 'd) imap \<Rightarrow> ('k \<times> 'd) option" where
  "map_lookup_previous k m = lookup_previous fst (<) k m"

definition map_insert :: "'k::linorder \<times> 'd \<Rightarrow> ('k, 'd) imap \<Rightarrow> ('k, 'd) imap" where
  "map_insert value m = tree_insert fst (<) value m"

definition map_replace :: "'k::linorder \<times> 'd \<Rightarrow> ('k, 'd) imap \<Rightarrow> ('k, 'd) imap" where
  "map_replace value m = tree_replace fst (<) value m"

definition map_remove :: "'k::linorder \<Rightarrow> ('k, 'd) imap \<Rightarrow> ('k, 'd) imap" where
  "map_remove k m = tree_remove fst (<) k m"

definition map_merge_with ::
  "('k::linorder \<times> 'd \<Rightarrow> 'k \<times> 'd \<Rightarrow> bool \<times> ('k \<times> 'd)) \<Rightarrow>
     ('k, 'd) imap \<Rightarrow> ('k, 'd) imap \<Rightarrow> ('k, 'd) imap option" where
  "map_merge_with mergefn m other = merge_with fst (<) mergefn m other"

definition map_find :: "'k::linorder \<Rightarrow> ('k, 'd) imap \<Rightarrow> ('k \<times> 'd) titer option" where
  "map_find k m = tree_find fst (<) k m"

definition map_lower_bound :: "'k::linorder \<Rightarrow> ('k, 'd) imap \<Rightarrow> ('k \<times> 'd) titer option" where
  "map_lower_bound k m = lower_bound fst (<) k m"

definition map_upper_bound :: "'k::linorder \<Rightarrow> ('k, 'd) imap \<Rightarrow> ('k \<times> 'd) titer option" where
  "map_upper_bound k m = upper_bound fst (<) k m"

subsection \<open>Sets\<close>

type_synonym 'a iset = "'a tree"

definition AlwaysMerge :: "'a \<Rightarrow> 'a \<Rightarrow> bool \<times> 'a" where
  "AlwaysMerge a b = (True, a)"

definition set_count :: "'a::linorder \<Rightarrow> 'a iset \<Rightarrow> nat" where
  "set_count x s = tree_count id (<) x s"

definition set_insert :: "'a::linorder \<Rightarrow> 'a iset \<Rightarrow> 'a iset" where
  "set_insert x s = tree_insert id (<) x s"

definition set_remove :: "'a::linorder \<Rightarrow> 'a iset \<Rightarrow> 'a iset" where
  "set_remove x s = tree_remove id (<) x s"

definition set_union_with :: "'a::linorder iset \<Rightarrow> 'a iset \<Rightarrow> 'a iset option" where
  "set_union_with s other = merge_with id (<) AlwaysMerge s other"

subsection \<open>The invariant and the abstraction\<close>

definition map_invar :: "('k::linorder, 'd) imap \<Rightarrow> bool" where
  "map_invar m \<longleftrightarrow> search_tree fst (<) m \<and> balanced m"

definition map_abs :: "('k::linorder, 'd) imap \<Rightarrow> 'k \<rightharpoonup> 'd" where
  "map_abs m k = map_option snd (map_lookup k m)"

definition set_invar :: "'a::linorder iset \<Rightarrow> bool" where
  "set_invar s \<longleftrightarrow> search_tree id (<) s \<and> balanced s"

definition set_abs :: "'a iset \<Rightarrow> 'a set" where
  "set_abs s = set (inorder s)"

interpretation imap: key_order fst "(<) :: 'k::linorder \<Rightarrow> 'k \<Rightarrow> bool"
  by unfold_locales auto

interpretation iset: key_order id "(<) :: 'k::linorder \<Rightarrow> 'k \<Rightarrow> bool"
  by unfold_locales auto

lemma map_lookup_key: "map_lookup k m = Some (k', d) \<Longrightarrow> k' = k"
  unfolding map_lookup_def by (induction m) (auto split: if_splits)

lemma map_lookup_abs: "map_lookup k m = map_option (Pair k) (map_abs m k)"
  unfolding map_abs_def by (cases "map_lookup k m") (auto dest: map_lookup_key)

lemma map_abs_empty [simp]: "map_abs map_empty = Map.empty"
  by (simp add: map_abs_def map_lookup_def map_empty_def fun_eq_iff)

lemma map_invar_empty [simp]: "map_invar map_empty"
  by (simp add: map_invar_def map_empty_def)

lemma map_invar_insert [simp]: "map_invar m \<Longrightarrow> map_invar (map_insert v m)"
  using insert_balanced_aux [of m fst "(<)" v]
  by (simp add: map_invar_def map_insert_def imap.search_tree_insert)

lemma map_invar_replace [simp]: "map_invar m \<Longrightarrow> map_invar (map_replace v m)"
  using replace_balanced_aux [of m fst "(<)" v]
  by (simp add: map_invar_def map_replace_def imap.search_tree_replace)

lemma map_invar_remove [simp]: "map_invar m \<Longrightarrow> map_invar (map_remove k m)"
  using remove_balanced_aux [of m fst "(<)" k]
  by (simp add: map_invar_def map_remove_def imap.search_tree_remove)

lemma map_abs_insert [simp]:
  "map_invar m \<Longrightarrow> map_abs (map_insert (k, d) m) = (if map_abs m k = None then (map_abs m)(k \<mapsto> d) else map_abs m)"
  by (auto simp: map_abs_def map_invar_def map_insert_def map_lookup_def imap.lookup_insert fun_eq_iff)

lemma map_abs_replace [simp]: "map_invar m \<Longrightarrow> map_abs (map_replace (k, d) m) = (map_abs m)(k \<mapsto> d)"
  by (auto simp: map_abs_def map_invar_def map_replace_def map_lookup_def imap.lookup_replace fun_eq_iff)

lemma map_abs_remove [simp]: "map_invar m \<Longrightarrow> map_abs (map_remove k m) = (map_abs m)(k := None)"
  by (auto simp: map_abs_def map_invar_def map_remove_def map_lookup_def imap.lookup_remove fun_eq_iff)

lemma map_elements_abs:
  "map_invar m \<Longrightarrow> (k, d) \<in> set (inorder m) \<longleftrightarrow> map_abs m k = Some d"
  using imap.lookup_Some_iff [of m k "(k, d)"]
  by (auto simp: map_invar_def map_abs_def map_lookup_def [symmetric] dest: map_lookup_key)

lemma map_abs_inj:
  assumes "map_invar m" "map_invar m'"
  shows "inorder m = inorder m' \<longleftrightarrow> map_abs m = map_abs m'"
proof
  assume *: "inorder m = inorder m'"
  show "map_abs m = map_abs m'"
  proof
    fix k
    show "map_abs m k = map_abs m' k"
      using map_elements_abs [OF assms(1)] map_elements_abs [OF assms(2)] * by (intro option_eqI) metis
  qed
next
  assume *: "map_abs m = map_abs m'"
  have "set (inorder m) = set (inorder m')"
    using map_elements_abs [OF assms(1)] map_elements_abs [OF assms(2)] * by (auto simp: set_eq_iff)
  moreover have "sorted_wrt (\<lambda>x y. fst x < fst y) (inorder m)" "sorted_wrt (\<lambda>x y. fst x < fst y) (inorder m')"
    using assms by (simp_all add: map_invar_def search_tree_def)
  ultimately show "inorder m = inorder m'" by (rule sorted_wrt_fst_unique [rotated 2])
qed

subsection \<open>Correctness\<close>

text \<open>C15. The three updates of \<^verbatim>\<open>ImmutableMap\<close> keep the tree ordered and
  height-balanced, and act on the map it stands for as on a partial function:
  \<^verbatim>\<open>insert\<close> adds a binding only for a new key, \<^verbatim>\<open>replace\<close> always
  overwrites, \<^verbatim>\<open>remove\<close> deletes; \<^verbatim>\<open>lookup\<close> and
  \<^verbatim>\<open>count\<close> read the partial function.\<close>

theorem map_updates_refine:
  assumes "map_invar m"
  shows "map_invar (map_insert (k, d) m) \<and>
         map_abs (map_insert (k, d) m) = (if k \<in> dom (map_abs m) then map_abs m else (map_abs m)(k \<mapsto> d)) \<and>
         map_invar (map_replace (k, d) m) \<and> map_abs (map_replace (k, d) m) = (map_abs m)(k \<mapsto> d) \<and>
         map_invar (map_remove k m) \<and> map_abs (map_remove k m) = (map_abs m)(k := None) \<and>
         map_lookup k m = map_option (Pair k) (map_abs m k) \<and>
         map_count k m = (if k \<in> dom (map_abs m) then 1 else 0)"
  using assms
  by (auto simp: map_lookup_abs map_count_def imap.count_lookup map_lookup_def [symmetric] dom_def)

theorem map_updates_refine_witness:
  "map_invar (map_insert (3::nat, ''c'') (map_insert (1, ''a'') map_empty)) \<and>
   map_abs (map_remove 1 (map_insert (1::nat, ''a'') map_empty)) = (map_abs (map_insert (1, ''a'') map_empty))(1 := None)"
  using map_updates_refine [of "map_insert (1::nat, ''a'') map_empty" 3 "''c''"]
    map_updates_refine [of "map_insert (1::nat, ''a'') map_empty" 1 "''c''"]
  by simp

text \<open>C20. \<^verbatim>\<open>merge_with\<close> of two maps succeeds whenever the merge function keeps the
  key, and the result binds a key as the one map that has it, or, when both have it, to the
  merged value if the function says to keep it.\<close>

theorem map_merge_with_refines:
  assumes "map_invar m" "map_invar m'" "key_preserving fst mergefn"
  shows "\<exists>r. map_merge_with mergefn m m' = Some r \<and> map_invar r \<and>
    (\<forall>k. map_abs r k =
       (case (map_abs m k, map_abs m' k) of
          (None, b) \<Rightarrow> b
        | (Some a, None) \<Rightarrow> Some a
        | (Some a, Some b) \<Rightarrow>
            if fst (mergefn (k, a) (k, b)) then Some (snd (snd (mergefn (k, a) (k, b)))) else None))"
proof -
  obtain r where r: "merge_with fst (<) mergefn m m' = Some r" "balanced r" "search_tree fst (<) r"
    using imap.merge_with_spec [of m m' mergefn] assms by (auto simp: map_invar_def)
  have "map_abs r k = (case (map_abs m k, map_abs m' k) of
          (None, b) \<Rightarrow> b
        | (Some a, None) \<Rightarrow> Some a
        | (Some a, Some b) \<Rightarrow>
            if fst (mergefn (k, a) (k, b)) then Some (snd (snd (mergefn (k, a) (k, b)))) else None)" for k
    using imap.lookup_merge_with [of m m' mergefn r k] assms r(1)
    by (auto simp: map_invar_def map_abs_def map_lookup_def [symmetric] split: option.splits dest!: map_lookup_key intro: prod.collapse [symmetric])
  with r show ?thesis by (auto simp: map_merge_with_def map_invar_def)
qed

theorem map_merge_with_refines_witness:
  "\<exists>r. map_merge_with (\<lambda>a b. (True, (fst a, snd a + snd b)))
       (map_insert (1::nat, 10::nat) map_empty) (map_insert (1, 5) map_empty) = Some r \<and> map_abs r 1 = Some 15"
  using map_merge_with_refines [of "map_insert (1::nat, 10::nat) map_empty" "map_insert (1, 5) map_empty"
      "\<lambda>a b. (True, (fst a, snd a + snd b))"]
  by (auto simp: key_preserving_def)

text \<open>C23. Iteration over a map delivers its bindings exactly once, in ascending order of the
  keys; \<^verbatim>\<open>lower_bound\<close> and \<^verbatim>\<open>upper_bound\<close> are positioned at the first
  binding whose key is not smaller, respectively greater, and \<^verbatim>\<open>find\<close> at the binding
  of the key or at the end. Every loop stops within the number of elements.\<close>

theorem map_iteration:
  assumes "map_invar m"
  shows "\<exists>xs. tree_elements m = Some xs \<and> sorted (map fst xs) \<and> distinct (map fst xs) \<and>
     map_of xs = map_abs m \<and>
     (\<exists>lo hi it. map_lower_bound k m = Some lo \<and> iter_collect (tree_size m) lo = Some (filter (\<lambda>x. k \<le> fst x) xs) \<and>
        map_upper_bound k m = Some hi \<and> iter_collect (tree_size m) hi = Some (filter (\<lambda>x. k < fst x) xs) \<and>
        map_find k m = Some it \<and> iter_deref it = map_option (Pair k) (map_abs m k))"
proof -
  have s: "search_tree fst (<) m" using assms by (simp add: map_invar_def)
  let ?xs = "inorder m"
  have d: "distinct (map fst ?xs)" using imap.search_tree_distinct [OF s] .
  have srt: "sorted_wrt (\<lambda>x y. fst x < fst y) ?xs" using s by (simp add: search_tree_def)
  obtain lo where lo: "lower_bound fst (<) k m = Some lo" "is_path m lo"
    "iter_rest lo = dropWhile (\<lambda>v. fst v < k) ?xs" using imap.lower_bound_rest [OF s] by blast
  obtain hi where hi: "upper_bound fst (<) k m = Some hi" "is_path m hi"
    "iter_rest hi = dropWhile (\<lambda>v. \<not> k < fst v) ?xs" using imap.upper_bound_rest [OF s] by blast
  have "iter_collect (tree_size m) lo = Some (filter (\<lambda>x. k \<le> fst x) ?xs)"
    using imap.iter_collect_rest [OF s lo(2), of "tree_size m"] lo(3) length_dropWhile_le [of "\<lambda>v. fst v < k" ?xs]
      dropWhile_sorted_fst [OF srt, of "\<lambda>x. x < k"] by (auto simp: not_less)
  moreover have "iter_collect (tree_size m) hi = Some (filter (\<lambda>x. k < fst x) ?xs)"
    using imap.iter_collect_rest [OF s hi(2), of "tree_size m"] hi(3) length_dropWhile_le [of "\<lambda>v. \<not> k < fst v" ?xs]
      dropWhile_sorted_fst [OF srt, of "\<lambda>x. \<not> k < x"] by auto
  moreover have "\<exists>it. map_find k m = Some it \<and> iter_deref it = map_option (Pair k) (map_abs m k)"
    using imap.tree_find_rest [OF s] map_lookup_abs [of k m] by (metis map_find_def map_lookup_def)
  moreover have "map_of ?xs = map_abs m"
    using map_elements_abs [OF assms] d by (intro ext option_eqI) simp
  moreover have "sorted (map fst ?xs)"
    using srt by (simp add: sorted_wrt_map strict_sorted_imp_sorted_fst)
  ultimately show ?thesis using imap.tree_elements_inorder [OF s] d lo(1) hi(1)
    by (auto simp: map_lower_bound_def map_upper_bound_def)
qed

theorem map_iteration_witness:
  "\<exists>xs. tree_elements (map_insert (1::nat, ''a'') map_empty) = Some xs \<and> sorted (map fst xs)"
  using map_iteration [of "map_insert (1::nat, ''a'') map_empty" 1] by auto

text \<open>C22. \<^verbatim>\<open>operator==\<close> on maps stops and decides whether the two maps are the same
  partial function, however differently the two trees are shaped.\<close>

theorem map_equal_decides:
  assumes "map_invar m" "map_invar m'"
  shows "tree_equal m m' = Some (map_abs m = map_abs m')"
  using imap.tree_equal_iff [of m m'] assms map_abs_inj [OF assms] by (simp add: map_invar_def)

theorem map_equal_decides_witness:
  "tree_equal (map_insert (1::nat, ''a'') (map_insert (2, ''b'') map_empty))
      (map_insert (2, ''b'') (map_insert (1, ''a'') map_empty)) = Some True"
  using map_equal_decides [of "map_insert (1::nat, ''a'') (map_insert (2, ''b'') map_empty)"
      "map_insert (2, ''b'') (map_insert (1, ''a'') map_empty)"]
  by (auto simp: fun_eq_iff)

text \<open>The iterators a client can hold: made by one of the functions of the tree and then
  advanced.\<close>

inductive reachable_iter :: "('k::linorder, 'd) imap \<Rightarrow> ('k \<times> 'd) titer \<Rightarrow> bool" for m where
  ri_begin: "reachable_iter m (iter_begin m)"
| ri_end: "reachable_iter m (iter_end m)"
| ri_lower_bound: "map_lower_bound k m = Some it \<Longrightarrow> reachable_iter m it"
| ri_upper_bound: "map_upper_bound k m = Some it \<Longrightarrow> reachable_iter m it"
| ri_find: "map_find k m = Some it \<Longrightarrow> reachable_iter m it"
| ri_incr: "reachable_iter m it \<Longrightarrow> iter_incr it = Some it' \<Longrightarrow> reachable_iter m it'"

lemma reachable_iter_path:
  assumes "search_tree fst (<) m" "reachable_iter m it"
  shows "is_path m it"
  using assms(2)
proof induction
  case (ri_incr it it')
  then show ?case using imap.iter_incr_rest [OF assms(1), of it] by (cases it) auto
next
  case (ri_lower_bound k it)
  then show ?case using imap.lower_bound_rest [OF assms(1), of k] by (auto simp: map_lower_bound_def)
next
  case (ri_upper_bound k it)
  then show ?case using imap.upper_bound_rest [OF assms(1), of k] by (auto simp: map_upper_bound_def)
next
  case (ri_find k it)
  then show ?case using imap.tree_find_rest [OF assms(1), of k] by (auto simp: map_find_def)
qed (simp_all add: iter_end_def)





subsection \<open>Sets\<close>

text \<open>C24. The operations of \<^verbatim>\<open>ImmutableSet\<close> are those of a finite set:
  \<^verbatim>\<open>insert\<close>, \<^verbatim>\<open>remove\<close> and \<^verbatim>\<open>union_with\<close> (which
  always succeeds) are insertion, deletion and union, \<^verbatim>\<open>count\<close> is membership, and all
  keep the tree ordered and balanced.\<close>

theorem set_ops_refine:
  assumes "set_invar s" "set_invar s'"
  shows "set_invar (set_insert x s) \<and> set_abs (set_insert x s) = insert x (set_abs s) \<and>
         set_invar (set_remove x s) \<and> set_abs (set_remove x s) = set_abs s - {x} \<and>
         (\<exists>r. set_union_with s s' = Some r \<and> set_invar r \<and> set_abs r = set_abs s \<union> set_abs s') \<and>
         set_count x s = (if x \<in> set_abs s then 1 else 0)"
proof -
  have s: "search_tree id (<) s" "balanced s" "search_tree id (<) s'" "balanced s'"
    using assms by (auto simp: set_invar_def)
  have keep: "key_preserving id AlwaysMerge" by (simp add: key_preserving_def AlwaysMerge_def)
  obtain r where r: "merge_with id (<) AlwaysMerge s s' = Some r" "balanced r" "search_tree id (<) r"
    "inorder r = merge_lists id (<) AlwaysMerge (inorder s) (inorder s')"
    using iset.merge_with_spec [OF s(1,3,2,4) keep] by blast
  have "set_abs r = set_abs s \<union> set_abs s'"
    using iset.in_merge_lists [OF keep, of "inorder s" "inorder s'"] s r(4)
    by (auto simp: set_abs_def search_tree_def AlwaysMerge_def)
  then have "\<exists>r. set_union_with s s' = Some r \<and> set_invar r \<and> set_abs r = set_abs s \<union> set_abs s'"
    using r by (auto simp: set_union_with_def set_invar_def)
  moreover have "set_count x s = (if x \<in> set_abs s then 1 else 0)"
    using iset.lookup_None_iff [OF s(1), of x] by (auto simp: set_count_def iset.count_lookup set_abs_def)
  moreover have "balanced (set_insert x s)" "balanced (set_remove x s)"
    using insert_balanced_aux [OF s(2), of id "(<)" x] remove_balanced_aux [OF s(2), of id "(<)" x]
    by (auto simp: set_insert_def set_remove_def)
  moreover have "set_abs (set_insert x s) = insert x (set_abs s)"
    using iset.set_inorder_insert [OF s(1), of x] by (auto simp: set_abs_def set_insert_def)
  moreover have "set_abs (set_remove x s) = set_abs s - {x}"
    using iset.set_inorder_remove [OF s(1), of x] by (auto simp: set_abs_def set_remove_def)
  ultimately show ?thesis
    using s by (simp add: set_invar_def set_insert_def set_remove_def
        iset.search_tree_insert iset.search_tree_remove)
qed

theorem set_ops_refine_witness:
  "\<exists>r. set_union_with (set_insert (1::nat) Terminator) Terminator = Some r \<and>
       set_abs r = set_abs (set_insert 1 Terminator) \<union> set_abs Terminator"
proof -
  have e: "set_invar (Terminator :: nat iset)" by (simp add: set_invar_def)
  then have "set_invar (set_insert (1::nat) Terminator)"
    by (simp add: set_invar_def set_insert_def search_tree_def newNode_def)
  then show ?thesis using set_ops_refine [OF _ e] by blast
qed

end
