(* ===== verification/Uclibc_Sort.thy ===== *)
theory Uclibc_Sort
  imports Prelude "HOL-Library.Multiset"
begin

text \<open>
  Sorting and searching of the bundled C library (\<^verbatim>\<open>uclibc/libc/stdlib/stdlib.c\<close>):
  \<^verbatim>\<open>qsort\<close>, a Shell sort that the constrained execution runtime uses to bring
  thread contexts into the order of the region table, and \<^verbatim>\<open>bsearch\<close>.
  An array of \<^verbatim>\<open>nel\<close> elements of \<^verbatim>\<open>width\<close> bytes is a list; the byte
  offsets of the source are multiples of the width and are written as element indices, and the
  byte-wise exchange loop is an exchange of two elements.
\<close>

subsection \<open>Shell sort\<close>

text \<open>The innermost loop: element \<^verbatim>\<open>j\<close> moves down in strides of the gap until it
  meets an element that is not greater. The loop is entered with \<^verbatim>\<open>j\<close> at least the
  gap, and that is also the condition of its \<^verbatim>\<open>while\<close>.\<close>

function qsort_sift :: "('a \<Rightarrow> 'a \<Rightarrow> int) \<Rightarrow> nat \<Rightarrow> nat \<Rightarrow> 'a list \<Rightarrow> 'a list" where
  "qsort_sift cmp gap j xs =
     (if gap = 0 \<or> j < gap then xs
      else let a = j - gap in
        if cmp (xs ! a) (xs ! j) \<le> 0 then xs
        else qsort_sift cmp gap a (xs[a := xs ! j, j := xs ! a]))"
  by pat_completeness auto
termination by (relation "measure (\<lambda>(_, _, j, _). j)") auto

text \<open>One pass: \<^verbatim>\<open>do { ... i += width; } while (i < nel)\<close>.\<close>

function qsort_pass :: "('a \<Rightarrow> 'a \<Rightarrow> int) \<Rightarrow> nat \<Rightarrow> nat \<Rightarrow> nat \<Rightarrow> 'a list \<Rightarrow> 'a list" where
  "qsort_pass cmp gap nel i xs =
     (let xs = qsort_sift cmp gap i xs in
      if i + 1 < nel then qsort_pass cmp gap nel (i + 1) xs else xs)"
  by pat_completeness auto
termination by (relation "measure (\<lambda>(_, _, nel, i, _). nel - i)") auto

text \<open>The largest gap: \<^verbatim>\<open>do { wgap = 3 * wgap + 1; } while (wgap < (nel-1)/3)\<close>.\<close>

function qsort_gap :: "nat \<Rightarrow> nat \<Rightarrow> nat" where
  "qsort_gap nel wgap =
     (let wgap' = 3 * wgap + 1 in
      if wgap' < (nel - 1) div 3 then qsort_gap nel wgap' else wgap')"
  by pat_completeness auto
termination by (relation "measure (\<lambda>(nel, wgap). nel - wgap)") auto

text \<open>The outer loop over the gaps: \<^verbatim>\<open>do { ... wgap = (wgap - width)/3; } while (wgap)\<close>.\<close>

function qsort_gaps :: "('a \<Rightarrow> 'a \<Rightarrow> int) \<Rightarrow> nat \<Rightarrow> 'a list \<Rightarrow> 'a list" where
  "qsort_gaps cmp gap xs =
     (let xs = qsort_pass cmp gap (length xs) gap xs; gap' = (gap - 1) div 3 in
      if gap' = 0 then xs else qsort_gaps cmp gap' xs)"
  by pat_completeness auto
termination by (relation "measure (\<lambda>(_, gap, _). gap)") (auto simp: div_less_iff_less_mult)

definition qsort_r :: "('a \<Rightarrow> 'a \<Rightarrow> int) \<Rightarrow> nat \<Rightarrow> 'a list \<Rightarrow> 'a list option" where
  "qsort_r cmp width xs =
     (if 1 < length xs \<and> 0 < width then do {
        assert_opt (length xs \<le> (2 ^ 64 - 1) div width);
        Some (qsort_gaps cmp (qsort_gap (length xs) 0) xs)
      }
      else Some xs)"

subsection \<open>Binary search\<close>

function bsearch_loop :: "('a \<Rightarrow> int) \<Rightarrow> nat \<Rightarrow> nat \<Rightarrow> 'a list \<Rightarrow> nat option" where
  "bsearch_loop compar low high xs =
     (if low < high then
        let mid = low + (high - low) div 2; r = compar (xs ! mid) in
        if r > 0 then bsearch_loop compar (mid + 1) high xs
        else if r < 0 then bsearch_loop compar low mid xs
        else Some mid
      else None)"
  by pat_completeness auto
termination by (relation "measure (\<lambda>(_, low, high, _). high - low)") auto

definition bsearch :: "('a \<Rightarrow> int) \<Rightarrow> nat \<Rightarrow> 'a list \<Rightarrow> nat option" where
  "bsearch compar sz xs = (if sz > 0 then bsearch_loop compar 0 (length xs) xs else None)"

declare qsort_sift.simps [simp del] qsort_pass.simps [simp del] qsort_gap.simps [simp del]
  qsort_gaps.simps [simp del] bsearch_loop.simps [simp del]

subsection \<open>The sort permutes\<close>

text \<open>What \<^verbatim>\<open>qsort\<close> asks of the comparison function: its sign is a total preorder.\<close>

definition total_preorder :: "('a \<Rightarrow> 'a \<Rightarrow> int) \<Rightarrow> bool" where
  "total_preorder cmp \<longleftrightarrow>
     (\<forall>a b. cmp a b \<le> 0 \<or> cmp b a \<le> 0) \<and> (\<forall>a b c. cmp a b \<le> 0 \<longrightarrow> cmp b c \<le> 0 \<longrightarrow> cmp a c \<le> 0)"

lemma length_qsort_sift [simp]: "length (qsort_sift cmp gap j xs) = length xs"
  by (induction cmp gap j xs rule: qsort_sift.induct) (subst qsort_sift.simps, auto simp: Let_def)

lemma mset_qsort_sift [simp]: "j < length xs \<Longrightarrow> mset (qsort_sift cmp gap j xs) = mset xs"
proof (induction cmp gap j xs rule: qsort_sift.induct)
  case (1 cmp gap j xs)
  then show ?case
    by (subst qsort_sift.simps) (auto simp: Let_def mset_swap)
qed

lemma length_qsort_pass [simp]: "length (qsort_pass cmp gap nel i xs) = length xs"
  by (induction cmp gap nel i xs rule: qsort_pass.induct) (subst qsort_pass.simps, auto simp: Let_def)

lemma mset_qsort_pass [simp]:
  "i < length xs \<Longrightarrow> nel = length xs \<Longrightarrow> mset (qsort_pass cmp gap nel i xs) = mset xs"
proof (induction cmp gap nel i xs rule: qsort_pass.induct)
  case (1 cmp gap nel i xs)
  then show ?case by (subst qsort_pass.simps) (auto simp: Let_def)
qed

lemma mset_qsort_gaps: "gap < length xs \<Longrightarrow> mset (qsort_gaps cmp gap xs) = mset xs"
proof (induction cmp gap xs rule: qsort_gaps.induct)
  case (1 cmp gap xs)
  have "(gap - 1) div 3 < length xs" using 1(2) by (metis div_le_dividend diff_le_self le_trans leD not_le)
  with 1 show ?case by (subst qsort_gaps.simps) (simp add: Let_def)
qed

text \<open>The comment in the source that the first gap is less than the number of elements.\<close>

lemma qsort_gap_less: "1 < nel \<Longrightarrow> wgap = 0 \<or> wgap < (nel - 1) div 3 \<Longrightarrow> qsort_gap nel wgap < nel"
proof (induction nel wgap rule: qsort_gap.induct)
  case (1 nel wgap)
  then show ?case by (subst qsort_gap.simps) (auto simp: Let_def)
qed

subsection \<open>The sort sorts\<close>

definition le_upto :: "('a \<Rightarrow> 'a \<Rightarrow> int) \<Rightarrow> nat \<Rightarrow> 'a list \<Rightarrow> bool" where
  "le_upto cmp n xs \<longleftrightarrow> (\<forall>q < n. \<forall>p < q. cmp (xs ! p) (xs ! q) \<le> 0)"

text \<open>While element \<^verbatim>\<open>j\<close> moves down, all the others are in order and those above it
  are not less.\<close>

lemma sift_one:
  assumes "total_preorder cmp" "j < n" "n \<le> length xs"
    and "\<And>p q. p < q \<Longrightarrow> q < n \<Longrightarrow> p \<noteq> j \<Longrightarrow> q \<noteq> j \<Longrightarrow> cmp (xs ! p) (xs ! q) \<le> 0"
    and "\<And>q. j < q \<Longrightarrow> q < n \<Longrightarrow> cmp (xs ! j) (xs ! q) \<le> 0"
  shows "le_upto cmp n (qsort_sift cmp 1 j xs)"
  using assms(2-)
proof (induction j arbitrary: xs)
  case 0
  then show ?case by (subst qsort_sift.simps) (auto simp: le_upto_def)
next
  case (Suc j)
  have tot: "cmp a b \<le> 0 \<or> cmp b a \<le> 0" and trans: "cmp a b \<le> 0 \<Longrightarrow> cmp b c \<le> 0 \<Longrightarrow> cmp a c \<le> 0" for a b c
    using assms(1) unfolding total_preorder_def by blast+
  show ?case
  proof (cases "cmp (xs ! j) (xs ! Suc j) \<le> 0")
    case True
    have "cmp (xs ! p) (xs ! q) \<le> 0" if "p < q" "q < n" for p q
    proof (cases "q = Suc j")
      case q: True
      show ?thesis
      proof (cases "p = j")
        case False
        then have "cmp (xs ! p) (xs ! j) \<le> 0" using that q Suc.prems by (intro Suc.prems(3)) auto
        with q True show ?thesis by (blast intro: trans)
      qed (use q True in simp)
    next
      case False
      then show ?thesis using that Suc.prems by (cases "p = Suc j") auto
    qed
    then show ?thesis using True by (subst qsort_sift.simps) (auto simp: le_upto_def)
  next
    case False
    let ?ys = "xs[j := xs ! Suc j, Suc j := xs ! j]"
    have y: "?ys ! j = xs ! Suc j" "?ys ! Suc j = xs ! j" "\<And>p. p \<noteq> j \<Longrightarrow> p \<noteq> Suc j \<Longrightarrow> ?ys ! p = xs ! p"
      using Suc.prems by auto
    have "cmp (xs ! Suc j) (xs ! j) \<le> 0" using False tot by blast
    then have above: "cmp (?ys ! j) (?ys ! q) \<le> 0" if "j < q" "q < n" for q
      using that y Suc.prems(4) [of q] by (cases "q = Suc j") auto
    have others: "cmp (?ys ! p) (?ys ! q) \<le> 0" if "p < q" "q < n" "p \<noteq> j" "q \<noteq> j" for p q
    proof (cases "p = Suc j")
      case True
      then have "cmp (xs ! j) (xs ! q) \<le> 0" using that Suc.prems by (intro Suc.prems(3)) auto
      then show ?thesis using True that y by auto
    next
      case p: False
      show ?thesis
      proof (cases "q = Suc j")
        case True
        then have "cmp (xs ! p) (xs ! j) \<le> 0" using that p Suc.prems by (intro Suc.prems(3)) auto
        then show ?thesis using True that p y by auto
      qed (use that p y Suc.prems(3) [of p q] in auto)
    qed
    have "le_upto cmp n (qsort_sift cmp 1 j ?ys)"
      using Suc.prems(1,2) others above by (intro Suc.IH) auto
    then show ?thesis using False by (subst qsort_sift.simps) (simp add: Let_def)
  qed
qed

lemma pass_one:
  assumes "total_preorder cmp"
  shows "0 < i \<Longrightarrow> i < length xs \<Longrightarrow> nel = length xs \<Longrightarrow> le_upto cmp i xs \<Longrightarrow>
    le_upto cmp (length xs) (qsort_pass cmp 1 nel i xs)"
proof (induction "nel - i" arbitrary: i xs)
  case (Suc k)
  have "le_upto cmp (Suc i) (qsort_sift cmp 1 i xs)"
    using Suc.prems by (intro sift_one [OF assms]) (auto simp: le_upto_def)
  moreover from this have "le_upto cmp (length xs) (qsort_sift cmp 1 i xs)" if "\<not> Suc i < length xs"
    using that Suc.prems by (metis Suc_lessI)
  moreover have "k = nel - Suc i" using Suc.hyps(2) by simp
  ultimately show ?case
    using Suc.hyps(1) [of "Suc i" "qsort_sift cmp 1 i xs"] Suc.prems
    by (subst qsort_pass.simps) (auto simp: Let_def)
qed simp

text \<open>The gaps are 0, 1, 4, 13, ..., so the last pass has gap 1 and is an insertion sort.\<close>

inductive stride :: "nat \<Rightarrow> bool" where
  stride0: "stride 0"
| strideS: "stride g \<Longrightarrow> stride (3 * g + 1)"

inductive_cases strideE: "stride g"

lemma qsort_gap_stride: "stride wgap \<Longrightarrow> stride (qsort_gap nel wgap) \<and> 0 < qsort_gap nel wgap"
proof (induction nel wgap rule: qsort_gap.induct)
  case (1 nel wgap)
  then show ?case using strideS [of wgap] by (subst (1 2) qsort_gap.simps) (simp add: Let_def)
qed

lemma gaps_sort:
  assumes "total_preorder cmp" "stride gap" "0 < gap" "gap < length xs"
  shows "le_upto cmp (length xs) (qsort_gaps cmp gap xs)"
  using assms(2-)
proof (induction arbitrary: xs)
  case (strideS g)
  show ?case
  proof (cases "g = 0")
    case True
    then show ?thesis
      using pass_one [OF assms(1), of 1 xs "length xs"] strideS.prems
      by (subst qsort_gaps.simps) (simp add: Let_def le_upto_def)
  next
    case False
    then show ?thesis
      using strideS.IH [of "qsort_pass cmp (3 * g + 1) (length xs) (3 * g + 1) xs"] strideS.prems
      by (subst qsort_gaps.simps) (simp add: Let_def)
  qed
qed simp

lemma le_upto_sorted: "le_upto cmp (length xs) xs \<longleftrightarrow> sorted_wrt (\<lambda>a b. cmp a b \<le> 0) xs"
  by (auto simp: le_upto_def sorted_wrt_iff_nth_less)

lemma qsort_r_spec:
  assumes "total_preorder cmp" "length xs \<le> (2 ^ 64 - 1) div width" "0 < width"
  shows "\<exists>ys. qsort_r cmp width xs = Some ys \<and> mset ys = mset xs \<and> sorted_wrt (\<lambda>a b. cmp a b \<le> 0) ys"
proof (cases "1 < length xs")
  case True
  let ?ys = "qsort_gaps cmp (qsort_gap (length xs) 0) xs"
  have g: "qsort_gap (length xs) 0 < length xs" using True by (intro qsort_gap_less) auto
  have m: "mset ?ys = mset xs" using g by (rule mset_qsort_gaps)
  then have l: "length ?ys = length xs" by (rule mset_eq_length)
  have "le_upto cmp (length xs) ?ys"
    using g qsort_gap_stride [OF stride0] by (intro gaps_sort [OF assms(1)]) auto
  then have "sorted_wrt (\<lambda>a b. cmp a b \<le> 0) ?ys" using le_upto_sorted [of cmp ?ys] l by simp
  with True m assms show ?thesis by (simp add: qsort_r_def)
next
  case False
  then have "xs = [] \<or> (\<exists>x. xs = [x])" by (cases xs; cases "tl xs") auto
  then show ?thesis by (auto simp: qsort_r_def)
qed

subsection \<open>Binary search finds\<close>

text \<open>A comparison against the key that is positive below the matching elements and negative
  above them.\<close>

definition search_order :: "('a \<Rightarrow> int) \<Rightarrow> 'a list \<Rightarrow> bool" where
  "search_order compar xs \<longleftrightarrow> sorted_wrt (\<lambda>a b. sgn (compar a) \<ge> sgn (compar b)) xs"

lemma bsearch_loop_spec:
  assumes "search_order compar xs"
  shows "high \<le> length xs \<Longrightarrow>
    (case bsearch_loop compar low high xs of
       Some i \<Rightarrow> low \<le> i \<and> i < high \<and> compar (xs ! i) = 0
     | None \<Rightarrow> \<forall>i. low \<le> i \<and> i < high \<longrightarrow> compar (xs ! i) \<noteq> 0)"
proof (induction "high - low" arbitrary: low high rule: less_induct)
  case less
  have ord: "sgn (compar (xs ! p)) \<ge> sgn (compar (xs ! q))" if "p < q" "q < length xs" for p q
    using assms that by (auto simp: search_order_def sorted_wrt_iff_nth_less)
  show ?case
  proof (cases "low < high")
    case True
    define mid where "mid = low + (high - low) div 2"
    have mid: "low \<le> mid" "mid < high" "mid < length xs" using True less.prems by (auto simp: mid_def)
    consider "compar (xs ! mid) > 0" | "compar (xs ! mid) < 0" | "compar (xs ! mid) = 0" by linarith
    then show ?thesis
    proof cases
      case 1
      have lo: "compar (xs ! i) > 0" if "i \<le> mid" for i
        using ord [of i mid] that mid 1 by (cases "i = mid") (auto simp: sgn_if split: if_splits)
      have "compar (xs ! i) \<noteq> 0" if "\<forall>i. mid + 1 \<le> i \<and> i < high \<longrightarrow> compar (xs ! i) \<noteq> 0" "i < high" for i
        using lo [of i] that by (cases "i \<le> mid") auto
      then show ?thesis
        using less.hyps [of high "mid + 1"] less.prems mid 1 True
        by (subst bsearch_loop.simps) (fastforce simp: Let_def mid_def [symmetric] split: option.splits)
    next
      case 2
      have hi: "compar (xs ! i) < 0" if "mid \<le> i" "i < high" for i
        using ord [of mid i] that mid 2 less.prems by (cases "i = mid") (auto simp: sgn_if split: if_splits)
      have "compar (xs ! i) \<noteq> 0" if "\<forall>i. low \<le> i \<and> i < mid \<longrightarrow> compar (xs ! i) \<noteq> 0" "low \<le> i" "i < high" for i
        using hi [of i] that by (cases "mid \<le> i") auto
      then show ?thesis
        using less.hyps [of mid low] less.prems mid 2 True
        by (subst bsearch_loop.simps) (fastforce simp: Let_def mid_def [symmetric] split: option.splits)
    next
      case 3
      then show ?thesis using True mid by (subst bsearch_loop.simps) (auto simp: Let_def mid_def [symmetric])
    qed
  qed (subst bsearch_loop.simps, simp)
qed

subsection \<open>Main properties\<close>

text \<open>C5. \<^verbatim>\<open>qsort\<close> with a comparison whose sign is a total preorder returns a
  permutation of the array in which every element compares less or equal with all later ones;
  it aborts only when the array cannot be addressed.\<close>

theorem qsort_sorts:
  assumes "total_preorder cmp" "length xs \<le> (2 ^ 64 - 1) div width" "0 < width"
  shows "\<exists>ys. qsort_r cmp width xs = Some ys \<and> mset ys = mset xs \<and> sorted_wrt (\<lambda>a b. cmp a b \<le> 0) ys"
  using assms by (rule qsort_r_spec)

theorem qsort_sorts_witness:
  "\<exists>ys. qsort_r (\<lambda>a b. a - b) 8 [3, 1, 2 :: int] = Some ys \<and> mset ys = mset [3, 1, 2 :: int] \<and>
     sorted_wrt (\<lambda>a b. a - b \<le> 0) ys"
  by (rule qsort_sorts [of "\<lambda>a b. a - b" "[3, 1, 2 :: int]" 8]) (auto simp: total_preorder_def)

text \<open>C34. \<^verbatim>\<open>bsearch\<close> on an array in the order of the comparison returns the index of a
  matching element if there is one, and fails otherwise.\<close>

theorem bsearch_finds:
  assumes "search_order compar xs" "0 < sz"
  shows "(case bsearch compar sz xs of
       Some i \<Rightarrow> i < length xs \<and> compar (xs ! i) = 0
     | None \<Rightarrow> \<forall>x \<in> set xs. compar x \<noteq> 0)"
  using bsearch_loop_spec [OF assms(1), of "length xs" 0] assms(2)
  by (auto simp: bsearch_def in_set_conv_nth split: option.splits)

theorem bsearch_finds_witness:
  "case bsearch (\<lambda>x. 5 - x) 4 [2, 5, 9 :: int] of
       Some i \<Rightarrow> i < length [2, 5, 9 :: int] \<and> 5 - [2, 5, 9 :: int] ! i = 0
     | None \<Rightarrow> \<forall>x \<in> set [2, 5, 9 :: int]. 5 - x \<noteq> 0"
  by (rule bsearch_finds) (auto simp: search_order_def)

end
