(* ===== verification/Forkable_Trace.thy ===== *)
theory Forkable_Trace
  imports Prelude
begin

text \<open>
  \<^verbatim>\<open>ForkableTrace\<close> (\<^verbatim>\<open>include/ics/ForkableTrace.h\<close>): an append-only
  trace cut into reference-counted segments that several versions of the trace share. The
  segments live in an explicit store, because what has to be shown is about sharing: that
  appending to one version, or writing through a mutable pointer into it, is never seen by
  another. The reference counting of \<^verbatim>\<open>klee::ref\<close>
  (\<^verbatim>\<open>include/klee/util/Ref.h\<close>) is modelled with it.
\<close>

subsection \<open>The store\<close>

record 'a fnode =
  refCount :: nat
  data :: "'a list"

record ftrace =
  nodes :: "nat list"
  nelems :: nat

text \<open>All live segments by address, the next unused address, and all live traces by their
  identity.\<close>

record 'a fstate =
  heap :: "nat \<rightharpoonup> 'a fnode"
  nextAddr :: nat
  traces :: "nat \<rightharpoonup> ftrace"

definition init_fstate :: "'a fstate" where
  "init_fstate = \<lparr> heap = Map.empty, nextAddr = 0, traces = Map.empty \<rparr>"

text \<open>\<^verbatim>\<open>ref::inc\<close> and \<^verbatim>\<open>ref::dec\<close>. Reaching a freed segment, and
  decrementing a count of zero, is failure.\<close>

definition ref_inc :: "nat \<Rightarrow> 'a fstate \<Rightarrow> 'a fstate option" where
  "ref_inc a s = do {
     n \<leftarrow> heap s a;
     Some (s\<lparr> heap := (heap s)(a \<mapsto> n\<lparr> refCount := refCount n + 1 \<rparr>) \<rparr>)
   }"

definition ref_dec :: "nat \<Rightarrow> 'a fstate \<Rightarrow> 'a fstate option" where
  "ref_dec a s = do {
     n \<leftarrow> heap s a;
     assert_opt (refCount n \<noteq> 0);
     Some (if refCount n - 1 = 0 then s\<lparr> heap := (heap s)(a := None) \<rparr>
           else s\<lparr> heap := (heap s)(a \<mapsto> n\<lparr> refCount := refCount n - 1 \<rparr>) \<rparr>)
   }"

text \<open>\<^verbatim>\<open>ref<Node>(new Node)\<close>: a fresh empty segment held by one reference.\<close>

definition new_node :: "'a list \<Rightarrow> 'a fstate \<Rightarrow> nat \<times> 'a fstate" where
  "new_node xs s =
     (nextAddr s,
      s\<lparr> heap := (heap s)(nextAddr s \<mapsto> \<lparr> refCount = 1, data = xs \<rparr>), nextAddr := nextAddr s + 1 \<rparr>)"

text \<open>Copying and clearing a vector of references.\<close>

fun incs :: "nat list \<Rightarrow> 'a fstate \<Rightarrow> 'a fstate option" where
  "incs [] s = Some s"
| "incs (a # as) s = Option.bind (ref_inc a s) (incs as)"

fun decs :: "nat list \<Rightarrow> 'a fstate \<Rightarrow> 'a fstate option" where
  "decs [] s = Some s"
| "decs (a # as) s = Option.bind (ref_dec a s) (decs as)"

definition set_trace :: "nat \<Rightarrow> ftrace \<Rightarrow> 'a fstate \<Rightarrow> 'a fstate" where
  "set_trace t tr s = s\<lparr> traces := (traces s)(t \<mapsto> tr) \<rparr>"

subsection \<open>Operations\<close>

definition ft_clear :: "nat \<Rightarrow> 'a fstate \<Rightarrow> 'a fstate option" where
  "ft_clear t s = do {
     tr \<leftarrow> traces s t;
     s \<leftarrow> decs (nodes tr) s;
     let (a, s) = new_node [] s;
     Some (set_trace t \<lparr> nodes = [a], nelems = 0 \<rparr> s)
   }"

definition ft_new :: "nat \<Rightarrow> 'a fstate \<Rightarrow> 'a fstate option" where
  "ft_new t s = do {
     assert_opt (traces s t = None);
     ft_clear t (set_trace t \<lparr> nodes = [], nelems = 0 \<rparr> s)
   }"

text \<open>The copy constructor. A non-empty tail of the source is first closed by an empty
  segment; the copy then shares all segments but the last, which it replaces.\<close>

definition ft_fork :: "nat \<Rightarrow> nat \<Rightarrow> 'a fstate \<Rightarrow> 'a fstate option" where
  "ft_fork t r s = do {
     assert_opt (traces s t = None);
     rhs \<leftarrow> traces s r;
     assert_opt (nodes rhs \<noteq> []);
     tailn \<leftarrow> heap s (last (nodes rhs));
     let (rhs, s) =
       (if data tailn \<noteq> []
        then let (a, s) = new_node [] s; rhs = rhs\<lparr> nodes := nodes rhs @ [a] \<rparr> in (rhs, set_trace r rhs s)
        else (rhs, s));
     s \<leftarrow> incs (nodes rhs) s;
     let (b, s) = new_node [] s;
     s \<leftarrow> ref_dec (last (nodes rhs)) s;
     Some (set_trace t \<lparr> nodes = butlast (nodes rhs) @ [b], nelems = nelems rhs \<rparr> s)
   }"

definition ft_push_back :: "nat \<Rightarrow> 'a \<Rightarrow> 'a fstate \<Rightarrow> 'a fstate option" where
  "ft_push_back t x s = do {
     tr \<leftarrow> traces s t;
     assert_opt (nodes tr \<noteq> []);
     n \<leftarrow> heap s (last (nodes tr));
     let s = s\<lparr> heap := (heap s)(last (nodes tr) \<mapsto> n\<lparr> data := data n @ [x] \<rparr>) \<rparr>;
     Some (set_trace t (tr\<lparr> nelems := nelems tr + 1 \<rparr>) s)
   }"

definition ft_swap :: "nat \<Rightarrow> nat \<Rightarrow> 'a fstate \<Rightarrow> 'a fstate option" where
  "ft_swap t r s = do {
     tr \<leftarrow> traces s t;
     rhs \<leftarrow> traces s r;
     Some (set_trace r tr (set_trace t rhs s))
   }"

text \<open>The loop of \<^verbatim>\<open>reverse\<close>: over the segments from the last to the first,
  appending each one reversed.\<close>

fun rev_collect :: "nat list \<Rightarrow> 'a list \<Rightarrow> 'a fstate \<Rightarrow> 'a list option" where
  "rev_collect [] acc s = Some acc"
| "rev_collect (a # as) acc s = Option.bind (heap s a) (\<lambda>n. rev_collect as (acc @ rev (data n)) s)"

definition ft_reverse :: "nat \<Rightarrow> 'a fstate \<Rightarrow> 'a fstate option" where
  "ft_reverse t s = do {
     tr \<leftarrow> traces s t;
     xs \<leftarrow> rev_collect (rev (nodes tr)) [] s;
     let (a, s) = new_node xs s;
     s \<leftarrow> decs (nodes tr) s;
     assert_opt (length xs = nelems tr);
     Some (set_trace t (tr\<lparr> nodes := [a] \<rparr>) s)
   }"

text \<open>The search for the segment that holds an index, shared by the two accessors.\<close>

fun locate :: "nat list \<Rightarrow> nat \<Rightarrow> 'a fstate \<Rightarrow> (nat \<times> nat) option" where
  "locate [] idx s = None"
| "locate (a # as) idx s =
     Option.bind (heap s a)
       (\<lambda>n. if idx < length (data n) then Some (a, idx) else locate as (idx - length (data n)) s)"

definition ft_getElementAt :: "nat \<Rightarrow> nat \<Rightarrow> 'a fstate \<Rightarrow> 'a option" where
  "ft_getElementAt t idx s = do {
     tr \<leftarrow> traces s t;
     assert_opt (idx < nelems tr);
     (a, i) \<leftarrow> locate (nodes tr) idx s;
     n \<leftarrow> heap s a;
     Some (data n ! i)
   }"

text \<open>The result is the null pointer (\<^verbatim>\<open>Some None\<close>) when the segment is shared.\<close>

definition ft_getMutableElementPtr :: "nat \<Rightarrow> nat \<Rightarrow> 'a fstate \<Rightarrow> (nat \<times> nat) option option" where
  "ft_getMutableElementPtr t idx s = do {
     tr \<leftarrow> traces s t;
     assert_opt (idx < nelems tr);
     (a, i) \<leftarrow> locate (nodes tr) idx s;
     n \<leftarrow> heap s a;
     Some (if refCount n = 1 then Some (a, i) else None)
   }"

text \<open>Assignment through such a pointer.\<close>

definition ptr_write :: "nat \<times> nat \<Rightarrow> 'a \<Rightarrow> 'a fstate \<Rightarrow> 'a fstate option" where
  "ptr_write p v s = do {
     n \<leftarrow> heap s (fst p);
     assert_opt (snd p < length (data n));
     Some (s\<lparr> heap := (heap s)(fst p \<mapsto> n\<lparr> data := (data n)[snd p := v] \<rparr>) \<rparr>)
   }"

text \<open>The implicit destructor.\<close>

definition ft_destroy :: "nat \<Rightarrow> 'a fstate \<Rightarrow> 'a fstate option" where
  "ft_destroy t s = do {
     tr \<leftarrow> traces s t;
     s \<leftarrow> decs (nodes tr) s;
     Some (s\<lparr> traces := (traces s)(t := None) \<rparr>)
   }"

subsection \<open>Iterators\<close>

text \<open>An iterator is an index of a segment and an index in it; the end is one segment past the
  last, with a default element index. The functions read the segments' data in order.\<close>

definition segments :: "ftrace \<Rightarrow> 'a fstate \<Rightarrow> 'a list list" where
  "segments tr s = map (\<lambda>a. case heap s a of None \<Rightarrow> [] | Some n \<Rightarrow> data n) (nodes tr)"

type_synonym fiter = "nat \<times> nat"

function skipForward :: "'a list list \<Rightarrow> nat \<Rightarrow> fiter" where
  "skipForward D n = (if n < length D \<and> D ! n = [] then skipForward D (n + 1) else (n, 0))"
  by auto
termination by (relation "measure (\<lambda>(D, n). length D - n)") auto

fun skipBackward :: "'a list list \<Rightarrow> nat \<Rightarrow> fiter" where
  "skipBackward D n =
     (if n \<noteq> 0 \<and> D ! n = [] then skipBackward D (n - 1)
      else if D ! n = [] then skipForward D n
      else (n, length (D ! n) - 1))"

definition makeFromBegin :: "'a list list \<Rightarrow> fiter" where
  "makeFromBegin D = skipForward D 0"

definition makeFromEnd :: "'a list list \<Rightarrow> fiter" where
  "makeFromEnd D = (length D, 0)"

definition fiter_deref :: "'a list list \<Rightarrow> fiter \<Rightarrow> 'a option" where
  "fiter_deref D it =
     (if fst it < length D \<and> snd it < length (D ! fst it) then Some (D ! fst it ! snd it) else None)"

definition fiter_incr :: "'a list list \<Rightarrow> fiter \<Rightarrow> fiter option" where
  "fiter_incr D it =
     (case it of (n, e) \<Rightarrow>
        if n = length D then None
        else let e' = (if e \<noteq> length (D ! n) then e + 1 else e)
             in if e' = length (D ! n) then Some (skipForward D (n + 1)) else Some (n, e'))"

definition fiter_decr :: "'a list list \<Rightarrow> fiter \<Rightarrow> fiter option" where
  "fiter_decr D it =
     (case it of (n, e) \<Rightarrow>
        if n = length D \<or> e = 0 then
          (if n = 0 then None else Some (skipBackward D (n - 1)))
        else Some (n, e - 1))"

declare skipForward.simps [simp del] skipBackward.simps [simp del]

text \<open>\<^verbatim>\<open>std::equal\<close> over two traces, as \<^verbatim>\<open>operator==\<close> calls it.\<close>

fun std_equal :: "nat \<Rightarrow> 'a list list \<Rightarrow> fiter \<Rightarrow> 'a list list \<Rightarrow> fiter \<Rightarrow> bool option" where
  "std_equal fuel D it E jt =
     (if it = makeFromEnd D then Some True
      else case fuel of
        0 \<Rightarrow> None
      | Suc fuel \<Rightarrow> do {
          x \<leftarrow> fiter_deref D it;
          y \<leftarrow> fiter_deref E jt;
          if x \<noteq> y then Some False
          else do {
            it' \<leftarrow> fiter_incr D it;
            jt' \<leftarrow> fiter_incr E jt;
            std_equal fuel D it' E jt'
          }
        })"

definition ft_equal :: "nat \<Rightarrow> nat \<Rightarrow> 'a fstate \<Rightarrow> bool option" where
  "ft_equal t r s = do {
     lhs \<leftarrow> traces s t;
     rhs \<leftarrow> traces s r;
     if nelems lhs \<noteq> nelems rhs then Some False
     else std_equal (nelems lhs) (segments lhs s) (makeFromBegin (segments lhs s))
            (segments rhs s) (makeFromBegin (segments rhs s))
   }"

subsection \<open>Sequences of operations\<close>

text \<open>The calls that change the state, by the identities of the traces they name; and what a
  client may think they do, when every trace is a list of its own.\<close>

datatype 'a ft_op =
    New nat
  | Fork nat nat
  | Push nat 'a
  | Clear nat
  | Swap nat nat
  | Reverse nat
  | Destroy nat

fun ft_exec :: "'a ft_op \<Rightarrow> 'a fstate \<Rightarrow> 'a fstate option" where
  "ft_exec (New t) s = ft_new t s"
| "ft_exec (Fork t r) s = ft_fork t r s"
| "ft_exec (Push t x) s = ft_push_back t x s"
| "ft_exec (Clear t) s = ft_clear t s"
| "ft_exec (Swap t r) s = ft_swap t r s"
| "ft_exec (Reverse t) s = ft_reverse t s"
| "ft_exec (Destroy t) s = ft_destroy t s"

fun list_exec :: "'a ft_op \<Rightarrow> (nat \<rightharpoonup> 'a list) \<Rightarrow> (nat \<rightharpoonup> 'a list) option" where
  "list_exec (New t) m = (if m t = None then Some (m(t \<mapsto> [])) else None)"
| "list_exec (Fork t r) m =
     (if m t = None then map_option (\<lambda>xs. m(t \<mapsto> xs)) (m r) else None)"
| "list_exec (Push t x) m = map_option (\<lambda>xs. m(t \<mapsto> xs @ [x])) (m t)"
| "list_exec (Clear t) m = map_option (\<lambda>xs. m(t \<mapsto> [])) (m t)"
| "list_exec (Swap t r) m =
     (case (m t, m r) of (Some xs, Some ys) \<Rightarrow> Some (m(t \<mapsto> ys, r \<mapsto> xs)) | _ \<Rightarrow> None)"
| "list_exec (Reverse t) m = map_option (\<lambda>xs. m(t \<mapsto> rev xs)) (m t)"
| "list_exec (Destroy t) m = map_option (\<lambda>xs. m(t := None)) (m t)"

fun run_ops :: "('o \<Rightarrow> 's \<Rightarrow> 's option) \<Rightarrow> 'o list \<Rightarrow> 's \<Rightarrow> 's option" where
  "run_ops step [] s = Some s"
| "run_ops step (op # ops) s = Option.bind (step op s) (run_ops step ops)"

fun op_traces :: "'a ft_op \<Rightarrow> nat set" where
  "op_traces (New t) = {t}"
| "op_traces (Fork t r) = {t}"
| "op_traces (Push t x) = {t}"
| "op_traces (Clear t) = {t}"
| "op_traces (Swap t r) = {t, r}"
| "op_traces (Reverse t) = {t}"
| "op_traces (Destroy t) = {t}"

text \<open>The interface: a store of traces whose operations do to the abstraction what
  \<^verbatim>\<open>list_exec\<close> does.\<close>

locale trace_store =
  fixes exec :: "'a ft_op \<Rightarrow> 's \<Rightarrow> 's option" and invar :: "'s \<Rightarrow> bool" and abs :: "'s \<Rightarrow> nat \<rightharpoonup> 'a list"
  assumes exec_refines: "invar s \<Longrightarrow> list_exec op (abs s) = Some A \<Longrightarrow>
      \<exists>s'. exec op s = Some s' \<and> invar s' \<and> abs s' = A"
begin

lemma run_refines:
  "invar s \<Longrightarrow> run_ops list_exec ops (abs s) = Some A \<Longrightarrow>
     \<exists>s'. run_ops exec ops s = Some s' \<and> invar s' \<and> abs s' = A"
proof (induction ops arbitrary: s)
  case (Cons op ops)
  then obtain B where B: "list_exec op (abs s) = Some B" "run_ops list_exec ops B = Some A" by auto
  then obtain s1 where "exec op s = Some s1" "invar s1" "abs s1 = B" using exec_refines Cons.prems by blast
  with B(2) Cons.IH [of s1] show ?case by auto
qed auto

lemma run_frame:
  assumes "invar s" "run_ops list_exec ops (abs s) = Some A" "\<forall>op\<in>set ops. t \<notin> op_traces op"
  shows "\<exists>s'. run_ops exec ops s = Some s' \<and> invar s' \<and> abs s' t = abs s t"
proof -
  have one: "B t = C t" if "list_exec op C = Some B" "t \<notin> op_traces op" for op :: "'a ft_op" and B C
    using that by (cases op) (auto split: if_splits option.splits)
  have "A t = C t" if "run_ops list_exec ops C = Some A" "\<forall>op\<in>set ops. t \<notin> op_traces op" for C
    using that by (induction ops arbitrary: C) (auto dest: one)
  with run_refines [OF assms(1,2)] assms(2,3) show ?thesis by fastforce
qed

end

subsection \<open>What the store has to satisfy\<close>

text \<open>The count held in the store, the data of a live segment, the number of references that
  live traces hold, and the sequence a trace stands for.\<close>

definition rc :: "'a fstate \<Rightarrow> nat \<Rightarrow> nat" where
  "rc s a = (case heap s a of None \<Rightarrow> 0 | Some n \<Rightarrow> refCount n)"

definition hdata :: "'a fstate \<Rightarrow> nat \<Rightarrow> 'a list option" where
  "hdata s a = map_option data (heap s a)"

definition occ :: "(nat \<rightharpoonup> ftrace) \<Rightarrow> nat \<Rightarrow> nat" where
  "occ T a = (\<Sum>t\<in>dom T. count_list (nodes (the (T t))) a)"

definition contents :: "ftrace \<Rightarrow> 'a fstate \<Rightarrow> 'a list" where
  "contents tr s = concat (map (\<lambda>a. the (hdata s a)) (nodes tr))"

definition live_pos :: "'a fstate \<Rightarrow> bool" where
  "live_pos s \<longleftrightarrow> (\<forall>a n. heap s a = Some n \<longrightarrow> 0 < refCount n \<and> a < nextAddr s)"

definition trace_ok :: "'a fstate \<Rightarrow> ftrace \<Rightarrow> bool" where
  "trace_ok s tr \<longleftrightarrow> nodes tr \<noteq> [] \<and> nelems tr = length (contents tr s) \<and> rc s (last (nodes tr)) = 1"

definition ft_inv :: "'a fstate \<Rightarrow> bool" where
  "ft_inv s \<longleftrightarrow> finite (dom (traces s)) \<and> live_pos s \<and> (\<forall>a. rc s a = occ (traces s) a) \<and>
     (\<forall>t tr. traces s t = Some tr \<longrightarrow> trace_ok s tr)"

definition ft_abs :: "'a fstate \<Rightarrow> nat \<rightharpoonup> 'a list" where
  "ft_abs s t = map_option (\<lambda>tr. contents tr s) (traces s t)"

subsection \<open>Reference counting\<close>

lemma occ_None: "finite (dom T) \<Longrightarrow> T t = None \<Longrightarrow> occ (T(t \<mapsto> tr)) a = occ T a + count_list (nodes tr) a"
proof -
  assume "finite (dom T)" "T t = None"
  moreover from this have "(\<Sum>x\<in>dom T. count_list (nodes (the ((T(t \<mapsto> tr)) x))) a) =
      (\<Sum>x\<in>dom T. count_list (nodes (the (T x))) a)"
    by (intro sum.cong) auto
  ultimately show ?thesis by (simp add: occ_def domIff)
qed

lemma occ_del: "finite (dom T) \<Longrightarrow> T t = Some tr \<Longrightarrow> occ T a = occ (T(t := None)) a + count_list (nodes tr) a"
  using occ_None [of "T(t := None)" t tr a] by (simp add: fun_upd_idem)

lemma occ_upd: "finite (dom T) \<Longrightarrow> occ (T(t \<mapsto> tr)) a = occ (T(t := None)) a + count_list (nodes tr) a"
  using occ_None [of "T(t := None)" t tr a] by simp

lemma occ_mono: "finite (dom T) \<Longrightarrow> T t = Some tr \<Longrightarrow> count_list (nodes tr) a \<le> occ T a"
  by (simp add: occ_del)

lemma occ_two:
  "finite (dom T) \<Longrightarrow> T t = Some tr \<Longrightarrow> T u = Some ur \<Longrightarrow> t \<noteq> u \<Longrightarrow>
     count_list (nodes tr) a + count_list (nodes ur) a \<le> occ T a"
  using occ_del [of T t tr a] occ_mono [of "T(t := None)" u ur a] by simp

lemma ref_inc_spec:
  assumes "0 < rc s a"
  obtains s' where "ref_inc a s = Some s'" "rc s' = (rc s)(a := rc s a + 1)" "hdata s' = hdata s"
    "traces s' = traces s" "nextAddr s' = nextAddr s" "live_pos s \<longrightarrow> live_pos s'"
proof -
  obtain n where "heap s a = Some n" using assms by (auto simp: rc_def split: option.splits)
  then show ?thesis
    by (intro that [of "s\<lparr> heap := (heap s)(a \<mapsto> n\<lparr> refCount := refCount n + 1 \<rparr>) \<rparr>"])
       (auto simp: ref_inc_def rc_def hdata_def live_pos_def fun_eq_iff)
qed

lemma ref_dec_spec:
  assumes "0 < rc s a"
  obtains s' where "ref_dec a s = Some s'" "rc s' = (rc s)(a := rc s a - 1)"
    "hdata s' = (hdata s)(a := if rc s a = 1 then None else hdata s a)"
    "traces s' = traces s" "nextAddr s' = nextAddr s" "live_pos s \<longrightarrow> live_pos s'"
proof -
  obtain n where n: "heap s a = Some n" "0 < refCount n" using assms by (auto simp: rc_def split: option.splits)
  show ?thesis
  proof (cases "refCount n = 1")
    case True
    with n show ?thesis
      by (intro that [of "s\<lparr> heap := (heap s)(a := None) \<rparr>"])
         (auto simp: ref_dec_def rc_def hdata_def live_pos_def fun_eq_iff)
  next
    case False
    then have "1 < refCount n" using n by simp
    with n show ?thesis
      by (intro that [of "s\<lparr> heap := (heap s)(a \<mapsto> n\<lparr> refCount := refCount n - 1 \<rparr>) \<rparr>"])
         (auto simp: ref_dec_def rc_def hdata_def live_pos_def fun_eq_iff)
  qed
qed

lemma incs_spec:
  assumes "\<forall>a\<in>set as. 0 < rc s a"
  obtains s' where "incs as s = Some s'" "\<forall>a. rc s' a = rc s a + count_list as a" "hdata s' = hdata s"
    "traces s' = traces s" "nextAddr s' = nextAddr s" "live_pos s \<longrightarrow> live_pos s'"
  using assms
proof (induction as arbitrary: s thesis)
  case (Cons a as)
  obtain s1 where s1: "ref_inc a s = Some s1" "rc s1 = (rc s)(a := rc s a + 1)" "hdata s1 = hdata s"
    "traces s1 = traces s" "nextAddr s1 = nextAddr s" "live_pos s \<longrightarrow> live_pos s1"
    using Cons.prems by (auto elim: ref_inc_spec [of s a])
  have "\<forall>b\<in>set as. 0 < rc s1 b" using Cons.prems s1(2) by auto
  then obtain s2 where "incs as s1 = Some s2" "\<forall>b. rc s2 b = rc s1 b + count_list as b" "hdata s2 = hdata s1"
    "traces s2 = traces s1" "nextAddr s2 = nextAddr s1" "live_pos s1 \<longrightarrow> live_pos s2"
    using Cons.IH by blast
  with s1 show ?case by (intro Cons.prems(1) [of s2]) auto
qed auto

lemma decs_spec:
  assumes "\<forall>a. count_list as a \<le> rc s a"
  obtains s' where "decs as s = Some s'" "\<forall>a. rc s' a = rc s a - count_list as a"
    "\<forall>a. count_list as a = 0 \<or> 0 < rc s' a \<longrightarrow> hdata s' a = hdata s a"
    "traces s' = traces s" "nextAddr s' = nextAddr s" "live_pos s \<longrightarrow> live_pos s'"
  using assms
proof (induction as arbitrary: s thesis)
  case (Cons a as)
  have pos: "0 < rc s a" using Cons.prems(2) [rule_format, of a] by simp
  obtain s1 where s1: "ref_dec a s = Some s1" "rc s1 = (rc s)(a := rc s a - 1)"
    "hdata s1 = (hdata s)(a := if rc s a = 1 then None else hdata s a)"
    "traces s1 = traces s" "nextAddr s1 = nextAddr s" "live_pos s \<longrightarrow> live_pos s1"
    by (rule ref_dec_spec [OF pos]) auto
  have "\<forall>b. count_list as b \<le> rc s1 b"
    using Cons.prems(2) s1(2) by (auto split: if_splits)
  then obtain s2 where s2: "decs as s1 = Some s2" "\<forall>b. rc s2 b = rc s1 b - count_list as b"
    "\<forall>a. count_list as a = 0 \<or> 0 < rc s2 a \<longrightarrow> hdata s2 a = hdata s1 a"
    "traces s2 = traces s1" "nextAddr s2 = nextAddr s1" "live_pos s1 \<longrightarrow> live_pos s2"
    using Cons.IH by blast
  show ?case
  proof (rule Cons.prems(1) [of s2])
    show "decs (a # as) s = Some s2" using s1 s2 by simp
    show "\<forall>b. rc s2 b = rc s b - count_list (a # as) b" using s1(2) s2(2) by auto
    show "\<forall>b. count_list (a # as) b = 0 \<or> 0 < rc s2 b \<longrightarrow> hdata s2 b = hdata s b"
      using s1(2,3) s2(2,3) by auto
  qed (use s1 s2 in auto)
qed auto

lemma new_node_spec:
  assumes "new_node xs s = (a, s')" "live_pos s"
  shows "a = nextAddr s" "heap s a = None" "rc s a = 0" "rc s' = (rc s)(a := 1)" "hdata s' = (hdata s)(a \<mapsto> xs)"
    "traces s' = traces s" "live_pos s'"
proof -
  have fresh: "heap s (nextAddr s) = None"
    using assms(2) by (cases "heap s (nextAddr s)") (auto simp: live_pos_def)
  have s': "a = nextAddr s"
    "s' = s\<lparr> heap := (heap s)(nextAddr s \<mapsto> \<lparr> refCount = 1, data = xs \<rparr>), nextAddr := nextAddr s + 1 \<rparr>"
    using assms(1) by (auto simp: new_node_def)
  show "live_pos s'"
    using assms(2) unfolding s' live_pos_def by (auto simp: less_Suc_eq)
  show "a = nextAddr s" "heap s a = None" "rc s a = 0" "rc s' = (rc s)(a := 1)" "hdata s' = (hdata s)(a \<mapsto> xs)"
    "traces s' = traces s"
    using fresh s' by (auto simp: rc_def hdata_def fun_eq_iff)
qed

lemma new_node_trace [simp]: "new_node xs (set_trace t tr s) = (nextAddr s, set_trace t tr (snd (new_node xs s)))"
  by (simp add: new_node_def set_trace_def)

lemma set_trace_sel [simp]:
  "heap (set_trace t tr s) = heap s" "nextAddr (set_trace t tr s) = nextAddr s"
  "traces (set_trace t tr s) = (traces s)(t \<mapsto> tr)" "rc (set_trace t tr s) = rc s"
  "hdata (set_trace t tr s) = hdata s" "live_pos (set_trace t tr s) = live_pos s"
  "contents tr' (set_trace t tr s) = contents tr' s" "trace_ok (set_trace t tr s) = trace_ok s"
  by (auto simp: set_trace_def rc_def hdata_def live_pos_def contents_def trace_ok_def fun_eq_iff)

subsection \<open>Frame conditions\<close>

lemma contents_cong: "(\<And>a. a \<in> set (nodes tr) \<Longrightarrow> hdata s' a = hdata s a) \<Longrightarrow> contents tr s' = contents tr s"
  by (auto simp: contents_def intro!: arg_cong [of _ _ concat])

lemma inv_rc: "ft_inv s \<Longrightarrow> rc s a = occ (traces s) a"
  by (simp add: ft_inv_def)

lemma inv_trace_ok: "ft_inv s \<Longrightarrow> traces s t = Some tr \<Longrightarrow> trace_ok s tr"
  by (simp add: ft_inv_def)

lemma inv_live: "ft_inv s \<Longrightarrow> live_pos s"
  by (simp add: ft_inv_def)

lemma inv_finite: "ft_inv s \<Longrightarrow> finite (dom (traces s))"
  by (simp add: ft_inv_def)

lemma inv_count: "ft_inv s \<Longrightarrow> traces s t = Some tr \<Longrightarrow> count_list (nodes tr) a \<le> rc s a"
  by (simp add: inv_rc inv_finite occ_mono)

lemma inv_node: "ft_inv s \<Longrightarrow> traces s t = Some tr \<Longrightarrow> a \<in> set (nodes tr) \<Longrightarrow> 0 < rc s a"
  using inv_count [of s t tr a] count_list_eq_0_iff [of "nodes tr" a] by linarith

lemma inv_node_data: "ft_inv s \<Longrightarrow> traces s t = Some tr \<Longrightarrow> a \<in> set (nodes tr) \<Longrightarrow>
    \<exists>n. heap s a = Some n \<and> hdata s a = Some (data n) \<and> refCount n = rc s a"
  using inv_node [of s t tr a] by (auto simp: rc_def hdata_def split: option.splits)

text \<open>The tail of a trace is its own: no other trace has it, and it has it once.\<close>

lemma inv_tail_private:
  assumes "ft_inv s" "traces s t = Some tr" "traces s u = Some ur" "t \<noteq> u"
  shows "last (nodes ur) \<notin> set (nodes tr)"
proof -
  have ok: "nodes ur \<noteq> []" "rc s (last (nodes ur)) = 1"
    using inv_trace_ok [OF assms(1,3)] by (auto simp: trace_ok_def)
  then have "0 < count_list (nodes ur) (last (nodes ur))"
    using count_list_eq_0_iff [of "nodes ur" "last (nodes ur)"] by auto
  with ok occ_two [OF inv_finite [OF assms(1)] assms(2,3,4), of "last (nodes ur)"] inv_rc [OF assms(1)]
  have "count_list (nodes tr) (last (nodes ur)) = 0" by simp
  then show ?thesis by (simp add: count_list_eq_0_iff)
qed

lemma inv_tail_once:
  assumes "ft_inv s" "traces s t = Some tr"
  shows "last (nodes tr) \<notin> set (butlast (nodes tr))"
proof -
  have ok: "nodes tr \<noteq> []" "rc s (last (nodes tr)) = 1"
    using inv_trace_ok [OF assms] by (auto simp: trace_ok_def)
  have "count_list (nodes tr) (last (nodes tr)) \<le> 1"
    using inv_count [OF assms, of "last (nodes tr)"] ok by simp
  moreover have "count_list (nodes tr) (last (nodes tr)) = count_list (butlast (nodes tr)) (last (nodes tr)) + 1"
    using ok(1) by (subst append_butlast_last_id [symmetric], assumption) (simp only: count_list_append count_list.simps, simp)
  ultimately show ?thesis by (simp add: count_list_eq_0_iff)
qed

text \<open>What an operation that replaces one trace has to establish.\<close>

lemma ft_inv_update:
  assumes "ft_inv s" "traces s' = (traces s)(t \<mapsto> tr')" "live_pos s'" "\<And>a. rc s' a = occ (traces s') a"
    and "trace_ok s' tr'"
    and "\<And>u ur a. u \<noteq> t \<Longrightarrow> traces s u = Some ur \<Longrightarrow> a \<in> set (nodes ur) \<Longrightarrow> hdata s' a = hdata s a"
    and "\<And>u ur. u \<noteq> t \<Longrightarrow> traces s u = Some ur \<Longrightarrow> rc s' (last (nodes ur)) = 1"
  shows "ft_inv s' \<and> ft_abs s' = (ft_abs s)(t \<mapsto> contents tr' s')"
proof
  have same: "contents ur s' = contents ur s" if "u \<noteq> t" "traces s u = Some ur" for u ur
    using assms(6) [OF that] by (rule contents_cong)
  show "ft_inv s'"
    unfolding ft_inv_def
  proof (intro conjI allI impI)
    fix u ur
    assume u: "traces s' u = Some ur"
    show "trace_ok s' ur"
    proof (cases "u = t")
      case False
      then have "traces s u = Some ur" using u assms(2) by simp
      with False inv_trace_ok [OF assms(1)] same assms(7) show ?thesis by (auto simp: trace_ok_def)
    qed (use u assms(2,5) in auto)
  qed (use assms inv_finite [OF assms(1)] in auto)
  show "ft_abs s' = (ft_abs s)(t \<mapsto> contents tr' s')"
  proof
    fix u
    show "ft_abs s' u = ((ft_abs s)(t \<mapsto> contents tr' s')) u"
      using same assms(2) by (cases "traces s u") (auto simp: ft_abs_def)
  qed
qed

subsection \<open>The operations\<close>

lemma decs_trace:
  assumes "ft_inv s" "traces s t = Some tr"
  obtains s' where "decs (nodes tr) s = Some s'" "live_pos s'" "traces s' = traces s" "nextAddr s' = nextAddr s"
    "\<And>a. rc s' a = occ ((traces s)(t := None)) a"
    "\<And>u ur a. u \<noteq> t \<Longrightarrow> traces s u = Some ur \<Longrightarrow> a \<in> set (nodes ur) \<Longrightarrow> hdata s' a = hdata s a"
    "\<And>u ur. u \<noteq> t \<Longrightarrow> traces s u = Some ur \<Longrightarrow> rc s' (last (nodes ur)) = 1"
proof -
  obtain s' where s': "decs (nodes tr) s = Some s'" "\<forall>a. rc s' a = rc s a - count_list (nodes tr) a"
    "\<forall>a. count_list (nodes tr) a = 0 \<or> 0 < rc s' a \<longrightarrow> hdata s' a = hdata s a"
    "traces s' = traces s" "nextAddr s' = nextAddr s" "live_pos s \<longrightarrow> live_pos s'"
    using allI [of "\<lambda>a. count_list (nodes tr) a \<le> rc s a", OF inv_count [OF assms]] by (rule decs_spec) blast
  have rc: "rc s' a = occ ((traces s)(t := None)) a" for a
    using s'(2) inv_rc [OF assms(1)] occ_del [OF inv_finite [OF assms(1)] assms(2), of a] by simp
  show ?thesis
  proof (rule that [OF s'(1)])
    fix u ur assume u: "u \<noteq> t" "traces s u = Some ur"
    have mono: "count_list (nodes ur) a \<le> rc s' a" for a
      using occ_mono [of "(traces s)(t := None)" u ur a] u inv_finite [OF assms(1)] rc by simp
    show "hdata s' a = hdata s a" if "a \<in> set (nodes ur)" for a
      using that mono [of a] count_list_eq_0_iff [of "nodes ur" a] s'(3) by (metis gr0I le_zero_eq)
    have "count_list (nodes tr) (last (nodes ur)) = 0"
      using inv_tail_private [OF assms u(2)] u(1) by (auto simp: count_list_eq_0_iff)
    then show "rc s' (last (nodes ur)) = 1"
      using s'(2) inv_trace_ok [OF assms(1) u(2)] by (simp add: trace_ok_def)
  qed (use s' rc inv_live [OF assms(1)] in auto)
qed

lemma ft_clear_spec:
  assumes "ft_inv s" "traces s t = Some tr"
  shows "\<exists>s'. ft_clear t s = Some s' \<and> ft_inv s' \<and> ft_abs s' = (ft_abs s)(t \<mapsto> [])"
proof -
  obtain s1 where s1: "decs (nodes tr) s = Some s1" "live_pos s1" "traces s1 = traces s" "nextAddr s1 = nextAddr s"
    "\<And>a. rc s1 a = occ ((traces s)(t := None)) a"
    "\<And>u ur a. u \<noteq> t \<Longrightarrow> traces s u = Some ur \<Longrightarrow> a \<in> set (nodes ur) \<Longrightarrow> hdata s1 a = hdata s a"
    "\<And>u ur. u \<noteq> t \<Longrightarrow> traces s u = Some ur \<Longrightarrow> rc s1 (last (nodes ur)) = 1"
    using decs_trace [OF assms] by blast
  obtain b s2 where n: "new_node [] s1 = (b, s2)" by force
  note n' = new_node_spec [OF n s1(2)]
  let ?tr = "\<lparr> nodes = [b], nelems = 0 \<rparr>" and ?s' = "set_trace t \<lparr> nodes = [b], nelems = 0 \<rparr> s2"
  have other: "b \<notin> set (nodes ur)" if "u \<noteq> t" "traces s u = Some ur" for u ur
  proof
    assume "b \<in> set (nodes ur)"
    then have "0 < count_list (nodes ur) b" using count_list_eq_0_iff [of "nodes ur" b] by auto
    then show False
      using occ_mono [of "(traces s)(t := None)" u ur b] that inv_finite [OF assms(1)] s1(5) [of b] n'(3) by simp
  qed
  have "ft_inv ?s' \<and> ft_abs ?s' = (ft_abs s)(t \<mapsto> contents ?tr ?s')"
  proof (rule ft_inv_update [OF assms(1)])
    show "rc ?s' a = occ (traces ?s') a" for a
      using n'(3,4,6) s1(3,5) inv_finite [OF assms(1)] by (simp add: occ_upd)
    fix u ur assume u: "u \<noteq> t" "traces s u = Some ur"
    then have "nodes ur \<noteq> []" using inv_trace_ok [OF assms(1)] by (auto simp: trace_ok_def)
    then have "last (nodes ur) \<noteq> b" using other [OF u] by auto
    then show "rc ?s' (last (nodes ur)) = 1" using s1(7) [OF u] n'(4) by simp
    show "hdata ?s' a = hdata s a" if "a \<in> set (nodes ur)" for a
      using s1(6) [OF u that] n'(5) that other [OF u] by auto
  qed (use n' s1(3) in \<open>auto simp: trace_ok_def contents_def\<close>)
  moreover have "contents ?tr ?s' = []" using n'(5) by (simp add: contents_def)
  ultimately show ?thesis using assms(2) s1(1) n by (auto simp: ft_clear_def)
qed

lemma ft_new_spec:
  assumes "ft_inv s" "traces s t = None"
  shows "\<exists>s'. ft_new t s = Some s' \<and> ft_inv s' \<and> ft_abs s' = (ft_abs s)(t \<mapsto> [])"
proof -
  obtain b s2 where n: "new_node [] s = (b, s2)" by force
  note n' = new_node_spec [OF n inv_live [OF assms(1)]]
  let ?tr = "\<lparr> nodes = [b], nelems = 0 \<rparr>" and ?s' = "set_trace t \<lparr> nodes = [b], nelems = 0 \<rparr> s2"
  have other: "b \<notin> set (nodes ur)" if "traces s u = Some ur" for u ur
    using inv_node [OF assms(1) that, of b] n'(3) by auto
  have "ft_inv ?s' \<and> ft_abs ?s' = (ft_abs s)(t \<mapsto> contents ?tr ?s')"
  proof (rule ft_inv_update [OF assms(1)])
    show "rc ?s' a = occ (traces ?s') a" for a
      using n'(3,4,6) inv_rc [OF assms(1)] inv_finite [OF assms(1)] assms(2) by (simp add: occ_None)
    fix u ur assume u: "u \<noteq> t" "traces s u = Some ur"
    then have "nodes ur \<noteq> []" using inv_trace_ok [OF assms(1)] by (auto simp: trace_ok_def)
    then have "last (nodes ur) \<noteq> b" using other [OF u(2)] by auto
    then show "rc ?s' (last (nodes ur)) = 1" using inv_trace_ok [OF assms(1) u(2)] n'(4) by (simp add: trace_ok_def)
    show "hdata ?s' a = hdata s a" if "a \<in> set (nodes ur)" for a
      using n'(5) that other [OF u(2)] by auto
  qed (use n' in \<open>auto simp: trace_ok_def contents_def\<close>)
  moreover have "contents ?tr ?s' = []" using n'(5) by (simp add: contents_def)
  moreover have "new_node [] (set_trace t \<lparr> nodes = [], nelems = 0 \<rparr> s) = (b, set_trace t \<lparr> nodes = [], nelems = 0 \<rparr> s2)"
    using n by (auto simp: new_node_def)
  ultimately show ?thesis using assms(2)
    by (auto simp: ft_new_def ft_clear_def) (auto simp: set_trace_def)
qed

text \<open>Changing the data of a segment that only one trace holds.\<close>

lemma ft_inv_write:
  assumes "ft_inv s" "traces s t = Some tr" "a \<in> set (nodes tr)" "heap s a = Some n" "rc s a = 1"
    and "s' = set_trace t tr' (s\<lparr> heap := (heap s)(a \<mapsto> n\<lparr> data := d \<rparr>) \<rparr>)" "nodes tr' = nodes tr"
    and "nelems tr' = length (contents tr' s')"
  shows "ft_inv s' \<and> ft_abs s' = (ft_abs s)(t \<mapsto> contents tr' s')"
proof (rule ft_inv_update [OF assms(1)])
  have rc': "rc s' = rc s" using assms(4,6) by (auto simp: rc_def fun_eq_iff set_trace_def)
  have others: "a \<notin> set (nodes ur)" if "u \<noteq> t" "traces s u = Some ur" for u ur
  proof -
    have "count_list (nodes tr) a + count_list (nodes ur) a \<le> 1"
      using occ_two [OF inv_finite [OF assms(1)] assms(2) that(2), of a] that(1) assms(5) inv_rc [OF assms(1)] by auto
    moreover have "count_list (nodes tr) a \<noteq> 0" using assms(3) by (simp add: count_list_eq_0_iff)
    ultimately show ?thesis using count_list_eq_0_iff [of "nodes ur" a] by linarith
  qed
  show "traces s' = (traces s)(t \<mapsto> tr')" using assms(6) by (simp add: set_trace_def)
  then show "rc s' b = occ (traces s') b" for b
    using rc' inv_rc [OF assms(1)] inv_finite [OF assms(1)] assms(2,7) occ_del [of "traces s" t tr b]
    by (simp add: occ_upd)
  show "live_pos s'" using inv_live [OF assms(1)] assms(4,6) by (auto simp: live_pos_def)
  show "trace_ok s' tr'" using inv_trace_ok [OF assms(1,2)] assms(7,8) rc' by (simp add: trace_ok_def)
  fix u ur assume u: "u \<noteq> t" "traces s u = Some ur"
  show "hdata s' b = hdata s b" if "b \<in> set (nodes ur)" for b
    using that others [OF u] assms(6) by (auto simp: hdata_def)
  show "rc s' (last (nodes ur)) = 1" using rc' inv_trace_ok [OF assms(1) u(2)] by (simp add: trace_ok_def)
qed

lemma ft_push_back_spec:
  assumes "ft_inv s" "traces s t = Some tr"
  shows "\<exists>s'. ft_push_back t x s = Some s' \<and> ft_inv s' \<and> ft_abs s' = (ft_abs s)(t \<mapsto> contents tr s @ [x])"
proof -
  have ok: "nodes tr \<noteq> []" "nelems tr = length (contents tr s)" "rc s (last (nodes tr)) = 1"
    using inv_trace_ok [OF assms] by (auto simp: trace_ok_def)
  let ?a = "last (nodes tr)" and ?tr = "tr\<lparr> nelems := nelems tr + 1 \<rparr>"
  obtain n where n: "heap s ?a = Some n" using inv_node_data [OF assms, of ?a] ok(1) by auto
  let ?s' = "set_trace t ?tr (s\<lparr> heap := (heap s)(?a \<mapsto> n\<lparr> data := data n @ [x] \<rparr>) \<rparr>)"
  have split: "contents u s0 = concat (map (\<lambda>a. the (hdata s0 a)) (butlast (nodes tr))) @ the (hdata s0 ?a)"
    if "nodes u = nodes tr" for u s0
    using ok(1) that by (simp add: contents_def concat_map_last)
  have "concat (map (\<lambda>a. the (hdata ?s' a)) (butlast (nodes tr))) = concat (map (\<lambda>a. the (hdata s a)) (butlast (nodes tr)))"
    using inv_tail_once [OF assms] by (intro arg_cong [of _ _ concat] map_cong) (auto simp: hdata_def)
  then have c: "contents ?tr ?s' = contents tr s @ [x]"
    using split [of ?tr ?s'] split [of tr s] n by (simp add: hdata_def)
  have "ft_inv ?s' \<and> ft_abs ?s' = (ft_abs s)(t \<mapsto> contents ?tr ?s')"
    using ok c n by (intro ft_inv_write [OF assms, of ?a]) auto
  with c ok(1) n assms(2) show ?thesis by (simp add: ft_push_back_def)
qed

lemma ft_destroy_spec:
  assumes "ft_inv s" "traces s t = Some tr"
  shows "\<exists>s'. ft_destroy t s = Some s' \<and> ft_inv s' \<and> ft_abs s' = (ft_abs s)(t := None)"
proof -
  obtain s1 where s1: "decs (nodes tr) s = Some s1" "live_pos s1" "traces s1 = traces s" "nextAddr s1 = nextAddr s"
    "\<And>a. rc s1 a = occ ((traces s)(t := None)) a"
    "\<And>u ur a. u \<noteq> t \<Longrightarrow> traces s u = Some ur \<Longrightarrow> a \<in> set (nodes ur) \<Longrightarrow> hdata s1 a = hdata s a"
    "\<And>u ur. u \<noteq> t \<Longrightarrow> traces s u = Some ur \<Longrightarrow> rc s1 (last (nodes ur)) = 1"
    using decs_trace [OF assms] by blast
  let ?s' = "s1\<lparr> traces := (traces s1)(t := None) \<rparr>"
  have h: "rc ?s' = rc s1" "hdata ?s' = hdata s1" "live_pos ?s' = live_pos s1" "\<And>tr. contents tr ?s' = contents tr s1"
    by (auto simp: rc_def hdata_def live_pos_def contents_def fun_eq_iff)
  have same: "contents ur s1 = contents ur s" if "u \<noteq> t" "traces s u = Some ur" for u ur
    using s1(6) [OF that] by (rule contents_cong)
  have "ft_inv ?s'"
    using s1 h same inv_trace_ok [OF assms(1)] inv_finite [OF assms(1)]
    by (auto simp: ft_inv_def trace_ok_def)
  moreover have "ft_abs ?s' u = ((ft_abs s)(t := None)) u" for u
    using s1(3) h(4) same by (cases "traces s u") (auto simp: ft_abs_def)
  ultimately show ?thesis using assms(2) s1(1) by (auto simp: ft_destroy_def)
qed

text \<open>The two halves of the copy constructor: closing the source's tail, and sharing.\<close>

lemma ft_close_spec:
  assumes "ft_inv s" "traces s r = Some rhs" "new_node [] s = (a, s1)"
  defines "rhs' \<equiv> rhs\<lparr> nodes := nodes rhs @ [a] \<rparr>"
  shows "ft_inv (set_trace r rhs' s1) \<and> ft_abs (set_trace r rhs' s1) = ft_abs s \<and> hdata s1 a = Some []"
proof -
  note n = new_node_spec [OF assms(3) inv_live [OF assms(1)]]
  let ?s' = "set_trace r rhs' s1"
  have fresh: "a \<notin> set (nodes ur)" if "traces s u = Some ur" for u ur
    using inv_node [OF assms(1) that, of a] n(3) by auto
  have c: "contents rhs' ?s' = contents rhs s"
    using fresh [OF assms(2)] n(5) by (auto simp: contents_def rhs'_def intro!: arg_cong [of _ _ concat])
  have "ft_inv ?s' \<and> ft_abs ?s' = (ft_abs s)(r \<mapsto> contents rhs' ?s')"
  proof (rule ft_inv_update [OF assms(1)])
    show "rc ?s' b = occ (traces ?s') b" for b
      using n(3,4,6) inv_rc [OF assms(1)] inv_finite [OF assms(1)] occ_del [OF inv_finite [OF assms(1)] assms(2), of b]
      by (auto simp: occ_upd rhs'_def)
    show "trace_ok ?s' rhs'" using c inv_trace_ok [OF assms(1,2)] n(4) by (simp add: trace_ok_def rhs'_def)
    fix u ur assume u: "u \<noteq> r" "traces s u = Some ur"
    then have "nodes ur \<noteq> []" using inv_trace_ok [OF assms(1)] by (auto simp: trace_ok_def)
    then have "last (nodes ur) \<noteq> a" using fresh [OF u(2)] by auto
    then show "rc ?s' (last (nodes ur)) = 1" using inv_trace_ok [OF assms(1) u(2)] n(4) by (simp add: trace_ok_def)
    show "hdata ?s' b = hdata s b" if "b \<in> set (nodes ur)" for b
      using n(5) that fresh [OF u(2)] by auto
  qed (use n in auto)
  moreover have "(ft_abs s)(r \<mapsto> contents rhs s) = ft_abs s"
    using assms(2) by (auto simp: ft_abs_def fun_eq_iff)
  ultimately show ?thesis using c n(5) by simp
qed

lemma ft_share_spec:
  assumes "ft_inv s" "traces s r = Some rhs" "traces s t = None" "hdata s (last (nodes rhs)) = Some []"
  shows "\<exists>s1 b s2 s3. incs (nodes rhs) s = Some s1 \<and> new_node [] s1 = (b, s2) \<and>
     ref_dec (last (nodes rhs)) s2 = Some s3 \<and>
     (let s' = set_trace t \<lparr> nodes = butlast (nodes rhs) @ [b], nelems = nelems rhs \<rparr> s3
      in ft_inv s' \<and> ft_abs s' = (ft_abs s)(t \<mapsto> contents rhs s))"
proof -
  let ?a = "last (nodes rhs)"
  have ok: "nodes rhs \<noteq> []" "nelems rhs = length (contents rhs s)" "rc s ?a = 1"
    using inv_trace_ok [OF assms(1,2)] by (auto simp: trace_ok_def)
  have "\<forall>a\<in>set (nodes rhs). 0 < rc s a" using inv_node [OF assms(1,2)] by blast
  then obtain s1 where s1: "incs (nodes rhs) s = Some s1" "\<forall>a. rc s1 a = rc s a + count_list (nodes rhs) a"
    "hdata s1 = hdata s" "traces s1 = traces s" "live_pos s1"
    by (rule incs_spec) (use inv_live [OF assms(1)] in blast)
  obtain b s2 where n: "new_node [] s1 = (b, s2)" by force
  note n' = new_node_spec [OF n s1(5)]
  have fresh: "b \<notin> set (nodes ur)" if "traces s u = Some ur" for u ur
    using inv_node [OF assms(1) that, of b] n'(3) s1(2) by auto
  then have ab: "?a \<noteq> b" using assms(2) ok(1) by force
  have cnt: "count_list (nodes rhs) x = count_list (butlast (nodes rhs)) x + (if x = ?a then 1 else 0)" for x
    using arg_cong [OF append_butlast_last_id [OF ok(1)], of "\<lambda>xs. count_list xs x"] by (auto split: if_splits)
  have once: "count_list (nodes rhs) ?a = 1"
    using cnt [of ?a] inv_tail_once [OF assms(1,2)] count_list_eq_0_iff [of "butlast (nodes rhs)" ?a] by simp
  have rc2: "rc s2 ?a = 2" using n'(4) ab s1(2) ok(3) once by simp
  have "0 < rc s2 ?a" using rc2 by simp
  then obtain s3 where s3: "ref_dec ?a s2 = Some s3" "rc s3 = (rc s2)(?a := rc s2 ?a - 1)"
    "hdata s3 = (hdata s2)(?a := if rc s2 ?a = 1 then None else hdata s2 ?a)"
    "traces s3 = traces s2" "live_pos s3"
    by (rule ref_dec_spec) (use n'(7) in blast)
  let ?tr = "\<lparr> nodes = butlast (nodes rhs) @ [b], nelems = nelems rhs \<rparr>"
  let ?s' = "set_trace t ?tr s3"
  have h3: "hdata s3 = (hdata s)(b \<mapsto> [])" using s3(3) rc2 n'(5) s1(3) by auto
  have "b \<notin> set (butlast (nodes rhs))" using fresh [OF assms(2)] by (auto dest: in_set_butlastD)
  then have "map (\<lambda>a. the (hdata ?s' a)) (butlast (nodes rhs)) = map (\<lambda>a. the (hdata s a)) (butlast (nodes rhs))"
    using h3 by auto
  then have c: "contents ?tr ?s' = contents rhs s"
    using h3 assms(4) by (simp add: contents_def concat_map_last [OF ok(1)] cong: map_cong)
  have "ft_inv ?s' \<and> ft_abs ?s' = (ft_abs s)(t \<mapsto> contents ?tr ?s')"
  proof (rule ft_inv_update [OF assms(1)])
    show "rc ?s' x = occ (traces ?s') x" for x
      using s3(2,4) rc2 n'(3,4,6) s1(2,4) cnt [of x] once inv_rc [OF assms(1)] inv_finite [OF assms(1)] assms(3) ab ok(3)
      by (auto simp: occ_None)
    show "trace_ok ?s' ?tr" using c ok s3(2) n'(4) ab by (simp add: trace_ok_def)
    fix u ur assume u: "u \<noteq> t" "traces s u = Some ur"
    have tl: "rc s (last (nodes ur)) = 1" "nodes ur \<noteq> []"
      using inv_trace_ok [OF assms(1) u(2)] by (auto simp: trace_ok_def)
    then have neq: "last (nodes ur) \<noteq> b" using fresh [OF u(2)] by auto
    show "rc ?s' (last (nodes ur)) = 1"
    proof (cases "u = r")
      case False
      then have "count_list (nodes rhs) (last (nodes ur)) = 0" "last (nodes ur) \<noteq> ?a"
        using inv_tail_private [OF assms(1,2) u(2)] ok(1) by (auto simp: count_list_eq_0_iff)
      then show ?thesis using s3(2) n'(4) neq s1(2) tl(1) by simp
    qed (use s3(2) rc2 u(2) assms(2) in simp)
    show "hdata ?s' x = hdata s x" if "x \<in> set (nodes ur)" for x
      using h3 that fresh [OF u(2)] by auto
  qed (use s3 n' s1 in auto)
  then show ?thesis using s1(1) n s3(1) c by (auto simp: Let_def)
qed

lemma ft_fork_spec:
  assumes "ft_inv s" "traces s r = Some rhs" "traces s t = None"
  shows "\<exists>s'. ft_fork t r s = Some s' \<and> ft_inv s' \<and> ft_abs s' = (ft_abs s)(t \<mapsto> contents rhs s)"
proof -
  have ne: "nodes rhs \<noteq> []" using inv_trace_ok [OF assms(1,2)] by (simp add: trace_ok_def)
  obtain n where n: "heap s (last (nodes rhs)) = Some n"
    using inv_node_data [OF assms(1,2), of "last (nodes rhs)"] ne by auto
  show ?thesis
  proof (cases "data n = []")
    case True
    with ft_share_spec [OF assms] n ne assms show ?thesis
      by (force simp: ft_fork_def hdata_def Let_def)
  next
    case False
    obtain a s1 where a: "new_node [] s = (a, s1)" by force
    let ?rhs = "rhs\<lparr> nodes := nodes rhs @ [a] \<rparr>"
    let ?s = "set_trace r ?rhs s1"
    have close: "ft_inv ?s" "ft_abs ?s = ft_abs s" "hdata s1 a = Some []"
      using ft_close_spec [OF assms(1,2) a] by auto
    have tr: "traces ?s r = Some ?rhs" "traces ?s t = None" "hdata ?s (last (nodes ?rhs)) = Some []"
      using close(3) assms new_node_spec(6) [OF a inv_live [OF assms(1)]] by auto
    have "contents ?rhs ?s = contents rhs s"
      using close(2) tr(1) assms(2) by (auto simp: ft_abs_def fun_eq_iff dest!: spec [of _ r])
    with ft_share_spec [OF close(1) tr] False n ne assms a close(2) show ?thesis
      by (force simp: ft_fork_def Let_def)
  qed
qed

lemma ft_swap_spec:
  assumes "ft_inv s" "traces s t = Some tr" "traces s r = Some rhs"
  shows "\<exists>s'. ft_swap t r s = Some s' \<and> ft_inv s' \<and>
     ft_abs s' = (ft_abs s)(t \<mapsto> contents rhs s, r \<mapsto> contents tr s)"
proof -
  let ?s' = "set_trace r tr (set_trace t rhs s)"
  have "occ ((traces s)(t \<mapsto> rhs, r \<mapsto> tr)) a = occ (traces s) a" for a
  proof (cases "t = r")
    case True
    then show ?thesis using assms by (simp add: fun_upd_idem)
  next
    case False
    have f: "finite (dom (traces s))" using inv_finite [OF assms(1)] .
    let ?T = "(traces s)(t := None, r := None)"
    have "occ ((traces s)(t \<mapsto> rhs, r \<mapsto> tr)) a = occ ?T a + count_list (nodes rhs) a + count_list (nodes tr) a"
      using f False occ_None [of ?T t rhs a] occ_None [of "?T(t \<mapsto> rhs)" r tr a]
      by (simp add: fun_upd_twist)
    also have "\<dots> = occ (traces s) a"
      using f False assms occ_del [of "traces s" t tr a] occ_del [of "(traces s)(t := None)" r rhs a]
      by (simp add: fun_upd_twist)
    finally show ?thesis .
  qed
  then have "ft_inv ?s'"
    using assms inv_finite [OF assms(1)] inv_live [OF assms(1)] inv_rc [OF assms(1)] inv_trace_ok [OF assms(1)]
    by (auto simp: ft_inv_def)
  moreover have "ft_abs ?s' = (ft_abs s)(t \<mapsto> contents rhs s, r \<mapsto> contents tr s)"
    by (auto simp: ft_abs_def fun_eq_iff)
  ultimately show ?thesis using assms by (simp add: ft_swap_def)
qed

lemma rev_collect_spec:
  "(\<forall>a\<in>set as. hdata s a \<noteq> None) \<Longrightarrow>
     rev_collect as acc s = Some (acc @ concat (map (\<lambda>a. rev (the (hdata s a))) as))"
  by (induction as arbitrary: acc) (auto simp: hdata_def)

lemma rev_concat_map: "concat (map (\<lambda>a. rev (f a)) (rev as)) = rev (concat (map f as))"
  by (induction as) auto

lemma ft_reverse_spec:
  assumes "ft_inv s" "traces s t = Some tr"
  shows "\<exists>s'. ft_reverse t s = Some s' \<and> ft_inv s' \<and> ft_abs s' = (ft_abs s)(t \<mapsto> rev (contents tr s))"
proof -
  let ?xs = "rev (contents tr s)"
  have "rev_collect (rev (nodes tr)) [] s = Some ?xs"
    using rev_collect_spec [of "rev (nodes tr)" s "[]"] inv_node_data [OF assms]
    by (force simp: rev_concat_map contents_def)
  moreover obtain b s1 where n: "new_node ?xs s = (b, s1)" by force
  note n' = new_node_spec [OF n inv_live [OF assms(1)]]
  have fresh: "b \<notin> set (nodes ur)" if "traces s u = Some ur" for u ur
    using inv_node [OF assms(1) that, of b] n'(3) by auto
  have "\<forall>a. count_list (nodes tr) a \<le> rc s1 a"
    using inv_count [OF assms] fresh [OF assms(2)] n'(4) by (auto simp: count_list_eq_0_iff)
  then obtain s2 where s2: "decs (nodes tr) s1 = Some s2" "\<forall>a. rc s2 a = rc s1 a - count_list (nodes tr) a"
    "\<forall>a. count_list (nodes tr) a = 0 \<or> 0 < rc s2 a \<longrightarrow> hdata s2 a = hdata s1 a" "traces s2 = traces s1" "live_pos s2"
    by (rule decs_spec) (use n'(7) in blast)
  have c0: "count_list (nodes tr) b = 0" using fresh [OF assms(2)] by (simp add: count_list_eq_0_iff)
  let ?tr = "tr\<lparr> nodes := [b] \<rparr>" and ?s' = "set_trace t (tr\<lparr> nodes := [b] \<rparr>) s2"
  have c: "contents ?tr ?s' = ?xs" using s2(3) c0 n'(5) by (simp add: contents_def)
  have rc2: "rc s2 a = occ ((traces s)(t := None)) a + (if a = b then 1 else 0)" for a
    using s2(2) n'(3,4) c0 inv_rc [OF assms(1)] occ_del [OF inv_finite [OF assms(1)] assms(2), of a] by auto
  have "ft_inv ?s' \<and> ft_abs ?s' = (ft_abs s)(t \<mapsto> contents ?tr ?s')"
  proof (rule ft_inv_update [OF assms(1)])
    show "rc ?s' a = occ (traces ?s') a" for a
      using rc2 n'(6) s2(4) inv_finite [OF assms(1)] by (simp add: occ_upd)
    show "trace_ok ?s' ?tr" using c inv_trace_ok [OF assms] s2(2) n'(4) c0 by (simp add: trace_ok_def)
    fix u ur assume u: "u \<noteq> t" "traces s u = Some ur"
    have mono: "count_list (nodes ur) a \<le> rc s2 a" for a
      using occ_mono [of "(traces s)(t := None)" u ur a] u inv_finite [OF assms(1)] rc2 [of a] by simp
    show "hdata ?s' a = hdata s a" if "a \<in> set (nodes ur)" for a
    proof -
      have "0 < rc s2 a" using that mono [of a] count_list_eq_0_iff [of "nodes ur" a] by linarith
      then show ?thesis using s2(3) n'(5) fresh [OF u(2)] that by auto
    qed
    have tl: "rc s (last (nodes ur)) = 1" "nodes ur \<noteq> []"
      using inv_trace_ok [OF assms(1) u(2)] by (auto simp: trace_ok_def)
    have "count_list (nodes tr) (last (nodes ur)) = 0" "last (nodes ur) \<noteq> b"
      using inv_tail_private [OF assms u(2)] u fresh [OF u(2)] tl(2) by (auto simp: count_list_eq_0_iff)
    then show "rc ?s' (last (nodes ur)) = 1" using s2(2) n'(4) tl(1) by simp
  qed (use s2 n' in auto)
  moreover have "length ?xs = nelems tr" using inv_trace_ok [OF assms] by (simp add: trace_ok_def)
  ultimately show ?thesis using assms(2) n s2(1) c by (auto simp: ft_reverse_def)
qed

lemma locate_spec:
  "(\<forall>a\<in>set as. hdata s a \<noteq> None) \<Longrightarrow> idx < length (concat (map (\<lambda>a. the (hdata s a)) as)) \<Longrightarrow>
     \<exists>k i n. locate as idx s = Some (as ! k, i) \<and> k < length as \<and> heap s (as ! k) = Some n \<and> i < length (data n) \<and>
       idx = length (concat (map (\<lambda>a. the (hdata s a)) (take k as))) + i"
proof (induction as arbitrary: idx)
  case (Cons a as)
  then obtain n where n: "heap s a = Some n" by (auto simp: hdata_def)
  show ?case
  proof (cases "idx < length (data n)")
    case True
    with n have "locate (a # as) idx s = Some ((a # as) ! 0, idx) \<and> 0 < length (a # as) \<and>
        heap s ((a # as) ! 0) = Some n \<and> idx < length (data n) \<and>
        idx = length (concat (map (\<lambda>a. the (hdata s a)) (take 0 (a # as)))) + idx" by simp
    then show ?thesis by blast
  next
    case False
    then have "idx - length (data n) < length (concat (map (\<lambda>a. the (hdata s a)) as))"
      using Cons.prems n by (simp add: hdata_def)
    then obtain k i m where "locate as (idx - length (data n)) s = Some (as ! k, i)" "k < length as"
      "heap s (as ! k) = Some m" "i < length (data m)"
      "idx - length (data n) = length (concat (map (\<lambda>a. the (hdata s a)) (take k as))) + i"
      using Cons.IH [of "idx - length (data n)"] Cons.prems(1) by (meson list.set_intros(2))
    with n False have "locate (a # as) idx s = Some ((a # as) ! Suc k, i) \<and> Suc k < length (a # as) \<and>
        heap s ((a # as) ! Suc k) = Some m \<and> i < length (data m) \<and>
        idx = length (concat (map (\<lambda>a. the (hdata s a)) (take (Suc k) (a # as)))) + i" by (simp add: hdata_def)
    then show ?thesis by blast
  qed
qed simp

lemma nth_concat_map:
  "k < length as \<Longrightarrow> i < length (f (as ! k)) \<Longrightarrow>
     concat (map f as) ! (length (concat (map f (take k as))) + i) = f (as ! k) ! i"
proof (induction as arbitrary: k)
  case (Cons a as)
  then show ?case by (cases k) (auto simp: nth_append)
qed simp

lemma ft_locate:
  assumes "ft_inv s" "traces s t = Some tr" "idx < length (contents tr s)"
  obtains k i n where "locate (nodes tr) idx s = Some (nodes tr ! k, i)" "k < length (nodes tr)"
    "heap s (nodes tr ! k) = Some n" "i < length (data n)"
    "idx = length (concat (map (\<lambda>a. the (hdata s a)) (take k (nodes tr)))) + i"
    "data n ! i = contents tr s ! idx"
proof -
  have "\<forall>a\<in>set (nodes tr). hdata s a \<noteq> None" using inv_node_data [OF assms(1,2)] by force
  then obtain k i n where *: "locate (nodes tr) idx s = Some (nodes tr ! k, i)" "k < length (nodes tr)"
    "heap s (nodes tr ! k) = Some n" "i < length (data n)"
    "idx = length (concat (map (\<lambda>a. the (hdata s a)) (take k (nodes tr)))) + i"
    using locate_spec [of "nodes tr" s idx] assms(3) by (auto simp: contents_def)
  have "data n ! i = contents tr s ! idx"
    using * nth_concat_map [of k "nodes tr" i "\<lambda>a. the (hdata s a)"] by (simp add: contents_def hdata_def)
  with * show ?thesis using that by blast
qed

lemma concat_map_update:
  "k < length as \<Longrightarrow> i < length (f (as ! k)) \<Longrightarrow> count_list as (as ! k) = 1 \<Longrightarrow>
     concat (map (f(as ! k := (f (as ! k))[i := v])) as) =
       (concat (map f as))[length (concat (map f (take k as))) + i := v]"
proof (induction as arbitrary: k)
  case (Cons a as)
  show ?case
  proof (cases k)
    case 0
    with Cons.prems have "a \<notin> set as" by (simp add: count_list_eq_0_iff)
    with 0 Cons.prems show ?thesis by (simp add: concat_map_upd_notin [unfolded fun_upd_def] fun_upd_def list_update_append1)
  next
    case (Suc j)
    with Cons.prems have "as ! j \<noteq> a" using count_list_eq_0_iff [of as "as ! j"] by (auto split: if_splits)
    with Suc Cons show ?thesis by (simp add: list_update_append)
  qed
qed simp

lemma ft_mutable_spec:
  assumes "ft_inv s" "traces s t = Some tr" "idx < length (contents tr s)"
  shows "ft_getMutableElementPtr t idx s = Some None \<or>
    (\<exists>p. ft_getMutableElementPtr t idx s = Some (Some p) \<and>
      (\<forall>v. \<exists>s'. ptr_write p v s = Some s' \<and> ft_inv s' \<and> ft_abs s' = (ft_abs s)(t \<mapsto> (contents tr s)[idx := v])))"
proof -
  have len: "idx < nelems tr" using assms inv_trace_ok [OF assms(1,2)] by (simp add: trace_ok_def)
  obtain k i n where l: "locate (nodes tr) idx s = Some (nodes tr ! k, i)" "k < length (nodes tr)"
    "heap s (nodes tr ! k) = Some n" "i < length (data n)"
    "idx = length (concat (map (\<lambda>a. the (hdata s a)) (take k (nodes tr)))) + i"
    using ft_locate [OF assms] by blast
  let ?a = "nodes tr ! k"
  have mem: "?a \<in> set (nodes tr)" using l(2) by simp
  show ?thesis
  proof (cases "refCount n = 1")
    case False
    then show ?thesis using l assms(2) len by (simp add: ft_getMutableElementPtr_def)
  next
    case True
    then have rc1: "rc s ?a = 1" using l(3) by (simp add: rc_def)
    have "count_list (nodes tr) ?a \<noteq> 0" using mem by (simp add: count_list_eq_0_iff)
    then have one: "count_list (nodes tr) ?a = 1" using inv_count [OF assms(1,2), of ?a] rc1 by linarith
    have "\<exists>s'. ptr_write (?a, i) v s = Some s' \<and> ft_inv s' \<and> ft_abs s' = (ft_abs s)(t \<mapsto> (contents tr s)[idx := v])" for v
    proof -
      let ?s1 = "s\<lparr> heap := (heap s)(?a \<mapsto> n\<lparr> data := (data n)[i := v] \<rparr>) \<rparr>"
      have "(\<lambda>a. the (hdata ?s1 a)) = (\<lambda>a. the (hdata s a))(?a := (the (hdata s ?a))[i := v])"
        using l(3) by (auto simp: hdata_def fun_eq_iff)
      then have c: "contents tr ?s1 = (contents tr s)[idx := v]"
        using concat_map_update [of k "nodes tr" i "\<lambda>a. the (hdata s a)" v] l one
        by (simp add: contents_def hdata_def)
      have "nelems tr = length (contents tr s)" using inv_trace_ok [OF assms(1,2)] by (simp add: trace_ok_def)
      moreover have "set_trace t tr ?s1 = ?s1" using assms(2) by (simp add: set_trace_def fun_upd_idem)
      ultimately have "ft_inv ?s1 \<and> ft_abs ?s1 = (ft_abs s)(t \<mapsto> contents tr ?s1)"
        using c by (intro ft_inv_write [OF assms(1,2) mem l(3) rc1, where d = "(data n)[i := v]"]) auto
      with c l(3,4) show ?thesis by (simp add: ptr_write_def)
    qed
    moreover have "ft_getMutableElementPtr t idx s = Some (Some (?a, i))"
      using True l assms(2) len by (simp add: ft_getMutableElementPtr_def)
    ultimately show ?thesis by blast
  qed
qed

lemma ft_getElementAt_spec:
  assumes "ft_inv s" "traces s t = Some tr"
  shows "ft_getElementAt t idx s = (if idx < length (contents tr s) then Some (contents tr s ! idx) else None)"
proof -
  have len: "nelems tr = length (contents tr s)" using inv_trace_ok [OF assms] by (simp add: trace_ok_def)
  show ?thesis
  proof (cases "idx < length (contents tr s)")
    case True
    then obtain k i n where "locate (nodes tr) idx s = Some (nodes tr ! k, i)" "heap s (nodes tr ! k) = Some n"
      "data n ! i = contents tr s ! idx"
      using ft_locate [OF assms True] by blast
    with True assms len show ?thesis by (simp add: ft_getElementAt_def)
  next
    case False
    with assms len show ?thesis by (simp add: ft_getElementAt_def)
  qed
qed

subsection \<open>Iterators\<close>

text \<open>The iterator at a position of the concatenated segments.\<close>

fun it_at :: "'a list list \<Rightarrow> nat \<Rightarrow> fiter" where
  "it_at [] p = (0, 0)"
| "it_at (d # ds) p =
     (if p < length d then (0, p) else (Suc (fst (it_at ds (p - length d))), snd (it_at ds (p - length d))))"

lemma it_at_end: "length (concat D) \<le> p \<Longrightarrow> it_at D p = (length D, 0)"
  by (induction D arbitrary: p) auto

lemma it_at_nth: "n < length D \<Longrightarrow> e < length (D ! n) \<Longrightarrow> it_at D (length (concat (take n D)) + e) = (n, e)"
proof (induction D arbitrary: n)
  case (Cons d D)
  then show ?case by (cases n) auto
qed simp

lemma it_at_cases:
  "p < length (concat D) \<Longrightarrow>
     \<exists>n e. it_at D p = (n, e) \<and> n < length D \<and> e < length (D ! n) \<and> p = length (concat (take n D)) + e"
proof (induction D arbitrary: p)
  case (Cons d D)
  then show ?case
    using Cons.IH [of "p - length d"] by (cases "p < length d") fastforce+
qed simp

lemma skipForward_at:
  "n \<le> length D \<Longrightarrow> skipForward D n = it_at D (length (concat (take n D)))"
proof (induction D n rule: skipForward.induct)
  case (1 D n)
  show ?case
  proof (cases "n < length D \<and> D ! n = []")
    case True
    then have "length (concat (take (n + 1) D)) = length (concat (take n D))"
      by (simp add: take_Suc_conv_app_nth)
    with True 1 show ?thesis by (subst skipForward.simps) simp
  next
    case False
    then show ?thesis using 1 it_at_nth [of n D 0] it_at_end [of D "length (concat D)"]
      by (subst skipForward.simps) (cases "n = length D"; force)
  qed
qed

lemma skipBackward_at:
  "n < length D \<Longrightarrow> concat (take (Suc n) D) \<noteq> [] \<Longrightarrow>
     skipBackward D n = it_at D (length (concat (take (Suc n) D)) - 1)"
proof (induction D n rule: skipBackward.induct)
  case (1 D n)
  have t: "take (Suc n) D = take n D @ [D ! n]" using 1(2) by (simp add: take_Suc_conv_app_nth)
  show ?case
  proof (cases "D ! n = []")
    case True
    then have "n \<noteq> 0" using 1(3) t by (cases n) auto
    with True 1 t show ?thesis by (subst skipBackward.simps) simp
  next
    case False
    then have "length (concat (take (Suc n) D)) - 1 = length (concat (take n D)) + (length (D ! n) - 1)"
      using t by (cases "D ! n") auto
    with False show ?thesis using it_at_nth [of n D "length (D ! n) - 1"] 1(2)
      by (subst skipBackward.simps) simp
  qed
qed

lemma makeFromBegin_at: "makeFromBegin D = it_at D 0"
  using skipForward_at [of 0 D] by (simp add: makeFromBegin_def)

lemma makeFromEnd_at: "makeFromEnd D = it_at D (length (concat D))"
  by (simp add: makeFromEnd_def it_at_end)

lemma fiter_deref_at: "p < length (concat D) \<Longrightarrow> fiter_deref D (it_at D p) = Some (concat D ! p)"
  using it_at_cases [of p D] nth_concat_map [of _ D _ "\<lambda>x. x"] by (auto simp: fiter_deref_def)

lemma fiter_incr_at:
  assumes "p < length (concat D)"
  shows "fiter_incr D (it_at D p) = Some (it_at D (Suc p))"
proof -
  obtain n e where at: "it_at D p = (n, e)" "n < length D" "e < length (D ! n)" "p = length (concat (take n D)) + e"
    using it_at_cases [OF assms] by blast
  show ?thesis
  proof (cases "Suc e = length (D ! n)")
    case True
    then have "length (concat (take (Suc n) D)) = Suc p" using at by (simp add: take_Suc_conv_app_nth)
    with True at skipForward_at [of "Suc n" D] show ?thesis by (simp add: fiter_incr_def)
  next
    case False
    with at it_at_nth [of n D "Suc e"] show ?thesis by (simp add: fiter_incr_def)
  qed
qed

lemma fiter_decr_at:
  assumes "Suc p \<le> length (concat D)"
  shows "fiter_decr D (it_at D (Suc p)) = Some (it_at D p)"
proof (cases "Suc p = length (concat D)")
  case True
  then have "concat D \<noteq> []" by (metis length_0_conv nat.distinct(1))
  then have "D \<noteq> []" by auto
  with True \<open>concat D \<noteq> []\<close> skipBackward_at [of "length D - 1" D] it_at_end [of D "Suc p"] show ?thesis
    by (simp add: fiter_decr_def flip: True)
next
  case False
  then obtain n e where at: "it_at D (Suc p) = (n, e)" "n < length D" "e < length (D ! n)"
    "Suc p = length (concat (take n D)) + e"
    using it_at_cases [of "Suc p" D] assms by auto
  show ?thesis
  proof (cases e)
    case 0
    with at(4) have ne: "concat (take n D) \<noteq> []" by (metis add_0_right length_0_conv nat.distinct(1))
    then have "n \<noteq> 0" by (cases n) auto
    then have n: "n \<noteq> 0" "Suc (n - 1) = n" by auto
    have "p = length (concat (take n D)) - 1" using at(4) 0 by simp
    with 0 at ne skipBackward_at [of "n - 1" D] n show ?thesis by (simp add: fiter_decr_def)
  next
    case (Suc e')
    with at it_at_nth [of n D e'] show ?thesis by (simp add: fiter_decr_def)
  qed
qed

lemma std_equal_at:
  "p \<le> length (concat D) \<Longrightarrow> length (concat D) = length (concat E) \<Longrightarrow> length (concat D) - p \<le> fuel \<Longrightarrow>
     std_equal fuel D (it_at D p) E (it_at E p) = Some (drop p (concat D) = drop p (concat E))"
proof (induction fuel arbitrary: p)
  case 0
  then have "p = length (concat D)" by simp
  with 0 show ?case by (simp add: makeFromEnd_at)
next
  case (Suc fuel)
  show ?case
  proof (cases "p = length (concat D)")
    case True
    with Suc.prems show ?thesis by (simp add: makeFromEnd_at)
  next
    case False
    with Suc.prems have p: "p < length (concat D)" "p < length (concat E)" by auto
    have "it_at D p \<noteq> makeFromEnd D"
      using it_at_cases [OF p(1)] by (auto simp: makeFromEnd_def)
    moreover have "drop p (concat D) = drop p (concat E) \<longleftrightarrow>
        concat D ! p = concat E ! p \<and> drop (Suc p) (concat D) = drop (Suc p) (concat E)"
      using p by (simp add: Cons_nth_drop_Suc [symmetric])
    ultimately show ?thesis
      using Suc.IH [of "Suc p"] Suc.prems p by (simp add: fiter_deref_at fiter_incr_at)
  qed
qed

lemma concat_segments:
  assumes "ft_inv s" "traces s t = Some tr"
  shows "concat (segments tr s) = contents tr s"
proof -
  have "(case heap s a of None \<Rightarrow> [] | Some n \<Rightarrow> data n) = the (hdata s a)" if "a \<in> set (nodes tr)" for a
    using inv_node_data [OF assms that] by auto
  then show ?thesis by (simp add: segments_def contents_def cong: map_cong)
qed

lemma ft_inv_init [simp]: "ft_inv init_fstate"
  by (simp add: ft_inv_def init_fstate_def live_pos_def rc_def occ_def)

lemma ft_abs_init [simp]: "ft_abs init_fstate = Map.empty"
  by (simp add: ft_abs_def init_fstate_def fun_eq_iff)

lemma ft_abs_Some: "ft_abs s t = Some xs \<longleftrightarrow> (\<exists>tr. traces s t = Some tr \<and> xs = contents tr s)"
  by (auto simp: ft_abs_def)

lemma ft_abs_None: "ft_abs s t = None \<longleftrightarrow> traces s t = None"
  by (simp add: ft_abs_def)

interpretation fts: trace_store ft_exec ft_inv ft_abs
proof
  fix s :: "'a fstate" and op A
  assume inv: "ft_inv s" and run: "list_exec op (ft_abs s) = Some A"
  show "\<exists>s'. ft_exec op s = Some s' \<and> ft_inv s' \<and> ft_abs s' = A"
  proof (cases op)
    case (New t)
    then show ?thesis using run ft_new_spec [OF inv, of t] by (auto simp: ft_abs_None split: if_splits)
  next
    case (Fork t r)
    then show ?thesis using run ft_fork_spec [OF inv, of r _ t]
      by (auto simp: ft_abs_None ft_abs_Some split: if_splits)
  next
    case (Push t x)
    then show ?thesis using run ft_push_back_spec [OF inv, of t] by (auto simp: ft_abs_Some)
  next
    case (Clear t)
    then show ?thesis using run ft_clear_spec [OF inv, of t] by (auto simp: ft_abs_Some)
  next
    case (Swap t r)
    then show ?thesis using run ft_swap_spec [OF inv, of t _ r]
      by (auto simp: ft_abs_Some split: option.splits)
  next
    case (Reverse t)
    then show ?thesis using run ft_reverse_spec [OF inv, of t] by (auto simp: ft_abs_Some)
  next
    case (Destroy t)
    then show ?thesis using run ft_destroy_spec [OF inv, of t] by (auto simp: ft_abs_Some)
  qed
qed

subsection \<open>Nodes are frozen by a fork\<close>

text \<open>After a fork the two traces share all segments that hold elements, so no element of either
  can be modified any more.\<close>

lemma ft_fork_shape:
  assumes "ft_inv s" "traces s r = Some rhs" "ft_fork t r s = Some s'"
  obtains rhs' b where "traces s' r = Some rhs'" "t \<noteq> r" "hdata s' (last (nodes rhs')) = Some []"
    "traces s' t = Some \<lparr> nodes = butlast (nodes rhs') @ [b], nelems = nelems rhs' \<rparr>"
proof -
  have new: "traces s t = None" using assms(3) by (auto simp: ft_fork_def split: if_splits)
  then have tr: "t \<noteq> r" using assms(2) by auto
  have ne: "nodes rhs \<noteq> []" using inv_trace_ok [OF assms(1,2)] by (simp add: trace_ok_def)
  obtain n where n: "heap s (last (nodes rhs)) = Some n"
    using inv_node_data [OF assms(1,2), of "last (nodes rhs)"] ne by auto
  have "\<exists>rhs' s0. ft_inv s0 \<and> traces s0 r = Some rhs' \<and> traces s0 t = None \<and> hdata s0 (last (nodes rhs')) = Some [] \<and>
      ft_fork t r s = (do {
        s1 \<leftarrow> incs (nodes rhs') s0;
        let (b, s2) = new_node [] s1;
        s3 \<leftarrow> ref_dec (last (nodes rhs')) s2;
        Some (set_trace t \<lparr> nodes = butlast (nodes rhs') @ [b], nelems = nelems rhs' \<rparr> s3)
      })"
  proof (cases "data n = []")
    case True
    then show ?thesis using assms(1,2) new n ne by (intro exI [of _ rhs] exI [of _ s]) (simp add: ft_fork_def hdata_def)
  next
    case False
    obtain a s1 where a: "new_node [] s = (a, s1)" by force
    let ?rhs = "rhs\<lparr> nodes := nodes rhs @ [a] \<rparr>"
    have "ft_inv (set_trace r ?rhs s1)" "hdata s1 a = Some []" using ft_close_spec [OF assms(1,2) a] by auto
    then show ?thesis using False new n ne a tr new_node_spec(6) [OF a inv_live [OF assms(1)]] assms(2)
      by (intro exI [of _ ?rhs] exI [of _ "set_trace r ?rhs s1"]) (simp add: ft_fork_def Let_def)
  qed
  then obtain rhs' s0 where s0: "ft_inv s0" "traces s0 r = Some rhs'" "traces s0 t = None"
    "hdata s0 (last (nodes rhs')) = Some []"
    "ft_fork t r s = (do {
        s1 \<leftarrow> incs (nodes rhs') s0;
        let (b, s2) = new_node [] s1;
        s3 \<leftarrow> ref_dec (last (nodes rhs')) s2;
        Some (set_trace t \<lparr> nodes = butlast (nodes rhs') @ [b], nelems = nelems rhs' \<rparr> s3)
      })" by blast
  then obtain s1 b s2 s3 where s: "incs (nodes rhs') s0 = Some s1" "new_node [] s1 = (b, s2)"
    "ref_dec (last (nodes rhs')) s2 = Some s3"
    and s': "s' = set_trace t \<lparr> nodes = butlast (nodes rhs') @ [b], nelems = nelems rhs' \<rparr> s3"
    and abs: "ft_inv s'" "ft_abs s' = (ft_abs s0)(t \<mapsto> contents rhs' s0)"
    using ft_share_spec [OF s0(1-4)] assms(3) by (auto simp: Let_def)
  have inc: "traces s1 = traces s0" "hdata s1 = hdata s0" "live_pos s1"
    using incs_spec [of "nodes rhs'" s0] inv_node [OF s0(1,2)] inv_live [OF s0(1)] s(1) by fastforce+
  note nn = new_node_spec [OF s(2) inc(3)]
  have "traces s3 = traces s2" using s(3) by (auto simp: ref_dec_def split: if_splits)
  then have t3: "traces s' r = Some rhs'" using s' nn(6) inc(1) s0(2) tr by simp
  have ok: "nodes rhs' \<noteq> []" using inv_trace_ok [OF s0(1,2)] by (simp add: trace_ok_def)
  have "hdata s' (last (nodes rhs')) \<noteq> None"
    using inv_node_data [OF abs(1) t3, of "last (nodes rhs')"] ok by auto
  moreover have "hdata s2 (last (nodes rhs')) = Some []" using nn(5) inc(2) s0(4) by simp
  moreover have "hdata s' (last (nodes rhs')) = None \<or> hdata s' (last (nodes rhs')) = hdata s2 (last (nodes rhs'))"
    using s(3) s' by (auto simp: ref_dec_def hdata_def split: if_splits)
  ultimately show ?thesis using that [OF t3 tr] s' by auto
qed

lemma ft_fork_frozen:
  assumes "ft_inv s" "traces s r = Some rhs" "ft_fork t r s = Some s'" "idx < length (contents rhs s)"
  shows "ft_getMutableElementPtr r idx s' = Some None"
proof -
  have new: "traces s t = None" using assms(3) by (auto simp: ft_fork_def split: if_splits)
  have inv: "ft_inv s'" "ft_abs s' = (ft_abs s)(t \<mapsto> contents rhs s)"
    using ft_fork_spec [OF assms(1,2) new] assms(3) by auto
  obtain rhs' b where sh: "traces s' r = Some rhs'" "t \<noteq> r" "hdata s' (last (nodes rhs')) = Some []"
    "traces s' t = Some \<lparr> nodes = butlast (nodes rhs') @ [b], nelems = nelems rhs' \<rparr>"
    using ft_fork_shape [OF assms(1-3)] by blast
  have c: "contents rhs' s' = contents rhs s"
    using inv(2) sh(1,2) assms(2) by (auto simp: ft_abs_def fun_eq_iff dest!: spec [of _ r])
  obtain k i n where l: "locate (nodes rhs') idx s' = Some (nodes rhs' ! k, i)" "k < length (nodes rhs')"
    "heap s' (nodes rhs' ! k) = Some n" "i < length (data n)"
    using ft_locate [OF inv(1) sh(1)] assms(4) c by metis
  let ?a = "nodes rhs' ! k"
  have ne: "?a \<noteq> last (nodes rhs')" using sh(3) l(3,4) by (auto simp: hdata_def)
  have mem: "?a \<in> set (nodes rhs')" using l(2) by simp
  then have "?a \<in> set (butlast (nodes rhs'))"
    using ne append_butlast_last_id [of "nodes rhs'"] l(2)
    by (metis UnE empty_iff insert_iff length_0_conv list.set(1) list.simps(15) not_less_zero set_append)
  then have "0 < count_list (butlast (nodes rhs') @ [b]) ?a" "0 < count_list (nodes rhs') ?a"
    using mem count_list_eq_0_iff [of _ ?a] by (metis UnI1 gr0I set_append, metis gr0I)
  then have "2 \<le> rc s' ?a"
    using occ_two [OF inv_finite [OF inv(1)] sh(1,4), of ?a] sh(2) inv_rc [OF inv(1), of ?a] by auto
  then have "refCount n \<noteq> 1" using l(3) by (simp add: rc_def)
  moreover have "idx < nelems rhs'" using inv_trace_ok [OF inv(1) sh(1)] c assms(4) by (simp add: trace_ok_def)
  ultimately show ?thesis using l sh(1) by (simp add: ft_getMutableElementPtr_def)
qed

subsection \<open>Correctness\<close>

text \<open>C16. Forked traces behave as independent lists. Any sequence of constructions, forks,
  appends, clears, swaps, reversals and destructions that is legal when every trace is a list of
  its own runs on the shared store without touching a freed segment, keeps the store's
  invariant, and leaves every trace with the contents the lists have.\<close>

theorem traces_are_lists:
  assumes "run_ops list_exec ops Map.empty = Some A"
  shows "\<exists>s. run_ops ft_exec ops init_fstate = Some s \<and> ft_inv s \<and> ft_abs s = A"
  using fts.run_refines [of init_fstate ops A] assms by simp

theorem traces_are_lists_witness:
  "\<exists>s. run_ops ft_exec [New 0, Push 0 ''a'', Fork 1 0, Push 0 ''b'', Push 1 ''c'', Reverse 1] init_fstate = Some s \<and>
     ft_abs s 0 = Some [''a'', ''b''] \<and> ft_abs s 1 = Some [''c'', ''a'']"
  using traces_are_lists [of "[New 0, Push 0 ''a'', Fork 1 0, Push 0 ''b'', Push 1 ''c'', Reverse 1]"
      "[0 \<mapsto> [''a'', ''b''], 1 \<mapsto> [''c'', ''a'']]"]
  by (auto simp: fun_eq_iff)



text \<open>C33. No segment leaks: when no trace is left, every segment has been freed; and no live
  segment is unreferenced.\<close>

theorem traces_no_leak:
  assumes "run_ops list_exec ops Map.empty = Some Map.empty"
  shows "\<exists>s. run_ops ft_exec ops init_fstate = Some s \<and> heap s = Map.empty"
proof -
  obtain s where s: "run_ops ft_exec ops init_fstate = Some s" "ft_inv s" "ft_abs s = Map.empty"
    using fts.run_refines [of init_fstate ops Map.empty] assms by auto
  have "traces s t = None" for t using s(3) by (simp add: ft_abs_def fun_eq_iff)
  then have "dom (traces s) = {}" by (auto simp: dom_def)
  then have rc0: "rc s a = 0" for a using inv_rc [OF s(2)] by (simp add: occ_def)
  have "heap s a = None" for a
    using inv_live [OF s(2)] rc0 [of a] by (cases "heap s a") (fastforce simp: rc_def live_pos_def)+
  with s(1) show ?thesis by auto
qed

theorem traces_no_leak_witness:
  "\<exists>s. run_ops ft_exec [New 0, Push 0 ''a'', Fork 1 0, Destroy 0, Push 1 ''b'', Destroy 1] init_fstate = Some s \<and>
     heap s = Map.empty"
  using traces_no_leak [of "[New 0, Push 0 ''a'', Fork 1 0, Destroy 0, Push 1 ''b'', Destroy 1]"]
  by (simp add: fun_eq_iff)

text \<open>Element access. \<^verbatim>\<open>getElementAt\<close> returns the element at the index.
  \<^verbatim>\<open>getMutableElementPtr\<close> returns a null pointer or a pointer such that assigning
  through it changes that element of this trace and nothing in any other trace.\<close>

theorem element_access:
  assumes "ft_inv s" "ft_abs s t = Some xs" "idx < length xs"
  shows "ft_getElementAt t idx s = Some (xs ! idx) \<and>
    (ft_getMutableElementPtr t idx s = Some None \<or>
     (\<exists>p. ft_getMutableElementPtr t idx s = Some (Some p) \<and>
        (\<forall>v. \<exists>s'. ptr_write p v s = Some s' \<and> ft_inv s' \<and> ft_abs s' = (ft_abs s)(t \<mapsto> xs[idx := v]))))"
  using assms ft_mutable_spec [OF assms(1)] ft_getElementAt_spec [OF assms(1)] by (auto simp: ft_abs_Some)

definition two_traces :: "nat fstate" where
  "two_traces =
     \<lparr> heap = [0 \<mapsto> \<lparr> refCount = 2, data = [5] \<rparr>, 1 \<mapsto> \<lparr> refCount = 1, data = [6] \<rparr>, 2 \<mapsto> \<lparr> refCount = 1, data = [] \<rparr>],
       nextAddr = 3,
       traces = [0 \<mapsto> \<lparr> nodes = [0, 1], nelems = 2 \<rparr>, 1 \<mapsto> \<lparr> nodes = [0, 2], nelems = 1 \<rparr>] \<rparr>"

lemma two_traces_inv: "ft_inv two_traces"
  by (auto simp: ft_inv_def two_traces_def live_pos_def rc_def occ_def trace_ok_def contents_def hdata_def
      split: if_splits)

theorem element_access_witness:
  "ft_getElementAt 0 1 two_traces = Some 6 \<and> ft_getMutableElementPtr 0 1 two_traces = Some (Some (1, 0)) \<and>
   ft_getMutableElementPtr 1 0 two_traces = Some None"
proof -
  have "ft_abs two_traces 0 = Some [5, 6]"
    by (simp add: ft_abs_def two_traces_def contents_def hdata_def)
  then have "ft_getElementAt 0 1 two_traces = Some 6"
    using element_access [OF two_traces_inv, of 0 "[5, 6]" 1] by simp
  then show ?thesis by (simp add: ft_getMutableElementPtr_def two_traces_def)
qed

text \<open>C31. Iterators over a trace. The begin iterator is at position 0 and the end iterator at
  the size; increment and decrement move by one position, skipping empty segments in both
  directions; dereferencing reads the element at the position.\<close>

theorem trace_iterators:
  assumes "ft_inv s" "traces s t = Some tr"
  defines "D \<equiv> segments tr s"
  shows "makeFromBegin D = it_at D 0 \<and> makeFromEnd D = it_at D (nelems tr) \<and>
    (\<forall>p < nelems tr. fiter_deref D (it_at D p) = Some (contents tr s ! p) \<and>
       fiter_incr D (it_at D p) = Some (it_at D (Suc p)) \<and>
       fiter_decr D (it_at D (Suc p)) = Some (it_at D p) \<and> it_at D p \<noteq> makeFromEnd D)"
proof -
  have c: "concat D = contents tr s" using concat_segments [OF assms(1,2)] by (simp add: D_def)
  then have len: "nelems tr = length (concat D)" using inv_trace_ok [OF assms(1,2)] by (simp add: trace_ok_def)
  have "it_at D p \<noteq> makeFromEnd D" if "p < length (concat D)" for p
    using it_at_cases [OF that] by (auto simp: makeFromEnd_def)
  then show ?thesis
    unfolding len by (auto simp: makeFromBegin_at makeFromEnd_at fiter_deref_at fiter_incr_at fiter_decr_at c)
qed

theorem trace_iterators_witness:
  "makeFromEnd (segments \<lparr> nodes = [0, 1], nelems = 2 \<rparr> two_traces) =
     it_at (segments \<lparr> nodes = [0, 1], nelems = 2 \<rparr> two_traces) 2"
  using trace_iterators [OF two_traces_inv, of 0 "\<lparr> nodes = [0, 1], nelems = 2 \<rparr>"]
  by (simp add: two_traces_def)

text \<open>C32. \<^verbatim>\<open>operator==\<close> on two traces stops and compares their contents, whatever
  the segments.\<close>

theorem trace_equality:
  assumes "ft_inv s" "ft_abs s t = Some xs" "ft_abs s r = Some ys"
  shows "ft_equal t r s = Some (xs = ys)"
proof -
  obtain tr rhs where tr: "traces s t = Some tr" "xs = contents tr s" and rhs: "traces s r = Some rhs" "ys = contents rhs s"
    using assms by (auto simp: ft_abs_Some)
  have c: "concat (segments tr s) = xs" "concat (segments rhs s) = ys"
    using concat_segments [OF assms(1)] tr rhs by auto
  have len: "nelems tr = length xs" "nelems rhs = length ys"
    using inv_trace_ok [OF assms(1)] tr rhs by (auto simp: trace_ok_def)
  have "std_equal (length xs) (segments tr s) (makeFromBegin (segments tr s)) (segments rhs s)
      (makeFromBegin (segments rhs s)) = Some (xs = ys)" if "length xs = length ys"
    using std_equal_at [of 0 "segments tr s" "segments rhs s" "length xs"] that c by (simp add: makeFromBegin_at)
  with tr(1) rhs(1) len show ?thesis by (auto simp: ft_equal_def)
qed

theorem trace_equality_witness: "ft_equal 0 1 two_traces = Some False"
proof -
  have "ft_abs two_traces 0 = Some [5, 6]" "ft_abs two_traces 1 = Some [5]"
    by (simp_all add: ft_abs_def two_traces_def contents_def hdata_def)
  then show ?thesis using trace_equality [OF two_traces_inv, of 0 "[5, 6]" 1 "[5]"] by simp
qed

end
