(* ===== verification/HB_Graph.thy ===== *)
theory HB_Graph
  imports Immutable_Map Forkable_Trace
begin

text \<open>
  The happens-before graph (\<^verbatim>\<open>include/ics/HBGraph.h\<close>,
  \<^verbatim>\<open>lib/ICS/HBGraph.cpp\<close>) that the symbolic executor records for one execution
  state. The nodes are kept in a forkable trace, the groups and the per-thread counters in
  immutable maps, all three used through the operations of their theories. A failed assertion
  of the source is \<^verbatim>\<open>None\<close>.

  Calling contexts are not part of the sources at hand; what the graph asks of them (emptiness,
  whether the innermost frame is an ignorable uClibc wrapper, and the stripping of wrappers) is
  given by the environment record. Thread identifiers are any linearly ordered type.
\<close>

subsection \<open>Nodes and graphs\<close>

record ('u, 'c, 'o) hbnode =
  threadOrder :: nat
  tuid :: 'u
  callctx :: 'c
  inputObj :: "'o option"
  incoming :: "nat list"

text \<open>\<^verbatim>\<open>gnodes\<close> is the identity of the graph's trace; \<^verbatim>\<open>replayedGraph\<close>
  that of the immutable graph being replayed, whose nodes are all that is read of it.
  \<^verbatim>\<open>kstate\<close> is false for an immutable graph.\<close>

record 'u hbgraph =
  kstate :: bool
  gnodes :: nat
  groupMap :: "(nat, nat iset) imap"
  threadOrders :: "('u, nat) imap"
  replayedGraph :: "nat option"
  replayedGraphMaxId :: nat

text \<open>The store of all traces, the graph of this execution state, and the field
  \<^verbatim>\<open>lastHbNode\<close> of each of its threads.\<close>

record ('u, 'c, 'o) hbstate =
  store :: "('u, 'c, 'o) hbnode fstate"
  graph :: "'u hbgraph"
  lastHbNode :: "'u \<rightharpoonup> nat"

record 'c hbenv =
  ctxEmpty :: "'c \<Rightarrow> bool"
  ctxIgnorable :: "'c \<Rightarrow> bool"
  ctxStrip :: "'c \<Rightarrow> 'c"
  alwaysReplayInputs :: bool

subsection \<open>Reading nodes\<close>

definition hb_size :: "nat \<Rightarrow> ('u, 'c, 'o) hbnode fstate \<Rightarrow> nat option" where
  "hb_size t st = map_option nelems (traces st t)"

definition hb_getNode :: "nat \<Rightarrow> nat \<Rightarrow> ('u, 'c, 'o) hbnode fstate \<Rightarrow> ('u, 'c, 'o) hbnode option" where
  "hb_getNode t nid st = do {
     assert_opt (nid \<noteq> 0);
     ft_getElementAt t (nid - 1) st
   }"

definition hb_getMutableNode :: "nat \<Rightarrow> ('u, 'c, 'o) hbstate \<Rightarrow> (nat \<times> nat) option" where
  "hb_getMutableNode nid s = do {
     assert_opt (kstate (graph s));
     assert_opt (nid \<noteq> 0);
     p \<leftarrow> ft_getMutableElementPtr (gnodes (graph s)) (nid - 1) (store s);
     p
   }"

definition hbnode_equal :: "('u, 'c, 'o) hbnode \<Rightarrow> ('u, 'c, 'o) hbnode \<Rightarrow> bool" where
  "hbnode_equal a b \<longleftrightarrow>
     threadOrder a = threadOrder b \<and> tuid a = tuid b \<and> callctx a = callctx b \<and>
     inputObj a = inputObj b \<and> incoming a = incoming b"

text \<open>The loops of \<^verbatim>\<open>equalRange\<close> and \<^verbatim>\<open>operator==\<close>. The bound of
  \<^verbatim>\<open>equalRange\<close> is computed in 32 bits.\<close>

fun nodes_equal_loop ::
  "nat \<Rightarrow> nat \<Rightarrow> nat \<Rightarrow> nat \<Rightarrow> nat \<Rightarrow> ('u, 'c, 'o) hbnode fstate \<Rightarrow> bool option" where
  "nodes_equal_loop t a r b 0 st = Some True"
| "nodes_equal_loop t a r b (Suc n) st = do {
     x \<leftarrow> hb_getNode t a st;
     y \<leftarrow> hb_getNode r b st;
     if \<not> hbnode_equal x y then Some False else nodes_equal_loop t (a + 1) r (b + 1) n st
   }"

definition last_id :: "nat \<Rightarrow> nat \<Rightarrow> nat" where
  "last_id first n = (first + n + (2 ^ 32 - 1)) mod 2 ^ 32"

definition hb_equalRange ::
  "nat \<Rightarrow> nat \<Rightarrow> nat \<Rightarrow> nat \<Rightarrow> nat \<Rightarrow> ('u, 'c, 'o) hbnode fstate \<Rightarrow> bool option" where
  "hb_equalRange aGraph aFirst bGraph bFirst nnodes st = do {
     amax \<leftarrow> hb_size aGraph st;
     bmax \<leftarrow> hb_size bGraph st;
     if last_id aFirst nnodes > amax \<or> last_id bFirst nnodes > bmax then Some False
     else nodes_equal_loop aGraph aFirst bGraph bFirst nnodes st
   }"

definition hb_equal :: "nat \<Rightarrow> nat \<Rightarrow> ('u, 'c, 'o) hbnode fstate \<Rightarrow> bool option" where
  "hb_equal t r st = do {
     n \<leftarrow> hb_size t st;
     m \<leftarrow> hb_size r st;
     if n \<noteq> m then Some False else nodes_equal_loop t 1 r 1 n st
   }"

subsection \<open>Replay\<close>

definition hb_startReplay :: "nat \<Rightarrow> nat \<Rightarrow> ('u, 'c, 'o) hbstate \<Rightarrow> ('u, 'c, 'o) hbstate option" where
  "hb_startReplay toReplay maxId s = do {
     assert_opt (replayedGraph (graph s) = None);
     Some (s\<lparr> graph := (graph s)\<lparr> replayedGraph := Some toReplay, replayedGraphMaxId := maxId \<rparr> \<rparr>)
   }"

definition replay_match :: "('u, 'c, 'o) hbnode \<Rightarrow> ('u, 'c, 'o) hbnode \<Rightarrow> bool" where
  "replay_match curn old \<longleftrightarrow>
     threadOrder curn = threadOrder old \<and> tuid curn = tuid old \<and> callctx curn = callctx old \<and>
     length (incoming curn) \<le> length (incoming old) \<and>
     (\<forall>k < length (incoming curn). incoming curn ! k = incoming old ! k)"

definition hb_checkNodeForReplay ::
  "'c hbenv \<Rightarrow> ('u, 'c, 'o) hbnode \<Rightarrow> nat \<Rightarrow> ('u, 'c, 'o) hbstate \<Rightarrow> unit option" where
  "hb_checkNodeForReplay env curn nid s =
     (if \<not> alwaysReplayInputs env then Some ()
      else case replayedGraph (graph s) of
        None \<Rightarrow> Some ()
      | Some r \<Rightarrow>
          if nid > replayedGraphMaxId (graph s) then Some ()
          else do {
            old \<leftarrow> hb_getNode r nid (store s);
            assert_opt (replay_match curn old)
          })"

subsection \<open>Adding nodes\<close>

definition hb_addNode ::
  "'c hbenv \<Rightarrow> 'u::linorder \<Rightarrow> 'c \<Rightarrow> 'o option \<Rightarrow> nat \<Rightarrow> ('u, 'c, 'o) hbstate \<Rightarrow>
     (nat \<times> ('u, 'c, 'o) hbstate) option" where
  "hb_addNode env tu ctx inp lastNode s = do {
     assert_opt (kstate (graph s));
     assert_opt (\<not> ctxEmpty env ctx);
     if ctxIgnorable env ctx then Some (lastNode, s)
     else do {
       let ctx = ctxStrip env ctx;
       assert_opt (\<not> ctxEmpty env ctx);
       n \<leftarrow> hb_size (gnodes (graph s)) (store s);
       let nid = n + 1;
       let order = (case map_lookup tu (threadOrders (graph s)) of None \<Rightarrow> 1 | Some currOrder \<Rightarrow> snd currOrder + 1);
       let node = \<lparr> threadOrder = order, tuid = tu, callctx = ctx, inputObj = inp,
                    incoming = (if lastNode \<noteq> 0 then [lastNode] else []) \<rparr>;
       st \<leftarrow> ft_push_back (gnodes (graph s)) node (store s);
       let s = s\<lparr> graph := (graph s)\<lparr> threadOrders := map_replace (tu, order) (threadOrders (graph s)) \<rparr>,
                  store := st \<rparr>;
       hb_checkNodeForReplay env node nid s;
       Some (nid, s)
     }
   }"

text \<open>The three ways to add a node for a thread. The calling contexts of the threads at that
  moment, as \<^verbatim>\<open>GetCallCxtForNode\<close> computes them, are arguments.\<close>

definition hb_addNodeForInput ::
  "'c hbenv \<Rightarrow> 'u::linorder \<Rightarrow> 'c \<Rightarrow> 'o \<Rightarrow> ('u, 'c, 'o) hbstate \<Rightarrow> (nat \<times> ('u, 'c, 'o) hbstate) option" where
  "hb_addNodeForInput env tu ctx inp s = do {
     l \<leftarrow> lastHbNode s tu;
     assert_opt (\<not> ctxEmpty env ctx);
     (nid, s) \<leftarrow> hb_addNode env tu ctx (Some inp) l s;
     Some (nid, s\<lparr> lastHbNode := (lastHbNode s)(tu \<mapsto> nid) \<rparr>)
   }"

definition hb_addNodeForThread ::
  "'c hbenv \<Rightarrow> 'u::linorder \<Rightarrow> 'c \<Rightarrow> ('u, 'c, 'o) hbstate \<Rightarrow> (nat \<times> ('u, 'c, 'o) hbstate) option" where
  "hb_addNodeForThread env tu ctx s = do {
     l \<leftarrow> lastHbNode s tu;
     assert_opt (\<not> ctxEmpty env ctx);
     (nid, s) \<leftarrow> hb_addNode env tu ctx None l s;
     Some (nid, s\<lparr> lastHbNode := (lastHbNode s)(tu \<mapsto> nid) \<rparr>)
   }"

definition hb_addNodeForNewThread ::
  "'c hbenv \<Rightarrow> 'u::linorder \<Rightarrow> 'c \<Rightarrow> ('u \<times> 'c) option \<Rightarrow> ('u, 'c, 'o) hbstate \<Rightarrow>
     (nat \<times> ('u, 'c, 'o) hbstate) option" where
  "hb_addNodeForNewThread env tu ctx creator s = do {
     assert_opt (lastHbNode s tu \<noteq> None);
     (l, s) \<leftarrow>
       (case creator of
          Some (cr, crctx) \<Rightarrow> hb_addNodeForThread env cr crctx s
        | None \<Rightarrow> Some (0, s));
     assert_opt (\<not> ctxEmpty env ctx);
     (nid, s) \<leftarrow> hb_addNode env tu ctx None l s;
     Some (nid, s\<lparr> lastHbNode := (lastHbNode s)(tu \<mapsto> nid) \<rparr>)
   }"

definition hb_replayNextInput ::
  "'c hbenv \<Rightarrow> 'u::linorder \<Rightarrow> 'c \<Rightarrow> ('u, 'c, 'o) hbstate \<Rightarrow> (nat \<times> ('u, 'c, 'o) hbstate) option" where
  "hb_replayNextInput env tu ctx s = do {
     n \<leftarrow> hb_size (gnodes (graph s)) (store s);
     let nextId = n + 1;
     case replayedGraph (graph s) of
       None \<Rightarrow> Some (0, s)
     | Some r \<Rightarrow>
         if nextId > replayedGraphMaxId (graph s) then Some (0, s)
         else do {
           old \<leftarrow> hb_getNode r nextId (store s);
           case inputObj old of
             None \<Rightarrow> if \<not> alwaysReplayInputs env then Some (0, s) else None
           | Some obj \<Rightarrow> do {
               (nid, s) \<leftarrow> hb_addNodeForInput env tu ctx obj s;
               assert_opt (nid = nextId);
               Some (nid, s)
             }
         }
   }"

subsection \<open>Adding edges\<close>

definition hb_addEdge ::
  "'c hbenv \<Rightarrow> nat \<Rightarrow> nat \<Rightarrow> ('u, 'c, 'o) hbstate \<Rightarrow> ('u, 'c, 'o) hbstate option" where
  "hb_addEdge env from to s =
     (if from = 0 \<or> to = 0 \<or> from = to then Some s
      else do {
        p \<leftarrow> hb_getMutableNode to s;
        toNode \<leftarrow> hb_getNode (gnodes (graph s)) to (store s);
        if from \<in> set (incoming toNode) then Some s
        else do {
          let toNode = toNode\<lparr> incoming := incoming toNode @ [from] \<rparr>;
          st \<leftarrow> ptr_write p toNode (store s);
          let s = s\<lparr> store := st \<rparr>;
          hb_checkNodeForReplay env toNode to s;
          Some s
        }
      })"

text \<open>The walk of \<^verbatim>\<open>addConservativeEdge\<close> from the newest node to the oldest,
  collecting the first node met of each thread not visited yet.\<close>

fun conservative_loop ::
  "nat \<Rightarrow> nat \<Rightarrow> 'u set \<Rightarrow> ('u, 'c, 'o) hbnode fstate \<Rightarrow> nat list option" where
  "conservative_loop t 0 visited st = Some []"
| "conservative_loop t (Suc k) visited st = do {
     n \<leftarrow> hb_getNode t (Suc k) st;
     if tuid n \<in> visited then conservative_loop t k visited st
     else map_option ((#) (Suc k)) (conservative_loop t k (insert (tuid n) visited) st)
   }"

definition hb_addConservativeEdge ::
  "'c hbenv \<Rightarrow> nat \<Rightarrow> ('u, 'c, 'o) hbstate \<Rightarrow> ('u, 'c, 'o) hbstate option" where
  "hb_addConservativeEdge env to s =
     (if to = 0 then Some s
      else do {
        p \<leftarrow> hb_getMutableNode to s;
        toNode \<leftarrow> hb_getNode (gnodes (graph s)) to (store s);
        n \<leftarrow> hb_size (gnodes (graph s)) (store s);
        froms \<leftarrow> conservative_loop (gnodes (graph s)) n {tuid toNode} (store s);
        let toNode = toNode\<lparr> incoming := incoming toNode @ froms \<rparr>;
        st \<leftarrow> ptr_write p toNode (store s);
        let s = s\<lparr> store := st \<rparr>;
        hb_checkNodeForReplay env toNode to s;
        Some s
      })"

definition hb_addSourceSinkEdges ::
  "'c hbenv \<Rightarrow> 'u::linorder \<Rightarrow> 'c \<Rightarrow> nat \<Rightarrow> nat \<Rightarrow> ('u, 'c, 'o) hbstate \<Rightarrow> ('u, 'c, 'o) hbstate option" where
  "hb_addSourceSinkEdges env tu ctx source sink s = do {
     assert_opt (kstate (graph s));
     assert_opt (lastHbNode s tu \<noteq> None);
     if source = 0 \<and> sink = 0 then Some s
     else if source \<noteq> 0 \<and> sink = 0 then do {
       (t, s) \<leftarrow> hb_addNodeForThread env tu ctx s;
       hb_addEdge env source t s
     }
     else if source = 0 \<and> sink \<noteq> 0 then do {
       (t, s) \<leftarrow> hb_addNodeForThread env tu ctx s;
       hb_addEdge env t sink s
     }
     else if source = sink then do {
       (t0, s) \<leftarrow> hb_addNodeForThread env tu ctx s;
       (t1, s) \<leftarrow> hb_addNodeForThread env tu ctx s;
       s \<leftarrow> hb_addEdge env t0 source s;
       hb_addEdge env source t1 s
     }
     else do {
       (t, s) \<leftarrow> hb_addNodeForThread env tu ctx s;
       s \<leftarrow> hb_addEdge env source t s;
       hb_addEdge env t sink s
     }
   }"

text \<open>The variant for a set of threads, visited in the order of their identifiers. The calling
  contexts are given by a function of the thread.\<close>

fun hb_addSourceSinkEdges_loop ::
  "'c hbenv \<Rightarrow> 'u::linorder list \<Rightarrow> ('u \<Rightarrow> 'c) \<Rightarrow> nat \<Rightarrow> nat \<Rightarrow> ('u, 'c, 'o) hbstate \<Rightarrow> ('u, 'c, 'o) hbstate option" where
  "hb_addSourceSinkEdges_loop env [] ctx source sink s = Some s"
| "hb_addSourceSinkEdges_loop env (tu # tus) ctx source sink s =
     Option.bind (hb_addSourceSinkEdges env tu (ctx tu) source sink s)
       (hb_addSourceSinkEdges_loop env tus ctx source sink)"

definition hb_addSourceSinkEdgesAll ::
  "'c hbenv \<Rightarrow> 'u::linorder set \<Rightarrow> ('u \<Rightarrow> 'c) \<Rightarrow> nat \<Rightarrow> nat \<Rightarrow> ('u, 'c, 'o) hbstate \<Rightarrow> ('u, 'c, 'o) hbstate option" where
  "hb_addSourceSinkEdgesAll env tuids ctx source sink s =
     (if source = 0 \<and> sink = 0 then Some s
      else hb_addSourceSinkEdges_loop env (sorted_list_of_set tuids) ctx source sink s)"

subsection \<open>Groups\<close>

definition hb_addNodeToGroup :: "nat \<Rightarrow> nat \<Rightarrow> ('u, 'c, 'o) hbstate \<Rightarrow> ('u, 'c, 'o) hbstate" where
  "hb_addNodeToGroup node grp s =
     (let nodes = (case map_lookup grp (groupMap (graph s)) of
                     Some g \<Rightarrow> set_insert node (snd g)
                   | None \<Rightarrow> set_insert node Terminator)
      in s\<lparr> graph := (graph s)\<lparr> groupMap := map_replace (grp, nodes) (groupMap (graph s)) \<rparr> \<rparr>)"

definition hb_removeGroup :: "nat \<Rightarrow> ('u, 'c, 'o) hbstate \<Rightarrow> ('u, 'c, 'o) hbstate" where
  "hb_removeGroup grp s = s\<lparr> graph := (graph s)\<lparr> groupMap := map_remove grp (groupMap (graph s)) \<rparr> \<rparr>"

fun edges_from :: "'c hbenv \<Rightarrow> nat list \<Rightarrow> nat \<Rightarrow> ('u, 'c, 'o) hbstate \<Rightarrow> ('u, 'c, 'o) hbstate option" where
  "edges_from env [] nodeTo s = Some s"
| "edges_from env (n # ns) nodeTo s = Option.bind (hb_addEdge env n nodeTo s) (edges_from env ns nodeTo)"

fun edges_to :: "'c hbenv \<Rightarrow> nat \<Rightarrow> nat list \<Rightarrow> ('u, 'c, 'o) hbstate \<Rightarrow> ('u, 'c, 'o) hbstate option" where
  "edges_to env nodeFrom [] s = Some s"
| "edges_to env nodeFrom (n # ns) s = Option.bind (hb_addEdge env nodeFrom n s) (edges_to env nodeFrom ns)"

definition hb_addEdgesFromGroup ::
  "'c hbenv \<Rightarrow> nat \<Rightarrow> nat \<Rightarrow> ('u, 'c, 'o) hbstate \<Rightarrow> ('u, 'c, 'o) hbstate option" where
  "hb_addEdgesFromGroup env groupFrom nodeTo s = do {
     assert_opt (kstate (graph s));
     case map_lookup groupFrom (groupMap (graph s)) of
       None \<Rightarrow> Some s
     | Some g \<Rightarrow> Option.bind (tree_elements (snd g)) (\<lambda>ns. edges_from env ns nodeTo s)
   }"

definition hb_addEdgesToGroup ::
  "'c hbenv \<Rightarrow> nat \<Rightarrow> nat \<Rightarrow> ('u, 'c, 'o) hbstate \<Rightarrow> ('u, 'c, 'o) hbstate option" where
  "hb_addEdgesToGroup env nodeFrom groupTo s = do {
     assert_opt (kstate (graph s));
     case map_lookup groupTo (groupMap (graph s)) of
       None \<Rightarrow> Some s
     | Some g \<Rightarrow> Option.bind (tree_elements (snd g)) (\<lambda>ns. edges_to env nodeFrom ns s)
   }"

subsection \<open>Clearing and cloning\<close>

definition hb_clear :: "('u, 'c, 'o) hbstate \<Rightarrow> ('u, 'c, 'o) hbstate option" where
  "hb_clear s = do {
     assert_opt (kstate (graph s));
     st \<leftarrow> ft_clear (gnodes (graph s)) (store s);
     Some (s\<lparr> store := st,
              graph := (graph s)\<lparr> groupMap := map_empty, threadOrders := map_empty, replayedGraph := None \<rparr>,
              lastHbNode := (\<lambda>u. map_option (\<lambda>_. 0) (lastHbNode s u)) \<rparr>)
   }"

definition hb_makeImmutableClone ::
  "nat \<Rightarrow> ('u, 'c, 'o) hbstate \<Rightarrow> ('u hbgraph \<times> ('u, 'c, 'o) hbstate) option" where
  "hb_makeImmutableClone t s = do {
     st \<leftarrow> ft_fork t (gnodes (graph s)) (store s);
     Some ((graph s)\<lparr> kstate := False, gnodes := t, replayedGraph := None \<rparr>, s\<lparr> store := st \<rparr>)
   }"

subsection \<open>Iterating over one thread's nodes\<close>

text \<open>\<^verbatim>\<open>thread_order_iterator\<close>: an iterator of the trace that skips the nodes of
  other threads. The skip loop is bounded by the number of nodes.\<close>

fun skipToMatchingThread ::
  "'u \<Rightarrow> ('u, 'c, 'o) hbnode list list \<Rightarrow> nat \<Rightarrow> fiter \<Rightarrow> fiter option" where
  "skipToMatchingThread u D fuel it =
     (if it = makeFromEnd D then Some it
      else Option.bind (fiter_deref D it) (\<lambda>n.
        if tuid n = u then Some it
        else (case fuel of
                0 \<Rightarrow> None
              | Suc fuel \<Rightarrow> Option.bind (fiter_incr D it) (skipToMatchingThread u D fuel))))"

fun toi_advance :: "'a list list \<Rightarrow> nat \<Rightarrow> fiter \<Rightarrow> fiter option" where
  "toi_advance D 0 it = Some it"
| "toi_advance D (Suc n) it = (if it = makeFromEnd D then Some it else Option.bind (fiter_incr D it) (toi_advance D n))"

definition threadOrderFrom :: "'u \<Rightarrow> ('u, 'c, 'o) hbnode list list \<Rightarrow> nat \<Rightarrow> fiter option" where
  "threadOrderFrom u D startId =
     Option.bind (toi_advance D (startId - 1) (makeFromBegin D)) (skipToMatchingThread u D (length (concat D)))"

definition toi_incr :: "'u \<Rightarrow> ('u, 'c, 'o) hbnode list list \<Rightarrow> fiter \<Rightarrow> fiter option" where
  "toi_incr u D it = Option.bind (fiter_incr D it) (skipToMatchingThread u D (length (concat D)))"

text \<open>The loop \<^verbatim>\<open>for (n = threadOrderBegin(u, first); n != threadOrderEnd(u, last); ++n)\<close>.\<close>

fun toi_collect ::
  "'u \<Rightarrow> ('u, 'c, 'o) hbnode list list \<Rightarrow> nat \<Rightarrow> fiter \<Rightarrow> fiter \<Rightarrow> ('u, 'c, 'o) hbnode list option" where
  "toi_collect u D fuel it itEnd =
     (if it = itEnd then Some []
      else case fuel of
        0 \<Rightarrow> None
      | Suc fuel \<Rightarrow> do {
          n \<leftarrow> fiter_deref D it;
          it' \<leftarrow> toi_incr u D it;
          map_option ((#) n) (toi_collect u D fuel it' itEnd)
        })"

definition threadOrderRange ::
  "'u \<Rightarrow> nat \<Rightarrow> nat \<Rightarrow> ('u, 'c, 'o) hbnode list list \<Rightarrow> ('u, 'c, 'o) hbnode list option" where
  "threadOrderRange u first lastId D = do {
     it \<leftarrow> threadOrderFrom u D first;
     itEnd \<leftarrow> threadOrderFrom u D (lastId + 1);
     toi_collect u D (length (concat D)) it itEnd
   }"

declare skipToMatchingThread.simps [simp del] toi_collect.simps [simp del]

subsection \<open>What a graph has to satisfy\<close>

text \<open>The nodes of the graph as a list; node \<^verbatim>\<open>i\<close> of the source is element
  \<^verbatim>\<open>i - 1\<close>. \<^verbatim>\<open>last_of\<close> is the identifier of the newest node of a
  thread, 0 if it has none.\<close>

definition hb_nodes :: "('u, 'c, 'o) hbstate \<Rightarrow> ('u, 'c, 'o) hbnode list" where
  "hb_nodes s = (case ft_abs (store s) (gnodes (graph s)) of None \<Rightarrow> [] | Some ns \<Rightarrow> ns)"

fun last_of_rev :: "'u \<Rightarrow> 'u list \<Rightarrow> nat" where
  "last_of_rev u [] = 0"
| "last_of_rev u (v # us) = (if v = u then length us + 1 else last_of_rev u us)"

definition last_of :: "'u \<Rightarrow> ('u, 'c, 'o) hbnode list \<Rightarrow> nat" where
  "last_of u ns = last_of_rev u (rev (map tuid ns))"

definition thread_count :: "'u \<Rightarrow> ('u, 'c, 'o) hbnode list \<Rightarrow> nat" where
  "thread_count u ns = count_list (map tuid ns) u"

definition orders_ok :: "('u, 'c, 'o) hbnode list \<Rightarrow> bool" where
  "orders_ok ns \<longleftrightarrow> (\<forall>i < length ns. threadOrder (ns ! i) = thread_count (tuid (ns ! i)) (take (Suc i) ns))"

definition chain_ok :: "('u, 'c, 'o) hbnode list \<Rightarrow> bool" where
  "chain_ok ns \<longleftrightarrow> (\<forall>i < length ns. last_of (tuid (ns ! i)) (take i ns) \<noteq> 0 \<longrightarrow>
     last_of (tuid (ns ! i)) (take i ns) \<in> set (incoming (ns ! i)))"

definition edges_ok :: "('u, 'c, 'o) hbnode list \<Rightarrow> bool" where
  "edges_ok ns \<longleftrightarrow> (\<forall>i < length ns. \<forall>e \<in> set (incoming (ns ! i)). 1 \<le> e \<and> e \<le> length ns \<and> e \<noteq> Suc i)"

definition graph_ok :: "('u, 'c, 'o) hbnode list \<Rightarrow> bool" where
  "graph_ok ns \<longleftrightarrow> orders_ok ns \<and> chain_ok ns \<and> edges_ok ns"

definition replay_ok :: "'c hbenv \<Rightarrow> ('u, 'c, 'o) hbstate \<Rightarrow> bool" where
  "replay_ok env s \<longleftrightarrow>
     (case replayedGraph (graph s) of
        None \<Rightarrow> True
      | Some r \<Rightarrow> r \<noteq> gnodes (graph s) \<and>
          (\<exists>rs. ft_abs (store s) r = Some rs \<and>
             (alwaysReplayInputs env \<longrightarrow>
                (\<forall>i < length (hb_nodes s). Suc i \<le> replayedGraphMaxId (graph s) \<longrightarrow>
                   i < length rs \<and> replay_match (hb_nodes s ! i) (rs ! i)))))"

definition hb_inv :: "'c hbenv \<Rightarrow> ('u::linorder, 'c, 'o) hbstate \<Rightarrow> bool" where
  "hb_inv env s \<longleftrightarrow>
     ft_inv (store s) \<and> ft_abs (store s) (gnodes (graph s)) = Some (hb_nodes s) \<and> kstate (graph s) \<and>
     map_invar (threadOrders (graph s)) \<and> map_invar (groupMap (graph s)) \<and>
     (\<forall>u. map_abs (threadOrders (graph s)) u =
        (if thread_count u (hb_nodes s) = 0 then None else Some (thread_count u (hb_nodes s)))) \<and>
     (\<forall>g S. map_abs (groupMap (graph s)) g = Some S \<longrightarrow>
        set_invar S \<and> (\<forall>e\<in>set_abs S. e \<le> length (hb_nodes s))) \<and>
     graph_ok (hb_nodes s) \<and> replay_ok env s \<and>
     (\<forall>u l. lastHbNode s u = Some l \<longrightarrow> l \<le> length (hb_nodes s) \<and>
        (last_of u (hb_nodes s) \<noteq> 0 \<longrightarrow> l = last_of u (hb_nodes s)))"

subsection \<open>Lists of nodes\<close>

lemma last_of_simps [simp]:
  "last_of u [] = 0" "last_of u (ns @ [n]) = (if tuid n = u then Suc (length ns) else last_of u ns)"
  by (simp_all add: last_of_def)

lemma last_of_rev_le: "last_of_rev u us \<le> length us"
  by (induction us) auto

lemma last_of_le: "last_of u ns \<le> length ns"
  using last_of_rev_le [of u "rev (map tuid ns)"] by (simp add: last_of_def)

lemma thread_count_simps [simp]:
  "thread_count u [] = 0" "thread_count u (ns @ [n]) = thread_count u ns + (if tuid n = u then 1 else 0)"
  by (simp_all add: thread_count_def)

lemma same_threads:
  assumes "i < length ns" "tuid n = tuid (ns ! i)"
  shows "map tuid (ns[i := n]) = map tuid ns"
  using assms by (simp add: map_update list_update_same_conv)

lemma same_threads_take:
  assumes "i < length ns" "tuid n = tuid (ns ! i)"
  shows "last_of u (take k (ns[i := n])) = last_of u (take k ns)"
    "thread_count u (take k (ns[i := n])) = thread_count u (take k ns)"
    "last_of u (ns[i := n]) = last_of u ns" "thread_count u (ns[i := n]) = thread_count u ns"
  using same_threads [OF assms] by (simp_all add: last_of_def thread_count_def take_map [symmetric])

lemma graph_ok_append:
  assumes "graph_ok ns" "threadOrder n = thread_count (tuid n) ns + 1"
    and "last_of (tuid n) ns \<noteq> 0 \<Longrightarrow> last_of (tuid n) ns \<in> set (incoming n)"
    and "\<forall>e \<in> set (incoming n). 1 \<le> e \<and> e \<le> length ns"
  shows "graph_ok (ns @ [n])"
proof -
  have "orders_ok (ns @ [n])"
    using assms(1,2) by (auto simp: graph_ok_def orders_ok_def nth_append less_Suc_eq)
  moreover have "chain_ok (ns @ [n])"
    using assms(1,3) by (auto simp: graph_ok_def chain_ok_def nth_append less_Suc_eq)
  moreover have "edges_ok (ns @ [n])"
    using assms(1,4) unfolding graph_ok_def edges_ok_def
    by (auto simp: nth_append less_Suc_eq) (metis less_SucI less_Suc_eq_le)+
  ultimately show ?thesis by (simp add: graph_ok_def)
qed

lemma graph_ok_update:
  assumes "graph_ok ns" "i < length ns" "\<forall>e \<in> set froms. 1 \<le> e \<and> e \<le> length ns \<and> e \<noteq> Suc i"
  shows "graph_ok (ns[i := (ns ! i)\<lparr> incoming := incoming (ns ! i) @ froms \<rparr>])"
proof -
  let ?n = "(ns ! i)\<lparr> incoming := incoming (ns ! i) @ froms \<rparr>"
  have t: "tuid ?n = tuid (ns ! i)" by simp
  note same = same_threads_take [OF assms(2) t]
  have sel: "tuid (ns[i := ?n] ! j) = tuid (ns ! j)" "threadOrder (ns[i := ?n] ! j) = threadOrder (ns ! j)"
    if "j < length ns" for j using that assms(2) by (auto simp: nth_list_update)
  have inc: "incoming (ns[i := ?n] ! j) = (if i = j then incoming (ns ! j) @ froms else incoming (ns ! j))"
    if "j < length ns" for j using that by auto
  show ?thesis
    using assms sel inc unfolding graph_ok_def orders_ok_def chain_ok_def edges_ok_def
    by (auto simp: same)
qed

subsection \<open>Reading\<close>

lemma ft_abs_size: "ft_inv st \<Longrightarrow> ft_abs st t = Some ns \<Longrightarrow> hb_size t st = Some (length ns)"
  by (auto simp: ft_abs_Some hb_size_def dest: inv_trace_ok simp: trace_ok_def)

lemma hb_getNode_spec:
  assumes "ft_inv st" "ft_abs st t = Some ns"
  shows "hb_getNode t k st = (if k \<noteq> 0 \<and> k \<le> length ns then Some (ns ! (k - 1)) else None)"
proof -
  obtain tr where tr: "traces st t = Some tr" "ns = contents tr st" using assms(2) by (auto simp: ft_abs_Some)
  show ?thesis
    using ft_getElementAt_spec [OF assms(1) tr(1), of "k - 1"] tr(2) by (auto simp: hb_getNode_def)
qed

lemma hb_getMutableNode_spec:
  assumes "ft_inv (store s)" "ft_abs (store s) (gnodes (graph s)) = Some ns" "hb_getMutableNode k s = Some p"
  shows "1 \<le> k \<and> k \<le> length ns \<and>
    (\<forall>v. \<exists>st. ptr_write p v (store s) = Some st \<and> ft_inv st \<and>
       ft_abs st = (ft_abs (store s))(gnodes (graph s) \<mapsto> ns[k - 1 := v]))"
proof -
  obtain tr where tr: "traces (store s) (gnodes (graph s)) = Some tr" "ns = contents tr (store s)"
    using assms(2) by (auto simp: ft_abs_Some)
  have k: "k \<noteq> 0" "ft_getMutableElementPtr (gnodes (graph s)) (k - 1) (store s) = Some (Some p)"
    using assms(3) by (auto simp: hb_getMutableNode_def split: if_splits)
  moreover have "k - 1 < nelems tr" using k(2) tr(1) by (auto simp: ft_getMutableElementPtr_def split: if_splits)
  then have "k - 1 < length ns" using inv_trace_ok [OF assms(1) tr(1)] tr(2) by (simp add: trace_ok_def)
  ultimately show ?thesis
    using ft_mutable_spec [OF assms(1) tr(1), of "k - 1"] tr(2) by auto
qed

subsection \<open>The invariant under the two primitive changes\<close>

lemma hb_invD:
  assumes "hb_inv env s"
  shows "ft_inv (store s)" "ft_abs (store s) (gnodes (graph s)) = Some (hb_nodes s)" "kstate (graph s)"
    "map_invar (threadOrders (graph s))" "map_invar (groupMap (graph s))"
    "map_abs (threadOrders (graph s)) u =
        (if thread_count u (hb_nodes s) = 0 then None else Some (thread_count u (hb_nodes s)))"
    "graph_ok (hb_nodes s)" "replay_ok env s"
    "map_abs (groupMap (graph s)) g = Some S \<Longrightarrow> set_invar S \<and> (\<forall>e\<in>set_abs S. e \<le> length (hb_nodes s))"
    "lastHbNode s u = Some l \<Longrightarrow> l \<le> length (hb_nodes s) \<and> (last_of u (hb_nodes s) \<noteq> 0 \<longrightarrow> l = last_of u (hb_nodes s))"
  using assms unfolding hb_inv_def by blast+

lemma hb_nodes_last [simp]: "hb_nodes (s\<lparr> lastHbNode := f \<rparr>) = hb_nodes s"
  by (simp add: hb_nodes_def)

lemma replay_ok_last [simp]: "replay_ok env (s\<lparr> lastHbNode := f \<rparr>) = replay_ok env s"
  by (simp add: replay_ok_def cong: option.case_cong)

lemma hb_check_last [simp]:
  "hb_checkNodeForReplay env n k (s\<lparr> lastHbNode := f \<rparr>) = hb_checkNodeForReplay env n k s"
  by (simp add: hb_checkNodeForReplay_def split: option.split)

lemma hb_size_inv: "hb_inv env s \<Longrightarrow> hb_size (gnodes (graph s)) (store s) = Some (length (hb_nodes s))"
  by (blast intro: ft_abs_size hb_invD)

lemma hb_getNode_inv:
  "hb_inv env s \<Longrightarrow> hb_getNode (gnodes (graph s)) k (store s) =
     (if k \<noteq> 0 \<and> k \<le> length (hb_nodes s) then Some (hb_nodes s ! (k - 1)) else None)"
  by (blast intro: hb_getNode_spec hb_invD)

lemma hb_addNode_cases:
  assumes "hb_inv env s" "hb_addNode env u c inp l s = Some (nid, s')"
  obtains (skip) "nid = l" "s' = s"
  | (add) n where "nid = Suc (length (hb_nodes s))" "n = \<lparr> threadOrder = thread_count u (hb_nodes s) + 1, tuid = u,
       callctx = ctxStrip env c, inputObj = inp, incoming = (if l \<noteq> 0 then [l] else []) \<rparr>"
     "ft_inv (store s')" "ft_abs (store s') = (ft_abs (store s))(gnodes (graph s) \<mapsto> hb_nodes s @ [n])"
     "graph s' = (graph s)\<lparr> threadOrders := map_replace (u, thread_count u (hb_nodes s) + 1) (threadOrders (graph s)) \<rparr>"
     "lastHbNode s' = lastHbNode s" "hb_checkNodeForReplay env n nid s' = Some ()"
proof (cases "ctxIgnorable env c")
  case True
  then show ?thesis using assms(2) that(1) by (auto simp: hb_addNode_def split: if_splits)
next
  case False
  note I = hb_invD [OF assms(1)]
  obtain tr where tr: "traces (store s) (gnodes (graph s)) = Some tr" "hb_nodes s = contents tr (store s)"
    using I(2) by (auto simp: ft_abs_Some)
  have ord: "(case map_lookup u (threadOrders (graph s)) of None \<Rightarrow> 1 | Some ord \<Rightarrow> snd ord + 1) =
      thread_count u (hb_nodes s) + 1"
    using I(6) [of u] by (simp add: map_lookup_abs)
  let ?n = "\<lparr> threadOrder = thread_count u (hb_nodes s) + 1, tuid = u, callctx = ctxStrip env c, inputObj = inp,
      incoming = (if l \<noteq> 0 then [l] else []) \<rparr>"
  obtain st where st: "ft_push_back (gnodes (graph s)) ?n (store s) = Some st" "ft_inv st"
    "ft_abs st = (ft_abs (store s))(gnodes (graph s) \<mapsto> hb_nodes s @ [?n])"
    using ft_push_back_spec [OF I(1) tr(1), of ?n] tr(2) by auto
  let ?s' = "s\<lparr> graph := (graph s)\<lparr> threadOrders := map_replace (u, thread_count u (hb_nodes s) + 1) (threadOrders (graph s)) \<rparr>,
     store := st \<rparr>"
  have "nid = Suc (length (hb_nodes s))" "s' = ?s'" "hb_checkNodeForReplay env ?n nid ?s' = Some ()"
    using assms(2) False st(1) ord by (auto simp: hb_addNode_def hb_size_inv [OF assms(1)] Let_def split: if_splits)
  with st show ?thesis by (intro that(2) [of ?n]) auto
qed

lemma hb_checkNode_match:
  assumes "hb_checkNodeForReplay env n k s = Some ()" "ft_inv (store s)" "replayedGraph (graph s) = Some r"
    "ft_abs (store s) r = Some rs" "alwaysReplayInputs env" "k \<le> replayedGraphMaxId (graph s)"
  shows "k \<noteq> 0 \<and> k \<le> length rs \<and> replay_match n (rs ! (k - 1))"
  using assms hb_getNode_spec [OF assms(2,4), of k]
  by (auto simp: hb_checkNodeForReplay_def split: if_splits)

lemma hb_inv_append:
  assumes "hb_inv env s" "ft_inv (store s')"
    and abs: "ft_abs (store s') = (ft_abs (store s))(gnodes (graph s) \<mapsto> hb_nodes s @ [n])"
    and g: "graph s' = (graph s)\<lparr> threadOrders := map_replace (tuid n, threadOrder n) (threadOrders (graph s)) \<rparr>"
    and ord: "threadOrder n = thread_count (tuid n) (hb_nodes s) + 1"
    and inc: "last_of (tuid n) (hb_nodes s) \<noteq> 0 \<Longrightarrow> last_of (tuid n) (hb_nodes s) \<in> set (incoming n)"
      "\<forall>e \<in> set (incoming n). 1 \<le> e \<and> e \<le> length (hb_nodes s)"
    and chk: "hb_checkNodeForReplay env n (Suc (length (hb_nodes s))) s' = Some ()"
    and last: "lastHbNode s' = (lastHbNode s)(tuid n \<mapsto> Suc (length (hb_nodes s)))"
  shows "hb_inv env s' \<and> hb_nodes s' = hb_nodes s @ [n]"
proof -
  note I = hb_invD [OF assms(1)]
  have ns: "hb_nodes s' = hb_nodes s @ [n]" using abs g by (simp add: hb_nodes_def)
  have "replay_ok env s'"
  proof (cases "replayedGraph (graph s)")
    case (Some r)
    obtain rs where r: "r \<noteq> gnodes (graph s)" "ft_abs (store s) r = Some rs"
      and m: "\<And>i. alwaysReplayInputs env \<Longrightarrow> i < length (hb_nodes s) \<Longrightarrow> Suc i \<le> replayedGraphMaxId (graph s) \<Longrightarrow>
         i < length rs \<and> replay_match (hb_nodes s ! i) (rs ! i)"
      using I(8) Some by (auto simp: replay_ok_def)
    have new: "alwaysReplayInputs env \<Longrightarrow> Suc (length (hb_nodes s)) \<le> replayedGraphMaxId (graph s) \<Longrightarrow>
        length (hb_nodes s) < length rs \<and> replay_match n (rs ! length (hb_nodes s))"
      using hb_checkNode_match [OF chk assms(2), of r rs] Some g r abs by auto
    show ?thesis
      using Some g r abs m new by (auto simp: replay_ok_def ns nth_append less_Suc_eq)
  qed (use g in \<open>simp add: replay_ok_def\<close>)
  moreover have "graph_ok (hb_nodes s')" unfolding ns using graph_ok_append [OF I(7) ord inc] .
  ultimately have "hb_inv env s'"
    using assms(2) abs g I ord last unfolding hb_inv_def ns
    by (auto simp: last_of_le le_SucI map_abs_replace fun_upd_apply split: if_splits)
  with ns show ?thesis by simp
qed

lemma hb_addNode_inv:
  assumes "hb_inv env s" "hb_addNode env u c inp l s = Some (nid, s')"
    and "l \<le> length (hb_nodes s)" "last_of u (hb_nodes s) \<noteq> 0 \<Longrightarrow> l = last_of u (hb_nodes s)"
  shows "hb_inv env (s'\<lparr> lastHbNode := (lastHbNode s')(u \<mapsto> nid) \<rparr>) \<and>
     nid \<le> length (hb_nodes s') \<and> length (hb_nodes s) \<le> length (hb_nodes s') \<and>
     (\<forall>v. v \<noteq> u \<longrightarrow> last_of v (hb_nodes s') = last_of v (hb_nodes s)) \<and> lastHbNode s' = lastHbNode s"
  using assms(1,2)
proof (cases rule: hb_addNode_cases)
  case skip
  have "hb_inv env (s\<lparr> lastHbNode := (lastHbNode s)(u \<mapsto> l) \<rparr>)"
    using assms(1,3,4) unfolding hb_inv_def by auto
  with skip assms(3) show ?thesis by simp
next
  case (add n)
  let ?s = "s'\<lparr> lastHbNode := (lastHbNode s')(u \<mapsto> nid) \<rparr>"
  have chk: "hb_checkNodeForReplay env n (Suc (length (hb_nodes s))) ?s = Some ()"
    using add(1,7) by simp
  have "hb_inv env ?s \<and> hb_nodes ?s = hb_nodes s @ [n]"
    using assms(3,4) add chk by (intro hb_inv_append [OF assms(1)]) auto
  then show ?thesis using add by (auto simp: hb_nodes_def)
qed

lemma hb_inv_update:
  assumes "hb_inv env s" "ft_inv (store s')" "1 \<le> k" "k \<le> length (hb_nodes s)"
    and n: "n = (hb_nodes s ! (k - 1))\<lparr> incoming := incoming (hb_nodes s ! (k - 1)) @ froms \<rparr>"
    and abs: "ft_abs (store s') = (ft_abs (store s))(gnodes (graph s) \<mapsto> (hb_nodes s)[k - 1 := n])"
    and g: "graph s' = graph s" "lastHbNode s' = lastHbNode s"
    and froms: "\<forall>e \<in> set froms. 1 \<le> e \<and> e \<le> length (hb_nodes s) \<and> e \<noteq> k"
    and chk: "hb_checkNodeForReplay env n k s' = Some ()"
  shows "hb_inv env s' \<and> hb_nodes s' = (hb_nodes s)[k - 1 := n]"
proof -
  note I = hb_invD [OF assms(1)]
  have ns: "hb_nodes s' = (hb_nodes s)[k - 1 := n]" using abs g by (simp add: hb_nodes_def)
  have k: "k - 1 < length (hb_nodes s)" "Suc (k - 1) = k" using assms(3,4) by auto
  have t: "tuid n = tuid (hb_nodes s ! (k - 1))" using n by simp
  note same = same_threads_take(3,4) [OF k(1) t]
  have "replay_ok env s'"
  proof (cases "replayedGraph (graph s)")
    case (Some r)
    obtain rs where r: "r \<noteq> gnodes (graph s)" "ft_abs (store s) r = Some rs"
      and m: "\<And>i. alwaysReplayInputs env \<Longrightarrow> i < length (hb_nodes s) \<Longrightarrow> Suc i \<le> replayedGraphMaxId (graph s) \<Longrightarrow>
         i < length rs \<and> replay_match (hb_nodes s ! i) (rs ! i)"
      using I(8) Some by (auto simp: replay_ok_def)
    have new: "alwaysReplayInputs env \<Longrightarrow> k \<le> replayedGraphMaxId (graph s) \<Longrightarrow>
        k - 1 < length rs \<and> replay_match n (rs ! (k - 1))"
      using hb_checkNode_match [OF chk assms(2), of r rs] Some g r abs assms(3) by auto
    have "i < length rs \<and> replay_match (hb_nodes s' ! i) (rs ! i)"
      if "alwaysReplayInputs env" "i < length (hb_nodes s')" "Suc i \<le> replayedGraphMaxId (graph s)" for i
      using that m [of i] new k by (cases "i = k - 1") (auto simp: ns)
    then show ?thesis using Some g r abs by (auto simp: replay_ok_def)
  qed (use g in \<open>simp add: replay_ok_def\<close>)
  moreover have "graph_ok (hb_nodes s')"
    unfolding ns n using graph_ok_update [OF I(7) k(1)] froms k(2) by simp
  moreover have "\<forall>u. thread_count u (hb_nodes s') = thread_count u (hb_nodes s) \<and> last_of u (hb_nodes s') = last_of u (hb_nodes s)"
    "length (hb_nodes s') = length (hb_nodes s)" unfolding ns using same by auto
  ultimately have "hb_inv env s'"
    using assms(1,2) abs g ns unfolding hb_inv_def by simp
  with ns show ?thesis by simp
qed

lemma hb_addEdge_inv:
  assumes "hb_inv env s" "hb_addEdge env from to s = Some s'" "from \<le> length (hb_nodes s)"
  shows "hb_inv env s' \<and> graph s' = graph s \<and> lastHbNode s' = lastHbNode s \<and>
    hb_nodes s' = (if from = 0 \<or> to = 0 \<or> from = to \<or> from \<in> set (incoming (hb_nodes s ! (to - 1))) then hb_nodes s
       else (hb_nodes s)[to - 1 := (hb_nodes s ! (to - 1))\<lparr> incoming := incoming (hb_nodes s ! (to - 1)) @ [from] \<rparr>])"
proof (cases "from = 0 \<or> to = 0 \<or> from = to")
  case True
  then show ?thesis using assms by (auto simp: hb_addEdge_def)
next
  case False
  let ?old = "hb_nodes s ! (to - 1)"
  obtain p where p: "hb_getMutableNode to s = Some p" using assms(2) False by (auto simp: hb_addEdge_def)
  note P = hb_getMutableNode_spec [OF hb_invD(1,2) [OF assms(1)] p]
  have get: "hb_getNode (gnodes (graph s)) to (store s) = Some ?old"
    using P hb_getNode_inv [OF assms(1), of to] by auto
  show ?thesis
  proof (cases "from \<in> set (incoming ?old)")
    case True
    then show ?thesis using assms False p get by (auto simp: hb_addEdge_def)
  next
    case new: False
    let ?n = "?old\<lparr> incoming := incoming ?old @ [from] \<rparr>"
    obtain st where st: "ptr_write p ?n (store s) = Some st" "ft_inv st"
      "ft_abs st = (ft_abs (store s))(gnodes (graph s) \<mapsto> (hb_nodes s)[to - 1 := ?n])"
      using P by blast
    have s': "s' = s\<lparr> store := st \<rparr>" "hb_checkNodeForReplay env ?n to (s\<lparr> store := st \<rparr>) = Some ()"
      using assms(2) False p get new st(1) by (auto simp: hb_addEdge_def Let_def)
    have "hb_inv env s' \<and> hb_nodes s' = (hb_nodes s)[to - 1 := ?n]"
    proof (rule hb_inv_update [OF assms(1), where froms = "[from]"])
      show "1 \<le> to" "to \<le> length (hb_nodes s)" using P by auto
    qed (use s' st False assms(3) in auto)
    with s' False new show ?thesis by simp
  qed
qed

lemma take_Suc_id: "Suc k \<le> length ns \<Longrightarrow> take (Suc k) ns = take k ns @ [ns ! k]"
  by (simp add: take_Suc_conv_app_nth)

lemma conservative_loop_spec:
  assumes "ft_inv st" "ft_abs st t = Some ns"
  shows "n \<le> length ns \<Longrightarrow>
    \<exists>fs. conservative_loop t n V st = Some fs \<and>
      set fs = {last_of u (take n ns) | u. u \<notin> V \<and> last_of u (take n ns) \<noteq> 0} \<and> distinct fs \<and> (\<forall>e\<in>set fs. e \<le> n)"
proof (induction n arbitrary: V)
  case (Suc k)
  let ?n = "ns ! k"
  have get: "hb_getNode t (Suc k) st = Some ?n" using hb_getNode_spec [OF assms, of "Suc k"] Suc.prems by simp
  have lo: "last_of u (take (Suc k) ns) = (if tuid ?n = u then Suc k else last_of u (take k ns))" for u
    using Suc.prems by (simp add: take_Suc_id)
  have k: "k \<le> length ns" using Suc.prems by simp
  show ?case
  proof (cases "tuid ?n \<in> V")
    case True
    obtain fs where fs: "conservative_loop t k V st = Some fs"
      "set fs = {last_of u (take k ns) | u. u \<notin> V \<and> last_of u (take k ns) \<noteq> 0}" "distinct fs" "\<forall>e\<in>set fs. e \<le> k"
      using Suc.IH [OF k, of V] by blast
    have "set fs = {last_of u (take (Suc k) ns) | u. u \<notin> V \<and> last_of u (take (Suc k) ns) \<noteq> 0}"
      unfolding fs(2) lo using True by (intro Collect_cong) metis
    moreover have "conservative_loop t (Suc k) V st = Some fs" using True fs(1) get by simp
    moreover have "\<forall>e\<in>set fs. e \<le> Suc k" using fs(4) by auto
    ultimately show ?thesis using fs(3) by blast
  next
    case False
    obtain fs where fs: "conservative_loop t k (insert (tuid ?n) V) st = Some fs"
      "set fs = {last_of u (take k ns) | u. u \<notin> insert (tuid ?n) V \<and> last_of u (take k ns) \<noteq> 0}" "distinct fs" "\<forall>e\<in>set fs. e \<le> k"
      using Suc.IH [OF k, of "insert (tuid ?n) V"] by blast
    have "set (Suc k # fs) = {last_of u (take (Suc k) ns) | u. u \<notin> V \<and> last_of u (take (Suc k) ns) \<noteq> 0}"
      unfolding list.set fs(2) lo using False by (auto split: if_splits) metis
    moreover have "distinct (Suc k # fs)" using fs(3,4) by auto
    moreover have "conservative_loop t (Suc k) V st = Some (Suc k # fs)" using False fs(1) get by simp
    moreover have "\<forall>e\<in>set (Suc k # fs). e \<le> Suc k" using fs(4) by auto
    ultimately show ?thesis by blast
  qed
qed simp

lemma last_of_thread: "last_of u ns \<noteq> 0 \<Longrightarrow> tuid (ns ! (last_of u ns - 1)) = u"
proof (induction ns rule: rev_induct)
  case (snoc n ns)
  show ?case
  proof (cases "tuid n = u")
    case False
    then have "last_of u ns \<noteq> 0" using snoc.prems by simp
    moreover have "last_of u ns - 1 < length ns" using last_of_le [of u ns] calculation by simp
    ultimately show ?thesis using snoc.IH False by (simp add: nth_append)
  qed simp
qed simp

lemma hb_addConservativeEdge_inv:
  assumes "hb_inv env s" "hb_addConservativeEdge env to s = Some s'"
  shows "hb_inv env s' \<and> graph s' = graph s \<and> lastHbNode s' = lastHbNode s \<and>
    (to \<noteq> 0 \<longrightarrow> to \<le> length (hb_nodes s) \<and>
      (\<exists>fs. set fs = {last_of u (hb_nodes s) | u. u \<noteq> tuid (hb_nodes s ! (to - 1)) \<and> last_of u (hb_nodes s) \<noteq> 0} \<and> distinct fs \<and>
        hb_nodes s' = (hb_nodes s)[to - 1 := (hb_nodes s ! (to - 1))\<lparr> incoming := incoming (hb_nodes s ! (to - 1)) @ fs \<rparr>]))"
proof (cases "to = 0")
  case True
  then show ?thesis using assms by (auto simp: hb_addConservativeEdge_def)
next
  case False
  let ?old = "hb_nodes s ! (to - 1)"
  obtain p where p: "hb_getMutableNode to s = Some p" using assms(2) False by (auto simp: hb_addConservativeEdge_def)
  note P = hb_getMutableNode_spec [OF hb_invD(1,2) [OF assms(1)] p]
  have get: "hb_getNode (gnodes (graph s)) to (store s) = Some ?old"
    using P hb_getNode_inv [OF assms(1), of to] by auto
  obtain fs where fs: "conservative_loop (gnodes (graph s)) (length (hb_nodes s)) {tuid ?old} (store s) = Some fs"
    "set fs = {last_of u (hb_nodes s) | u. u \<noteq> tuid ?old \<and> last_of u (hb_nodes s) \<noteq> 0}" "distinct fs"
    using conservative_loop_spec [OF hb_invD(1,2) [OF assms(1)], of "length (hb_nodes s)" "{tuid ?old}"] by auto
  let ?n = "?old\<lparr> incoming := incoming ?old @ fs \<rparr>"
  obtain st where st: "ptr_write p ?n (store s) = Some st" "ft_inv st"
    "ft_abs st = (ft_abs (store s))(gnodes (graph s) \<mapsto> (hb_nodes s)[to - 1 := ?n])"
    using P by blast
  have s': "s' = s\<lparr> store := st \<rparr>" "hb_checkNodeForReplay env ?n to (s\<lparr> store := st \<rparr>) = Some ()"
    using assms(2) False p get st(1) fs(1) by (auto simp: hb_addConservativeEdge_def hb_size_inv [OF assms(1)] Let_def)
  have "\<forall>e\<in>set fs. 1 \<le> e \<and> e \<le> length (hb_nodes s) \<and> e \<noteq> to"
    using fs(2) last_of_le [of _ "hb_nodes s"] last_of_thread [of _ "hb_nodes s"] by (auto simp: Suc_le_eq)
  moreover have "1 \<le> to" "to \<le> length (hb_nodes s)" using P by auto
  ultimately have "hb_inv env s' \<and> hb_nodes s' = (hb_nodes s)[to - 1 := ?n]"
    using s' st by (intro hb_inv_update [OF assms(1), where froms = fs]) auto
  with s' False P fs show ?thesis by auto
qed

subsection \<open>The invariant under the operations\<close>

lemma hb_addNodeForThread_inv:
  assumes "hb_inv env s" "hb_addNodeForThread env u c s = Some (t, s')"
  shows "hb_inv env s' \<and> t \<le> length (hb_nodes s') \<and> length (hb_nodes s) \<le> length (hb_nodes s') \<and>
     (\<forall>v. v \<noteq> u \<longrightarrow> last_of v (hb_nodes s') = last_of v (hb_nodes s) \<and> lastHbNode s' v = lastHbNode s v)"
proof -
  obtain l s1 where l: "lastHbNode s u = Some l" "hb_addNode env u c None l s = Some (t, s1)"
    "s' = s1\<lparr> lastHbNode := (lastHbNode s1)(u \<mapsto> t) \<rparr>"
    using assms(2) by (auto simp: hb_addNodeForThread_def split: if_splits)
  then show ?thesis
    using hb_addNode_inv [OF assms(1) l(2)] hb_invD(10) [OF assms(1) l(1)] by auto
qed

lemma hb_addNodeForInput_inv:
  assumes "hb_inv env s" "hb_addNodeForInput env u c inp s = Some (t, s')"
  shows "hb_inv env s'"
proof -
  obtain l s1 where l: "lastHbNode s u = Some l" "hb_addNode env u c (Some inp) l s = Some (t, s1)"
    "s' = s1\<lparr> lastHbNode := (lastHbNode s1)(u \<mapsto> t) \<rparr>"
    using assms(2) by (auto simp: hb_addNodeForInput_def split: if_splits)
  then show ?thesis
    using hb_addNode_inv [OF assms(1) l(2)] hb_invD(10) [OF assms(1) l(1)] by auto
qed

lemma hb_addNodeForNewThread_inv:
  assumes "hb_inv env s" "hb_addNodeForNewThread env u c creator s = Some (t, s')"
    and "last_of u (hb_nodes s) = 0" "\<And>v d. creator = Some (v, d) \<Longrightarrow> v \<noteq> u"
  shows "hb_inv env s'"
proof (cases creator)
  case None
  then obtain s1 where "hb_addNode env u c None 0 s = Some (t, s1)" "s' = s1\<lparr> lastHbNode := (lastHbNode s1)(u \<mapsto> t) \<rparr>"
    using assms(2) by (auto simp: hb_addNodeForNewThread_def split: if_splits)
  then show ?thesis using hb_addNode_inv [OF assms(1), of u c None 0 t s1] assms(3) by auto
next
  case (Some p)
  obtain v' d' where p: "p = (v', d')" by force
  then obtain l s1 s2 where s1: "hb_addNodeForThread env v' d' s = Some (l, s1)"
    "hb_addNode env u c None l s1 = Some (t, s2)" "s' = s2\<lparr> lastHbNode := (lastHbNode s2)(u \<mapsto> t) \<rparr>"
    using assms(2) Some by (auto simp: hb_addNodeForNewThread_def split: if_splits)
  note A = hb_addNodeForThread_inv [OF assms(1) s1(1)]
  have "hb_inv env s1" "l \<le> length (hb_nodes s1)" using A by auto
  moreover have "last_of u (hb_nodes s1) = 0"
    using A assms(3,4) Some p by (cases "v' = u") auto
  ultimately show ?thesis using hb_addNode_inv [of env s1 u c None l t s2] s1(2,3) by auto
qed

lemma hb_addEdge_inv':
  "hb_inv env s \<Longrightarrow> hb_addEdge env from to s = Some s' \<Longrightarrow> from \<le> length (hb_nodes s) \<Longrightarrow>
     hb_inv env s' \<and> length (hb_nodes s') = length (hb_nodes s) \<and> groupMap (graph s') = groupMap (graph s)"
  using hb_addEdge_inv [of env s "from" to s'] by auto

lemma hb_addSourceSinkEdges_inv:
  assumes "hb_inv env s" "hb_addSourceSinkEdges env u c source sink s = Some s'" "source \<le> length (hb_nodes s)"
  shows "hb_inv env s' \<and> length (hb_nodes s) \<le> length (hb_nodes s')"
proof (cases "source = 0 \<and> sink = 0")
  case True
  then show ?thesis using assms by (auto simp: hb_addSourceSinkEdges_def split: if_splits)
next
  case nz: False
  then obtain t s1 where t: "hb_addNodeForThread env u c s = Some (t, s1)"
    using assms(2) by (auto simp: hb_addSourceSinkEdges_def split: if_splits)
  have A: "hb_inv env s1" "t \<le> length (hb_nodes s1)" "length (hb_nodes s) \<le> length (hb_nodes s1)"
    using hb_addNodeForThread_inv [OF assms(1) t] by auto
  have E: "hb_inv env s2 \<and> length (hb_nodes s2) = length (hb_nodes s1)"
    if "hb_addEdge env f k s1 = Some s2" "f \<le> length (hb_nodes s1)" for f k s2
    using hb_addEdge_inv' [OF A(1) that] by simp
  consider (src) "source \<noteq> 0" "sink = 0" | (snk) "source = 0" "sink \<noteq> 0" | (same) "source = sink" "sink \<noteq> 0"
    | (both) "source \<noteq> 0" "sink \<noteq> 0" "source \<noteq> sink" using nz by metis
  then show ?thesis
  proof cases
    case src
    then show ?thesis using assms(2,3) t A E [of source t s'] by (auto simp: hb_addSourceSinkEdges_def split: if_splits)
  next
    case snk
    then show ?thesis using assms(2) t A E [of t sink s'] by (auto simp: hb_addSourceSinkEdges_def split: if_splits)
  next
    case both
    then obtain s2 where s2: "hb_addEdge env source t s1 = Some s2" "hb_addEdge env t sink s2 = Some s'"
      using assms(2) t by (auto simp: hb_addSourceSinkEdges_def split: if_splits)
    then show ?thesis using E [OF s2(1)] hb_addEdge_inv' [of env s2 t sink s'] A assms(3) by auto
  next
    case same
    then obtain t1 s2 s3 where s2: "hb_addNodeForThread env u c s1 = Some (t1, s2)"
      "hb_addEdge env t source s2 = Some s3" "hb_addEdge env source t1 s3 = Some s'"
      using assms(2) t by (auto simp: hb_addSourceSinkEdges_def split: if_splits)
    note B = hb_addNodeForThread_inv [OF A(1) s2(1)]
    then have "hb_inv env s3 \<and> length (hb_nodes s3) = length (hb_nodes s2)"
      using hb_addEdge_inv' [of env s2 t source s3] s2(2) A(2) by auto
    then show ?thesis using hb_addEdge_inv' [of env s3 source t1 s'] s2(3) A B assms(3) by auto
  qed
qed

lemma hb_addSourceSinkEdges_loop_inv:
  "hb_inv env s \<Longrightarrow> hb_addSourceSinkEdges_loop env us c source sink s = Some s' \<Longrightarrow> source \<le> length (hb_nodes s) \<Longrightarrow>
     hb_inv env s' \<and> length (hb_nodes s) \<le> length (hb_nodes s')"
proof (induction us arbitrary: s)
  case (Cons u us)
  then obtain s1 where s1: "hb_addSourceSinkEdges env u (c u) source sink s = Some s1"
    "hb_addSourceSinkEdges_loop env us c source sink s1 = Some s'" by auto
  then show ?case
    using Cons.IH [of s1] hb_addSourceSinkEdges_inv [OF Cons.prems(1) s1(1) Cons.prems(3)] Cons.prems(3) by auto
qed auto

lemma edges_from_inv:
  "hb_inv env s \<Longrightarrow> edges_from env ns k s = Some s' \<Longrightarrow> \<forall>n\<in>set ns. n \<le> length (hb_nodes s) \<Longrightarrow> hb_inv env s'"
proof (induction ns arbitrary: s)
  case (Cons n ns)
  then obtain s1 where s1: "hb_addEdge env n k s = Some s1" "edges_from env ns k s1 = Some s'" by auto
  then show ?case using Cons.IH [of s1] hb_addEdge_inv' [OF Cons.prems(1) s1(1)] Cons.prems(3) by auto
qed auto

lemma edges_to_inv:
  "hb_inv env s \<Longrightarrow> edges_to env k ns s = Some s' \<Longrightarrow> k \<le> length (hb_nodes s) \<Longrightarrow> hb_inv env s'"
proof (induction ns arbitrary: s)
  case (Cons n ns)
  then obtain s1 where s1: "hb_addEdge env k n s = Some s1" "edges_to env k ns s1 = Some s'" by auto
  then show ?case using Cons.IH [of s1] hb_addEdge_inv' [OF Cons.prems(1) s1(1)] Cons.prems(3) by auto
qed auto

lemma hb_inv_graph:
  assumes "hb_inv env s" "map_invar G"
    and "\<And>g S. map_abs G g = Some S \<Longrightarrow> set_invar S \<and> (\<forall>e\<in>set_abs S. e \<le> length (hb_nodes s))"
  shows "hb_inv env (s\<lparr> graph := (graph s)\<lparr> groupMap := G \<rparr> \<rparr>)"
proof -
  let ?s = "s\<lparr> graph := (graph s)\<lparr> groupMap := G \<rparr> \<rparr>"
  have "hb_nodes ?s = hb_nodes s" by (simp add: hb_nodes_def)
  moreover have "replay_ok env ?s = replay_ok env s"
    using calculation by (simp add: replay_ok_def split: option.split)
  ultimately show ?thesis using assms unfolding hb_inv_def by auto
qed

lemma set_invar_insert [simp]: "set_invar S \<Longrightarrow> set_invar (set_insert x S)"
  using insert_balanced_aux [of S id "(<)" x]
  by (simp add: set_invar_def set_insert_def iset.search_tree_insert)

lemma set_invar_empty [simp]: "set_invar Terminator"
  by (simp add: set_invar_def)

lemma set_abs_empty [simp]: "set_abs Terminator = {}"
  by (simp add: set_abs_def)

lemma set_abs_insert [simp]: "set_invar S \<Longrightarrow> set_abs (set_insert x S) = insert x (set_abs S)"
  using iset.set_inorder_insert [of S x] by (auto simp: set_invar_def set_abs_def set_insert_def)

lemma hb_addNodeToGroup_inv:
  assumes "hb_inv env s" "node \<le> length (hb_nodes s)"
  shows "hb_inv env (hb_addNodeToGroup node grp s)"
proof -
  let ?G = "groupMap (graph s)"
  define S where "S = (case map_abs ?G grp of None \<Rightarrow> set_insert node Terminator | Some S \<Rightarrow> set_insert node S)"
  have inv: "map_invar ?G" "\<And>g S. map_abs ?G g = Some S \<Longrightarrow> set_invar S \<and> (\<forall>e\<in>set_abs S. e \<le> length (hb_nodes s))"
    using hb_invD(5,9) [OF assms(1)] by auto
  have "set_invar S \<and> (\<forall>e\<in>set_abs S. e \<le> length (hb_nodes s))"
    using inv(2) [of grp] assms(2) by (auto simp: S_def split: option.split)
  then have "hb_inv env (s\<lparr> graph := (graph s)\<lparr> groupMap := map_replace (grp, S) ?G \<rparr> \<rparr>)"
    using inv by (intro hb_inv_graph [OF assms(1)]) (auto simp: map_abs_replace split: if_splits)
  moreover have "hb_addNodeToGroup node grp s = s\<lparr> graph := (graph s)\<lparr> groupMap := map_replace (grp, S) ?G \<rparr> \<rparr>"
    by (auto simp: hb_addNodeToGroup_def S_def map_lookup_abs split: option.split)
  ultimately show ?thesis by simp
qed

lemma hb_removeGroup_inv:
  assumes "hb_inv env s"
  shows "hb_inv env (hb_removeGroup grp s)"
  unfolding hb_removeGroup_def
  using hb_invD(5,9) [OF assms] by (intro hb_inv_graph [OF assms]) (auto split: if_splits)

lemma group_elements:
  assumes "hb_inv env s" "map_lookup g (groupMap (graph s)) = Some (g', S)"
  shows "\<exists>ns. tree_elements S = Some ns \<and> set ns = set_abs S \<and> (\<forall>n\<in>set ns. n \<le> length (hb_nodes s))"
proof -
  have "map_abs (groupMap (graph s)) g = Some S" using assms(2) by (simp add: map_abs_def)
  then have "set_invar S" "\<forall>e\<in>set_abs S. e \<le> length (hb_nodes s)" using hb_invD(9) [OF assms(1)] by auto
  then show ?thesis using iset.tree_elements_inorder [of S] by (auto simp: set_invar_def set_abs_def)
qed

lemma hb_addEdgesFromGroup_inv:
  assumes "hb_inv env s" "hb_addEdgesFromGroup env g k s = Some s'"
  shows "hb_inv env s'"
  using assms group_elements [OF assms(1), of g]
  by (auto simp: hb_addEdgesFromGroup_def split: if_splits option.splits dest: edges_from_inv)

lemma hb_addEdgesToGroup_inv:
  assumes "hb_inv env s" "hb_addEdgesToGroup env k g s = Some s'" "k \<le> length (hb_nodes s)"
  shows "hb_inv env s'"
  using assms group_elements [OF assms(1), of g]
  by (auto simp: hb_addEdgesToGroup_def split: if_splits option.splits dest: edges_to_inv)

lemma graph_ok_Nil [simp]: "graph_ok []"
  by (simp add: graph_ok_def orders_ok_def chain_ok_def edges_ok_def)

lemma hb_clear_inv:
  assumes "hb_inv env s"
  shows "\<exists>s'. hb_clear s = Some s' \<and> hb_inv env s' \<and> hb_nodes s' = []"
proof -
  obtain tr where "traces (store s) (gnodes (graph s)) = Some tr" using hb_invD(2) [OF assms] by (auto simp: ft_abs_Some)
  then obtain st where st: "ft_clear (gnodes (graph s)) (store s) = Some st" "ft_inv st"
    "ft_abs st = (ft_abs (store s))(gnodes (graph s) \<mapsto> [])"
    using ft_clear_spec [OF hb_invD(1) [OF assms]] by blast
  let ?s = "s\<lparr> store := st,
              graph := (graph s)\<lparr> groupMap := map_empty, threadOrders := map_empty, replayedGraph := None \<rparr>,
              lastHbNode := (\<lambda>u. map_option (\<lambda>_. 0) (lastHbNode s u)) \<rparr>"
  have "hb_nodes ?s = []" using st(3) by (simp add: hb_nodes_def)
  moreover have "hb_inv env ?s"
    using st hb_invD(3) [OF assms] calculation unfolding hb_inv_def by (auto simp: replay_ok_def)
  ultimately show ?thesis using st(1) hb_invD(3) [OF assms] by (auto simp: hb_clear_def)
qed

lemma hb_makeImmutableClone_inv:
  assumes "hb_inv env s" "traces (store s) t = None"
  shows "\<exists>g s'. hb_makeImmutableClone t s = Some (g, s') \<and> hb_inv env s' \<and> hb_nodes s' = hb_nodes s \<and>
     gnodes g = t \<and> \<not> kstate g \<and> ft_abs (store s') t = Some (hb_nodes s) \<and>
     (\<forall>r. r \<noteq> t \<longrightarrow> ft_abs (store s') r = ft_abs (store s) r)"
proof -
  note I = hb_invD [OF assms(1)]
  obtain tr where tr: "traces (store s) (gnodes (graph s)) = Some tr" "contents tr (store s) = hb_nodes s"
    using I(2) by (auto simp: ft_abs_Some)
  obtain st where st: "ft_fork t (gnodes (graph s)) (store s) = Some st" "ft_inv st"
    "ft_abs st = (ft_abs (store s))(t \<mapsto> hb_nodes s)"
    using ft_fork_spec [OF I(1) tr(1) assms(2)] tr(2) by auto
  have neq: "gnodes (graph s) \<noteq> t" using tr(1) assms(2) by auto
  let ?s = "s\<lparr> store := st \<rparr>"
  have ns: "hb_nodes ?s = hb_nodes s" using st(3) neq by (simp add: hb_nodes_def)
  have rep: "ft_abs st r = ft_abs (store s) r" if "replayedGraph (graph s) = Some r" for r
  proof -
    have "ft_abs (store s) r \<noteq> None" using I(8) that by (auto simp: replay_ok_def)
    then have "r \<noteq> t" using assms(2) by (auto simp: ft_abs_None)
    then show ?thesis using st(3) by simp
  qed
  have "replay_ok env ?s = replay_ok env s"
    using rep ns by (simp add: replay_ok_def split: option.split)
  then have "hb_inv env ?s"
    using assms(1) st neq ns unfolding hb_inv_def by auto
  with st ns show ?thesis by (auto simp: hb_makeImmutableClone_def)
qed

subsection \<open>Reachable states\<close>

text \<open>Everything an execution state does with its graph. \<^verbatim>\<open>Spawn\<close> is the construction
  of a thread object, whose \<^verbatim>\<open>lastHbNode\<close> is 0; \<^verbatim>\<open>CloneGraph\<close> makes an
  immutable clone under a fresh identity, and \<^verbatim>\<open>StartReplay\<close> begins, on an empty
  graph, the replay of one made earlier. What the callers have to respect is
  \<^verbatim>\<open>hb_legal\<close>: node identifiers they pass as sources exist, and a new thread has a
  new identifier.\<close>

datatype ('u, 'c, 'o) hb_op =
    Spawn 'u
  | AddInput 'u 'c 'o
  | AddThread 'u 'c
  | AddNewThread 'u 'c "('u \<times> 'c) option"
  | ReplayInput 'u 'c
  | AddEdge nat nat
  | AddConservativeEdge nat
  | SourceSink "'u set" "'u \<Rightarrow> 'c" nat nat
  | AddToGroup nat nat
  | RemoveGroup nat
  | FromGroup nat nat
  | ToGroup nat nat
  | ClearGraph
  | CloneGraph nat
  | StartReplay nat nat

fun hb_legal :: "('u::linorder, 'c, 'o) hb_op \<Rightarrow> ('u, 'c, 'o) hbstate \<Rightarrow> bool" where
  "hb_legal (Spawn u) s \<longleftrightarrow> lastHbNode s u = None \<and> last_of u (hb_nodes s) = 0"
| "hb_legal (AddNewThread u c creator) s \<longleftrightarrow> last_of u (hb_nodes s) = 0 \<and> (\<forall>v d. creator = Some (v, d) \<longrightarrow> v \<noteq> u)"
| "hb_legal (AddEdge from to) s \<longleftrightarrow> from \<le> length (hb_nodes s)"
| "hb_legal (SourceSink us c source sink) s \<longleftrightarrow> source \<le> length (hb_nodes s)"
| "hb_legal (AddToGroup n g) s \<longleftrightarrow> n \<le> length (hb_nodes s)"
| "hb_legal (ToGroup n g) s \<longleftrightarrow> n \<le> length (hb_nodes s)"
| "hb_legal (CloneGraph t) s \<longleftrightarrow> traces (store s) t = None"
| "hb_legal (StartReplay r maxId) s \<longleftrightarrow> hb_nodes s = [] \<and> r \<noteq> gnodes (graph s) \<and> traces (store s) r \<noteq> None"
| "hb_legal _ s \<longleftrightarrow> True"

fun hb_exec :: "'c hbenv \<Rightarrow> ('u::linorder, 'c, 'o) hb_op \<Rightarrow> ('u, 'c, 'o) hbstate \<Rightarrow> ('u, 'c, 'o) hbstate option" where
  "hb_exec env (Spawn u) s = Some (s\<lparr> lastHbNode := (lastHbNode s)(u \<mapsto> 0) \<rparr>)"
| "hb_exec env (AddInput u c i) s = map_option snd (hb_addNodeForInput env u c i s)"
| "hb_exec env (AddThread u c) s = map_option snd (hb_addNodeForThread env u c s)"
| "hb_exec env (AddNewThread u c creator) s = map_option snd (hb_addNodeForNewThread env u c creator s)"
| "hb_exec env (ReplayInput u c) s = map_option snd (hb_replayNextInput env u c s)"
| "hb_exec env (AddEdge from to) s = hb_addEdge env from to s"
| "hb_exec env (AddConservativeEdge to) s = hb_addConservativeEdge env to s"
| "hb_exec env (SourceSink us c source sink) s = hb_addSourceSinkEdgesAll env us c source sink s"
| "hb_exec env (AddToGroup n g) s = Some (hb_addNodeToGroup n g s)"
| "hb_exec env (RemoveGroup g) s = Some (hb_removeGroup g s)"
| "hb_exec env (FromGroup g n) s = hb_addEdgesFromGroup env g n s"
| "hb_exec env (ToGroup n g) s = hb_addEdgesToGroup env n g s"
| "hb_exec env ClearGraph s = hb_clear s"
| "hb_exec env (CloneGraph t) s = map_option snd (hb_makeImmutableClone t s)"
| "hb_exec env (StartReplay r maxId) s = hb_startReplay r maxId s"

definition empty_graph :: "nat \<Rightarrow> 'u hbgraph" where
  "empty_graph t = \<lparr> kstate = True, gnodes = t, groupMap = map_empty, threadOrders = map_empty,
     replayedGraph = None, replayedGraphMaxId = 0 \<rparr>"

inductive hb_reachable :: "'c hbenv \<Rightarrow> ('u::linorder, 'c, 'o) hbstate \<Rightarrow> bool" for env where
  hb_start: "ft_inv st \<Longrightarrow> ft_abs st t = Some [] \<Longrightarrow>
     hb_reachable env \<lparr> store = st, graph = empty_graph t, lastHbNode = Map.empty \<rparr>"
| hb_step: "hb_reachable env s \<Longrightarrow> hb_legal op s \<Longrightarrow> hb_exec env op s = Some s' \<Longrightarrow> hb_reachable env s'"

text \<open>A run of legal operations, and a concrete one that the witnesses below use.\<close>

fun hb_run :: "'c hbenv \<Rightarrow> ('u::linorder, 'c, 'o) hb_op list \<Rightarrow> ('u, 'c, 'o) hbstate \<Rightarrow> ('u, 'c, 'o) hbstate option" where
  "hb_run env [] s = Some s"
| "hb_run env (op # ops) s =
     (if hb_legal op s then Option.bind (hb_exec env op s) (hb_run env ops) else None)"

definition demo_env :: "nat hbenv" where
  "demo_env = \<lparr> ctxEmpty = (\<lambda>c. c = 0), ctxIgnorable = (\<lambda>c. c = 9), ctxStrip = (\<lambda>c. c), alwaysReplayInputs = True \<rparr>"

definition demo_start :: "(nat, nat, nat) hbstate" where
  "demo_start = \<lparr> store = \<lparr> heap = [0 \<mapsto> \<lparr> refCount = 1, data = [] \<rparr>], nextAddr = 1,
       traces = [0 \<mapsto> \<lparr> nodes = [0], nelems = 0 \<rparr>] \<rparr>,
     graph = empty_graph 0, lastHbNode = Map.empty \<rparr>"

definition demo_ops :: "(nat, nat, nat) hb_op list" where
  "demo_ops = [Spawn 1, AddNewThread 1 5 None, AddThread 1 6, Spawn 2, AddNewThread 2 7 (Some (1, 8)), AddThread 1 3]"

lemma hb_replayNextInput_inv:
  "hb_inv env s \<Longrightarrow> hb_replayNextInput env u c s = Some (k, s') \<Longrightarrow> hb_inv env s'"
  by (auto simp: hb_replayNextInput_def Let_def split: option.splits if_splits)
     (metis hb_addNodeForInput_inv)+

lemma hb_exec_inv:
  assumes "hb_inv env s" "hb_legal op s" "hb_exec env op s = Some s'"
  shows "hb_inv env s'"
proof (cases op)
  case (Spawn u)
  then have "hb_inv env (s\<lparr> lastHbNode := (lastHbNode s)(u \<mapsto> 0) \<rparr>)"
    using assms(1,2) unfolding hb_inv_def by auto
  then show ?thesis using assms(3) Spawn by simp
next
  case (SourceSink us c source sink)
  then show ?thesis
    using assms hb_addSourceSinkEdges_loop_inv [OF assms(1), of "sorted_list_of_set us" c source sink s']
    by (auto simp: hb_addSourceSinkEdgesAll_def split: if_splits)
next
  case ClearGraph
  then show ?thesis using assms(3) hb_clear_inv [OF assms(1)] by auto
next
  case (CloneGraph t)
  then show ?thesis using assms(2,3) hb_makeImmutableClone_inv [OF assms(1), of t] by auto
next
  case (StartReplay r maxId)
  then have s': "s' = s\<lparr> graph := (graph s)\<lparr> replayedGraph := Some r, replayedGraphMaxId := maxId \<rparr> \<rparr>"
    using assms(3) by (auto simp: hb_startReplay_def split: if_splits)
  then have "hb_nodes s' = hb_nodes s" by (simp add: hb_nodes_def)
  then show ?thesis using assms(1,2) StartReplay s' unfolding hb_inv_def
    by (auto simp: replay_ok_def ft_abs_def)
qed (use assms hb_addNodeForInput_inv [OF assms(1)] hb_addNodeForThread_inv [OF assms(1)]
      hb_addNodeForNewThread_inv [OF assms(1)] hb_replayNextInput_inv [OF assms(1)]
      hb_addEdge_inv [OF assms(1)] hb_addConservativeEdge_inv [OF assms(1)]
      hb_addNodeToGroup_inv [OF assms(1)] hb_removeGroup_inv [OF assms(1)]
      hb_addEdgesFromGroup_inv [OF assms(1)] hb_addEdgesToGroup_inv [OF assms(1)] in \<open>force+\<close>)

lemma hb_reachable_inv: "hb_reachable env s \<Longrightarrow> hb_inv env s"
proof (induction rule: hb_reachable.induct)
  case (hb_start st t)
  let ?s = "\<lparr> store = st, graph = empty_graph t, lastHbNode = Map.empty \<rparr>"
  have "hb_nodes ?s = []" using hb_start by (simp add: hb_nodes_def empty_graph_def)
  with hb_start show ?case unfolding hb_inv_def by (simp add: empty_graph_def replay_ok_def)
next
  case (hb_step s op s')
  then show ?case by (blast intro: hb_exec_inv)
qed

subsection \<open>Happens-before\<close>

definition hb_edges :: "('u, 'c, 'o) hbnode list \<Rightarrow> (nat \<times> nat) set" where
  "hb_edges ns = {(e, Suc i) | e i. i < length ns \<and> e \<in> set (incoming (ns ! i))}"

lemma last_of_ge: "i < k \<Longrightarrow> k \<le> length ns \<Longrightarrow> Suc i \<le> last_of (tuid (ns ! i)) (take k ns)"
proof (induction k)
  case (Suc k)
  then show ?case by (cases "i = k") (auto simp: take_Suc_id)
qed simp

lemma chain_program_order:
  assumes "chain_ok ns"
  shows "j < length ns \<Longrightarrow> i < j \<Longrightarrow> tuid (ns ! i) = tuid (ns ! j) \<Longrightarrow> (Suc i, Suc j) \<in> (hb_edges ns)\<^sup>+"
proof (induction j rule: less_induct)
  case (less j)
  let ?l = "last_of (tuid (ns ! j)) (take j ns)"
  have l: "Suc i \<le> ?l" using last_of_ge [of i j ns] less.prems by simp
  have lj: "?l \<le> j" using last_of_le [of _ "take j ns"] less.prems by simp
  have t: "tuid (ns ! (?l - 1)) = tuid (ns ! j)"
    using last_of_thread [of "tuid (ns ! j)" "take j ns"] l lj by simp
  have "?l \<in> set (incoming (ns ! j))" using assms l less.prems(1) by (auto simp: chain_ok_def)
  then have e: "(?l, Suc j) \<in> hb_edges ns" using less.prems(1) by (auto simp: hb_edges_def)
  show ?case
  proof (cases "?l = Suc i")
    case False
    then have "(Suc i, Suc (?l - 1)) \<in> (hb_edges ns)\<^sup>+"
      using less.IH [of "?l - 1"] less.prems l lj t by simp
    then show ?thesis using e l by (metis Suc_diff_1 Suc_le_eq less_le_trans trancl.simps zero_less_Suc)
  qed (use e in auto)
qed

lemma orders_filter:
  "orders_ok ns \<Longrightarrow> map threadOrder (filter (\<lambda>n. tuid n = u) ns) = [1..<Suc (thread_count u ns)]"
proof (induction ns rule: rev_induct)
  case (snoc n ns)
  have "orders_ok ns"
    unfolding orders_ok_def
  proof (intro allI impI)
    fix i assume "i < length ns"
    then show "threadOrder (ns ! i) = thread_count (tuid (ns ! i)) (take (Suc i) ns)"
      using snoc.prems by (auto simp: orders_ok_def nth_append dest!: spec [of _ i])
  qed
  moreover have "threadOrder n = thread_count (tuid n) ns + 1"
    using snoc.prems by (auto simp: orders_ok_def dest!: spec [of _ "length ns"])
  ultimately show ?case using snoc.IH by auto
qed simp

lemma hb_run_reachable: "hb_reachable env s \<Longrightarrow> hb_run env ops s = Some s' \<Longrightarrow> hb_reachable env s'"
  by (induction ops arbitrary: s) (auto split: if_splits intro: hb_step)

lemma demo_start_reachable: "hb_reachable demo_env demo_start"
  unfolding demo_start_def
  by (rule hb_start) (auto simp: ft_inv_def live_pos_def rc_def occ_def trace_ok_def contents_def hdata_def ft_abs_def split: if_splits)

lemmas demo_eval = demo_ops_def demo_env_def demo_start_def hb_addNodeForNewThread_def hb_addNodeForThread_def hb_addNode_def
    ft_push_back_def hb_size_def hb_nodes_def ft_abs_def contents_def hdata_def empty_graph_def last_of_def
    map_lookup_def map_replace_def map_empty_def newNode_def balance_def hb_checkNodeForReplay_def set_trace_def Let_def

lemma demo_state:
  obtains s where "hb_run demo_env demo_ops demo_start = Some s" "hb_reachable demo_env s"
    "map (\<lambda>n. (threadOrder n, tuid n, incoming n)) (hb_nodes s) =
       [(1, 1, []), (2, 1, [1]), (3, 1, [2]), (1, 2, [3]), (4, 1, [3])]"
proof -
  have "map_option (map (\<lambda>n. (threadOrder n, tuid n, incoming n)) o hb_nodes) (hb_run demo_env demo_ops demo_start) =
      Some [(1, 1, []), (2, 1, [1]), (3, 1, [2]), (1, 2, [3]), (4, 1, [3])]"
    by (simp add: demo_eval)
  then show ?thesis using that hb_run_reachable [OF demo_start_reachable] by (auto simp: o_def)
qed

subsection \<open>Other graphs are left alone\<close>

text \<open>An operation on the graph keeps its trace and the contents of every other trace.\<close>

definition hb_frame :: "('u, 'c, 'o) hbstate \<Rightarrow> ('u, 'c, 'o) hbstate \<Rightarrow> bool" where
  "hb_frame s s' \<longleftrightarrow> gnodes (graph s') = gnodes (graph s) \<and>
     (\<forall>r xs. r \<noteq> gnodes (graph s) \<longrightarrow> ft_abs (store s) r = Some xs \<longrightarrow> ft_abs (store s') r = Some xs)"

lemma hb_frame_refl [simp]: "hb_frame s s"
  by (simp add: hb_frame_def)

lemma hb_frame_last [simp]: "hb_frame s (s'\<lparr> lastHbNode := f \<rparr>) = hb_frame s s'"
  by (simp add: hb_frame_def)

lemma hb_frame_trans: "hb_frame s s' \<Longrightarrow> hb_frame s' s'' \<Longrightarrow> hb_frame s s''"
  by (simp add: hb_frame_def)

lemma hb_addNode_frame:
  assumes "hb_inv env s" "hb_addNode env u c inp l s = Some (k, s')"
  shows "hb_frame s s'"
  using assms by (cases rule: hb_addNode_cases) (auto simp: hb_frame_def)

lemma hb_addNodeForThread_frame:
  "hb_inv env s \<Longrightarrow> hb_addNodeForThread env u c s = Some (k, s') \<Longrightarrow> hb_frame s s'"
  by (auto simp: hb_addNodeForThread_def split: if_splits) (metis hb_addNode_frame)

lemma hb_addNodeForInput_frame:
  "hb_inv env s \<Longrightarrow> hb_addNodeForInput env u c i s = Some (k, s') \<Longrightarrow> hb_frame s s'"
  by (auto simp: hb_addNodeForInput_def split: if_splits) (metis hb_addNode_frame)

lemma hb_addNodeForNewThread_frame:
  assumes "hb_inv env s" "hb_addNodeForNewThread env u c creator s = Some (k, s')"
  shows "hb_frame s s'"
proof (cases creator)
  case None
  then obtain s1 where "hb_addNode env u c None 0 s = Some (k, s1)" "s' = s1\<lparr> lastHbNode := (lastHbNode s1)(u \<mapsto> k) \<rparr>"
    using assms(2) by (auto simp: hb_addNodeForNewThread_def split: if_splits)
  then show ?thesis using hb_addNode_frame [OF assms(1)] by simp
next
  case (Some p)
  obtain v d where p: "p = (v, d)" by force
  then obtain l s1 s2 where s1: "hb_addNodeForThread env v d s = Some (l, s1)"
    "hb_addNode env u c None l s1 = Some (k, s2)" "s' = s2\<lparr> lastHbNode := (lastHbNode s2)(u \<mapsto> k) \<rparr>"
    using assms(2) Some by (auto simp: hb_addNodeForNewThread_def split: if_splits)
  have "hb_frame s s1" using hb_addNodeForThread_frame [OF assms(1) s1(1)] .
  moreover have "hb_inv env s1" using hb_addNodeForThread_inv [OF assms(1) s1(1)] by simp
  then have "hb_frame s1 s2" using s1(2) by (rule hb_addNode_frame)
  ultimately show ?thesis using s1(3) hb_frame_trans by auto
qed

lemma hb_replayNextInput_frame:
  "hb_inv env s \<Longrightarrow> hb_replayNextInput env u c s = Some (k, s') \<Longrightarrow> hb_frame s s'"
  by (auto simp: hb_replayNextInput_def Let_def split: option.splits if_splits)
     (metis hb_addNodeForInput_frame)+

lemma ptr_write_frame:
  assumes "hb_inv env s" "hb_getMutableNode k s = Some p" "ptr_write p v (store s) = Some st"
  shows "hb_frame s (s\<lparr> store := st \<rparr>)"
proof -
  obtain st' where "ptr_write p v (store s) = Some st'"
    "ft_abs st' = (ft_abs (store s))(gnodes (graph s) \<mapsto> (hb_nodes s)[k - 1 := v])"
    using hb_getMutableNode_spec [OF hb_invD(1,2) [OF assms(1)] assms(2)] by blast
  with assms(3) show ?thesis by (auto simp: hb_frame_def)
qed

lemma hb_addEdge_frame:
  "hb_inv env s \<Longrightarrow> hb_addEdge env from to s = Some s' \<Longrightarrow> hb_frame s s'"
  by (auto simp: hb_addEdge_def Let_def split: if_splits dest: ptr_write_frame)

lemma hb_addConservativeEdge_frame:
  "hb_inv env s \<Longrightarrow> hb_addConservativeEdge env to s = Some s' \<Longrightarrow> hb_frame s s'"
  by (auto simp: hb_addConservativeEdge_def Let_def split: if_splits dest: ptr_write_frame)

lemma edges_from_frame:
  "hb_inv env s \<Longrightarrow> edges_from env ns k s = Some s' \<Longrightarrow> \<forall>n\<in>set ns. n \<le> length (hb_nodes s) \<Longrightarrow> hb_frame s s'"
proof (induction ns arbitrary: s)
  case (Cons n ns)
  then obtain s1 where s1: "hb_addEdge env n k s = Some s1" "edges_from env ns k s1 = Some s'" by auto
  have "hb_frame s1 s'"
    using Cons.IH [of s1] hb_addEdge_inv' [OF Cons.prems(1) s1(1)] s1(2) Cons.prems(3) by auto
  then show ?case using hb_addEdge_frame [OF Cons.prems(1) s1(1)] by (rule hb_frame_trans [rotated])
qed auto

lemma edges_to_frame:
  "hb_inv env s \<Longrightarrow> edges_to env k ns s = Some s' \<Longrightarrow> k \<le> length (hb_nodes s) \<Longrightarrow> hb_frame s s'"
proof (induction ns arbitrary: s)
  case (Cons n ns)
  then obtain s1 where s1: "hb_addEdge env k n s = Some s1" "edges_to env k ns s1 = Some s'" by auto
  have "hb_frame s1 s'"
    using Cons.IH [of s1] hb_addEdge_inv' [OF Cons.prems(1) s1(1)] s1(2) Cons.prems(3) by auto
  then show ?case using hb_addEdge_frame [OF Cons.prems(1) s1(1)] by (rule hb_frame_trans [rotated])
qed auto

lemma hb_addSourceSinkEdges_frame:
  assumes "hb_inv env s" "hb_addSourceSinkEdges env u c source sink s = Some s'" "source \<le> length (hb_nodes s)"
  shows "hb_frame s s'"
proof (cases "source = 0 \<and> sink = 0")
  case True
  then show ?thesis using assms by (auto simp: hb_addSourceSinkEdges_def split: if_splits)
next
  case nz: False
  then obtain t s1 where t: "hb_addNodeForThread env u c s = Some (t, s1)"
    using assms(2) by (auto simp: hb_addSourceSinkEdges_def split: if_splits)
  have A: "hb_inv env s1" "t \<le> length (hb_nodes s1)" "length (hb_nodes s) \<le> length (hb_nodes s1)"
    using hb_addNodeForThread_inv [OF assms(1) t] by auto
  have F: "hb_frame s s1" using hb_addNodeForThread_frame [OF assms(1) t] .
  have "hb_frame s1 s'"
  proof (cases "source = sink")
    case True
    then obtain t1 s2 s3 where s2: "hb_addNodeForThread env u c s1 = Some (t1, s2)"
      "hb_addEdge env t source s2 = Some s3" "hb_addEdge env source t1 s3 = Some s'"
      using assms(2) t nz by (auto simp: hb_addSourceSinkEdges_def split: if_splits)
    have B: "hb_inv env s2" "length (hb_nodes s1) \<le> length (hb_nodes s2)"
      using hb_addNodeForThread_inv [OF A(1) s2(1)] by auto
    have C: "hb_inv env s3" using hb_addEdge_inv' [OF B(1) s2(2)] A(2) B(2) by simp
    show ?thesis
      using hb_addNodeForThread_frame [OF A(1) s2(1)] hb_addEdge_frame [OF B(1) s2(2)] hb_addEdge_frame [OF C s2(3)]
        hb_frame_trans by metis
  next
    case False
    consider (one) f k where "hb_addEdge env f k s1 = Some s'"
      | (two) s2 where "hb_addEdge env source t s1 = Some s2" "hb_addEdge env t sink s2 = Some s'"
      using assms(2) t nz False by (auto simp: hb_addSourceSinkEdges_def split: if_splits)
    then show ?thesis
    proof cases
      case two
      then have "hb_inv env s2" using hb_addEdge_inv' [OF A(1) two(1)] A assms(3) by simp
      then show ?thesis using two hb_addEdge_frame [OF A(1) two(1)] hb_addEdge_frame hb_frame_trans by metis
    qed (use hb_addEdge_frame [OF A(1)] in metis)
  qed
  with F show ?thesis by (rule hb_frame_trans)
qed

lemma hb_addSourceSinkEdges_loop_frame:
  "hb_inv env s \<Longrightarrow> hb_addSourceSinkEdges_loop env us c source sink s = Some s' \<Longrightarrow> source \<le> length (hb_nodes s) \<Longrightarrow>
     hb_frame s s'"
proof (induction us arbitrary: s)
  case (Cons u us)
  then obtain s1 where s1: "hb_addSourceSinkEdges env u (c u) source sink s = Some s1"
    "hb_addSourceSinkEdges_loop env us c source sink s1 = Some s'" by auto
  have "hb_frame s1 s'"
    using Cons.IH [of s1] hb_addSourceSinkEdges_inv [OF Cons.prems(1) s1(1) Cons.prems(3)] s1(2) Cons.prems(3) by auto
  then show ?case
    using hb_addSourceSinkEdges_frame [OF Cons.prems(1) s1(1) Cons.prems(3)] by (rule hb_frame_trans [rotated])
qed auto

lemma hb_group_frame:
  assumes "hb_inv env s"
  shows "hb_addEdgesFromGroup env g k s = Some s' \<Longrightarrow> hb_frame s s'"
    "hb_addEdgesToGroup env k g s = Some s' \<Longrightarrow> k \<le> length (hb_nodes s) \<Longrightarrow> hb_frame s s'"
    "hb_frame s (hb_addNodeToGroup k g s)" "hb_frame s (hb_removeGroup g s)"
  using assms group_elements [OF assms, of g]
  by (auto simp: hb_addEdgesFromGroup_def hb_addEdgesToGroup_def hb_addNodeToGroup_def hb_removeGroup_def hb_frame_def [of s "_ s"] Let_def
      split: if_splits option.splits dest: edges_from_frame edges_to_frame)

lemma hb_clear_frame:
  assumes "hb_inv env s" "hb_clear s = Some s'"
  shows "hb_frame s s'"
proof -
  obtain tr where "traces (store s) (gnodes (graph s)) = Some tr" using hb_invD(2) [OF assms(1)] by (auto simp: ft_abs_Some)
  then obtain st where "ft_clear (gnodes (graph s)) (store s) = Some st"
    "ft_abs st = (ft_abs (store s))(gnodes (graph s) \<mapsto> [])"
    using ft_clear_spec [OF hb_invD(1) [OF assms(1)]] by blast
  then show ?thesis using assms(2) hb_invD(3) [OF assms(1)] by (auto simp: hb_clear_def hb_frame_def)
qed

lemma hb_clone_frame:
  assumes "hb_inv env s" "traces (store s) t = None" "hb_makeImmutableClone t s = Some (g, s')"
  shows "hb_frame s s'"
proof -
  have "gnodes (graph s') = gnodes (graph s)" using assms(3) by (auto simp: hb_makeImmutableClone_def)
  moreover have "ft_abs (store s') r = ft_abs (store s) r" if "ft_abs (store s) r = Some xs" for r xs
    using hb_makeImmutableClone_inv [OF assms(1,2)] assms(2,3) that by (cases "r = t") (auto simp: ft_abs_def)
  ultimately show ?thesis by (simp add: hb_frame_def)
qed

lemma hb_exec_frame:
  assumes "hb_inv env s" "hb_legal op s" "hb_exec env op s = Some s'"
  shows "hb_frame s s'"
proof (cases op)
  case (SourceSink us c source sink)
  then show ?thesis
    using assms hb_addSourceSinkEdges_loop_frame [OF assms(1), of "sorted_list_of_set us" c source sink s']
    by (auto simp: hb_addSourceSinkEdgesAll_def split: if_splits)
next
  case (CloneGraph t)
  then show ?thesis using assms hb_clone_frame [OF assms(1), of t] by auto
next
  case (StartReplay r maxId)
  then show ?thesis using assms(3) by (auto simp: hb_startReplay_def hb_frame_def split: if_splits)
qed (use assms hb_addNodeForInput_frame [OF assms(1)] hb_addNodeForThread_frame [OF assms(1)]
      hb_addNodeForNewThread_frame [OF assms(1)] hb_replayNextInput_frame [OF assms(1)]
      hb_addEdge_frame [OF assms(1)] hb_addConservativeEdge_frame [OF assms(1)]
      hb_group_frame [OF assms(1)] hb_clear_frame [OF assms(1)] in \<open>force+\<close>)

lemma hb_run_inv_frame:
  "hb_inv env s \<Longrightarrow> hb_run env ops s = Some s' \<Longrightarrow> hb_inv env s' \<and> hb_frame s s'"
proof (induction ops arbitrary: s)
  case (Cons op ops)
  then obtain s1 where s1: "hb_legal op s" "hb_exec env op s = Some s1" "hb_run env ops s1 = Some s'"
    by (auto split: if_splits)
  have "hb_inv env s1" "hb_frame s s1"
    using hb_exec_inv [OF Cons.prems(1) s1(1,2)] hb_exec_frame [OF Cons.prems(1) s1(1,2)] by auto
  then show ?case using Cons.IH [of s1] s1(3) hb_frame_trans [of s s1 s'] by auto
qed auto

subsection \<open>Comparing and iterating\<close>

lemma hbnode_equal_iff: "hbnode_equal a b \<longleftrightarrow> a = (b :: ('u, 'c, 'o) hbnode)"
  by (auto simp: hbnode_equal_def)

lemma nodes_equal_loop_spec:
  assumes "ft_inv st" "ft_abs st t = Some xs" "ft_abs st r = Some ys"
  shows "1 \<le> a \<Longrightarrow> 1 \<le> b \<Longrightarrow> a + n \<le> length xs + 1 \<Longrightarrow> b + n \<le> length ys + 1 \<Longrightarrow>
    nodes_equal_loop t a r b n st = Some (take n (drop (a - 1) xs) = take n (drop (b - 1) ys))"
proof (induction n arbitrary: a b)
  case (Suc n)
  have get: "hb_getNode t a st = Some (xs ! (a - 1))" "hb_getNode r b st = Some (ys ! (b - 1))"
    using hb_getNode_spec [OF assms(1,2), of a] hb_getNode_spec [OF assms(1,3), of b] Suc.prems by auto
  have d: "drop (a - Suc 0) xs = xs ! (a - Suc 0) # drop a xs" "drop (b - Suc 0) ys = ys ! (b - Suc 0) # drop b ys"
    using Suc.prems Cons_nth_drop_Suc [of "a - 1" xs] Cons_nth_drop_Suc [of "b - 1" ys] by simp_all
  show ?case using get Suc.IH [of "a + 1" "b + 1"] Suc.prems by (auto simp: d hbnode_equal_iff)
qed simp

lemma skipToMatching_at:
  "p \<le> length (concat D) \<Longrightarrow> length (concat D) - p \<le> fuel \<Longrightarrow>
     skipToMatchingThread u D fuel (it_at D p) =
       Some (it_at D (p + length (takeWhile (\<lambda>n. tuid n \<noteq> u) (drop p (concat D)))))"
proof (induction fuel arbitrary: p)
  case 0
  then show ?case by (subst skipToMatchingThread.simps) (simp add: makeFromEnd_at)
next
  case (Suc fuel)
  show ?case
  proof (cases "p = length (concat D)")
    case True
    then show ?thesis by (subst skipToMatchingThread.simps) (simp add: makeFromEnd_at)
  next
    case False
    with Suc.prems have p: "p < length (concat D)" by simp
    have ne: "it_at D p \<noteq> makeFromEnd D" using it_at_cases [OF p] by (auto simp: makeFromEnd_def)
    have d: "drop p (concat D) = concat D ! p # drop (Suc p) (concat D)" using p by (simp add: Cons_nth_drop_Suc)
    show ?thesis
      using Suc.IH [of "Suc p"] Suc.prems p ne
      by (subst skipToMatchingThread.simps) (simp add: fiter_deref_at fiter_incr_at d)
  qed
qed

lemma toi_advance_at:
  "p \<le> length (concat D) \<Longrightarrow> toi_advance D n (it_at D p) = Some (it_at D (min (p + n) (length (concat D))))"
proof (induction n arbitrary: p)
  case (Suc n)
  show ?case
  proof (cases "p = length (concat D)")
    case True
    then show ?thesis by (simp add: makeFromEnd_at)
  next
    case False
    with Suc.prems have p: "p < length (concat D)" by simp
    have "it_at D p \<noteq> makeFromEnd D" using it_at_cases [OF p] by (auto simp: makeFromEnd_def)
    with Suc.IH [of "Suc p"] p show ?thesis by (simp add: fiter_incr_at)
  qed
qed simp

text \<open>The position of the first node of a thread at or after a position.\<close>

definition next_of :: "'u \<Rightarrow> ('u, 'c, 'o) hbnode list \<Rightarrow> nat \<Rightarrow> nat" where
  "next_of u ns p = p + length (takeWhile (\<lambda>n. tuid n \<noteq> u) (drop p ns))"

lemma next_of_le: "p \<le> length ns \<Longrightarrow> next_of u ns p \<le> length ns"
  using length_takeWhile_le [of "\<lambda>n. tuid n \<noteq> u" "drop p ns"] by (simp add: next_of_def)

lemma next_of_step: "p < length ns \<Longrightarrow> next_of u ns p = (if tuid (ns ! p) = u then p else next_of u ns (Suc p))"
proof -
  assume p: "p < length ns"
  then have "drop p ns = ns ! p # drop (Suc p) ns" by (simp add: Cons_nth_drop_Suc)
  then show ?thesis by (simp add: next_of_def)
qed

lemma next_of_thread: "next_of u ns p < length ns \<Longrightarrow> tuid (ns ! next_of u ns p) = u"
proof (induction "length ns - p" arbitrary: p)
  case 0
  then show ?case by (simp add: next_of_def)
next
  case (Suc d)
  then show ?case using next_of_step [of p ns u] by (cases "tuid (ns ! p) = u") auto
qed

lemma next_of_ge: "p \<le> next_of u ns p"
  by (simp add: next_of_def)

lemma filter_next_of:
  "p \<le> q \<Longrightarrow> q \<le> length ns \<Longrightarrow> next_of u ns p = next_of u ns q \<Longrightarrow> filter (\<lambda>n. tuid n = u) (take (q - p) (drop p ns)) = []"
proof (induction "q - p" arbitrary: p)
  case (Suc d)
  then have p: "p < length ns" "p < q" by auto
  have "tuid (ns ! p) \<noteq> u"
    using Suc.prems(3) next_of_step [OF p(1), of u] next_of_ge [of q u ns] p(2) by (auto split: if_splits)
  moreover have "take (q - p) (drop p ns) = ns ! p # take (q - Suc p) (drop (Suc p) ns)"
    using p Suc.hyps(2) Cons_nth_drop_Suc [of p ns] by (metis Suc_diff_Suc take_Suc_Cons)
  ultimately show ?case using Suc next_of_step [OF p(1), of u] p by auto
qed simp

lemma next_of_between: "p \<le> q \<Longrightarrow> q \<le> next_of u ns p \<Longrightarrow> next_of u ns p \<le> length ns \<Longrightarrow> next_of u ns p = next_of u ns q"
proof (induction "q - p" arbitrary: p)
  case (Suc d)
  then have p: "p < length ns" "p < q" by linarith+
  then have "next_of u ns p = next_of u ns (Suc p)"
    using next_of_step [OF p(1), of u] Suc.prems(2) by (auto split: if_splits)
  then show ?case using Suc p by simp
qed simp

lemma filter_from_next:
  "next_of u ns p < q \<Longrightarrow> q \<le> length ns \<Longrightarrow> filter (\<lambda>n. tuid n = u) (take (q - p) (drop p ns)) =
     ns ! next_of u ns p # filter (\<lambda>n. tuid n = u) (take (q - Suc (next_of u ns p)) (drop (Suc (next_of u ns p)) ns))"
proof (induction "q - p" arbitrary: p)
  case 0
  then show ?case using next_of_ge [of p u ns] by simp
next
  case (Suc d)
  have p: "p < q" "p < length ns" using Suc.hyps(2) Suc.prems by auto
  have t: "take (q - p) (drop p ns) = ns ! p # take (q - Suc p) (drop (Suc p) ns)"
    using p Cons_nth_drop_Suc [of p ns] by (metis Suc_diff_Suc take_Suc_Cons)
  show ?case
  proof (cases "tuid (ns ! p) = u")
    case True
    then have "next_of u ns p = p" using next_of_step [OF p(2), of u] by simp
    with True t show ?thesis by simp
  next
    case False
    then have "next_of u ns p = next_of u ns (Suc p)" using next_of_step [OF p(2), of u] by simp
    with False t Suc show ?thesis by simp
  qed
qed

lemma threadOrderFrom_at:
  "threadOrderFrom u D k = Some (it_at D (next_of u (concat D) (min (k - 1) (length (concat D)))))"
  using toi_advance_at [of 0 D "k - 1"] skipToMatching_at [of "min (k - 1) (length (concat D))" D "length (concat D)" u]
  by (simp add: threadOrderFrom_def makeFromBegin_at next_of_def)

lemma it_at_pos:
  assumes "p \<le> length (concat D)"
  shows "length (concat (take (fst (it_at D p)) D)) + snd (it_at D p) = p"
proof (cases "p = length (concat D)")
  case True
  then show ?thesis by (simp add: it_at_end)
next
  case False
  then show ?thesis using it_at_cases [of p D] assms by auto
qed

lemma it_at_inj:
  "p \<le> length (concat D) \<Longrightarrow> q \<le> length (concat D) \<Longrightarrow> it_at D p = it_at D q \<longleftrightarrow> p = q"
  by (metis it_at_pos)

lemma toi_collect_at:
  assumes "q \<le> length (concat D)" "p \<le> q" "length (concat D) - p \<le> fuel"
  shows "toi_collect u D fuel (it_at D (next_of u (concat D) p)) (it_at D (next_of u (concat D) q)) =
    Some (filter (\<lambda>n. tuid n = u) (take (q - p) (drop p (concat D))))"
  using assms
proof (induction fuel arbitrary: p)
  case 0
  then have "p = q" "q = length (concat D)" by auto
  then show ?case by (subst toi_collect.simps) simp
next
  case (Suc fuel)
  let ?ns = "concat D"
  let ?p = "next_of u ?ns p" and ?q = "next_of u ?ns q"
  have le: "?p \<le> length ?ns" "?q \<le> length ?ns" using next_of_le Suc.prems by (auto simp: next_of_le)
  show ?case
  proof (cases "?p = ?q")
    case True
    then show ?thesis using filter_next_of [of p q ?ns u] Suc.prems by (subst toi_collect.simps) simp
  next
    case False
    then have ne: "it_at D ?p \<noteq> it_at D ?q" using it_at_inj le by blast
    have pq: "?p < q"
    proof (rule ccontr)
      assume "\<not> ?p < q"
      then have "?p = ?q" using Suc.prems le(1) next_of_between [of p q u ?ns] by simp
      with False show False by simp
    qed
    then have lt: "?p < length ?ns" using Suc.prems by simp
    have "toi_incr u D (it_at D ?p) = Some (it_at D (next_of u ?ns (Suc ?p)))"
      using skipToMatching_at [of "Suc ?p" D "length ?ns" u] lt
      by (simp add: toi_incr_def fiter_incr_at next_of_def)
    moreover have "toi_collect u D fuel (it_at D (next_of u ?ns (Suc ?p))) (it_at D ?q) =
        Some (filter (\<lambda>n. tuid n = u) (take (q - Suc ?p) (drop (Suc ?p) ?ns)))"
      using Suc.IH [of "Suc ?p"] Suc.prems pq next_of_ge [of p u ?ns] by simp
    moreover have "filter (\<lambda>n. tuid n = u) (take (q - p) (drop p ?ns)) =
        ?ns ! ?p # filter (\<lambda>n. tuid n = u) (take (q - Suc ?p) (drop (Suc ?p) ?ns))"
      using filter_from_next [of u ?ns p q] pq Suc.prems by simp
    ultimately show ?thesis using ne lt by (subst toi_collect.simps) (simp add: fiter_deref_at)
  qed
qed

subsection \<open>Correctness\<close>

text \<open>C17. The graph orders each thread by its program order. In every state the executor can
  reach, of two nodes of the same thread the earlier one happens before the later one, and the
  thread's nodes are numbered 1, 2, 3, ... in that order.\<close>

theorem hb_program_order:
  assumes "hb_reachable env s" "i < j" "j < length (hb_nodes s)" "tuid (hb_nodes s ! i) = tuid (hb_nodes s ! j)"
  shows "(Suc i, Suc j) \<in> (hb_edges (hb_nodes s))\<^sup>+ \<and>
    map threadOrder (filter (\<lambda>n. tuid n = u) (hb_nodes s)) = [1..<Suc (thread_count u (hb_nodes s))]"
proof -
  have "graph_ok (hb_nodes s)" using hb_invD(7) [OF hb_reachable_inv [OF assms(1)]] .
  with assms(2-4) show ?thesis
    unfolding graph_ok_def by (blast intro: chain_program_order orders_filter)
qed

theorem hb_program_order_witness:
  "\<exists>s :: (nat, nat, nat) hbstate. hb_reachable demo_env s \<and> (2, 5) \<in> (hb_edges (hb_nodes s))\<^sup>+"
proof -
  obtain s :: "(nat, nat, nat) hbstate" where s: "hb_reachable demo_env s" "map (\<lambda>n. (threadOrder n, tuid n, incoming n)) (hb_nodes s) =
       [(1, 1, []), (2, 1, [1]), (3, 1, [2]), (1, 2, [3]), (4, 1, [3])]"
    by (rule demo_state)
  then have "tuid (hb_nodes s ! 1) = 1" "tuid (hb_nodes s ! 4) = 1" "length (hb_nodes s) = 5"
    by (auto simp: map_eq_Cons_conv)
  then have "(Suc 1, Suc 4) \<in> (hb_edges (hb_nodes s))\<^sup>+"
    using hb_program_order [OF s(1), of 1 4] by simp
  then show ?thesis using s(1) by (auto simp: numeral_eq_Suc)
qed

text \<open>C36. Every edge joins two different existing nodes.\<close>

theorem hb_edges_wellformed:
  assumes "hb_reachable env s" "(e, f) \<in> hb_edges (hb_nodes s)"
  shows "1 \<le> e \<and> e \<le> length (hb_nodes s) \<and> 1 \<le> f \<and> f \<le> length (hb_nodes s) \<and> e \<noteq> f"
  using hb_invD(7) [OF hb_reachable_inv [OF assms(1)]] assms(2)
  by (auto simp: graph_ok_def edges_ok_def hb_edges_def)

theorem hb_edges_wellformed_witness:
  "\<exists>s :: (nat, nat, nat) hbstate. hb_reachable demo_env s \<and> (3, 4) \<in> hb_edges (hb_nodes s) \<and> 4 \<le> length (hb_nodes s)"
proof -
  obtain s :: "(nat, nat, nat) hbstate" where s: "hb_reachable demo_env s" "map (\<lambda>n. (threadOrder n, tuid n, incoming n)) (hb_nodes s) =
       [(1, 1, []), (2, 1, [1]), (3, 1, [2]), (1, 2, [3]), (4, 1, [3])]"
    by (rule demo_state)
  then have "(3, 4) \<in> hb_edges (hb_nodes s)"
    by (auto simp: map_eq_Cons_conv hb_edges_def intro!: exI [of _ "3::nat"])
  then show ?thesis using hb_edges_wellformed [OF s(1), of 3 4] s(1) by auto
qed

text \<open>C28. After \<^verbatim>\<open>addConservativeEdge(to)\<close> every node of every other thread happens
  before \<^verbatim>\<open>to\<close>; the edges added come from the newest node of each other thread, one
  per thread, and no other node changes.\<close>

theorem conservative_edge_covers:
  assumes "hb_reachable env s" "hb_addConservativeEdge env to s = Some s'" "to \<noteq> 0"
    and "i < length (hb_nodes s)" "tuid (hb_nodes s ! i) \<noteq> tuid (hb_nodes s ! (to - 1))"
  shows "(Suc i, to) \<in> (hb_edges (hb_nodes s'))\<^sup>+ \<and>
    (\<forall>k < length (hb_nodes s). Suc k \<noteq> to \<longrightarrow> hb_nodes s' ! k = hb_nodes s ! k) \<and>
    (\<exists>fs. set fs = {last_of u (hb_nodes s) | u. u \<noteq> tuid (hb_nodes s ! (to - 1)) \<and> last_of u (hb_nodes s) \<noteq> 0} \<and>
       distinct fs \<and> incoming (hb_nodes s' ! (to - 1)) = incoming (hb_nodes s ! (to - 1)) @ fs)"
proof -
  let ?ns = "hb_nodes s" and ?u = "tuid (hb_nodes s ! i)"
  note I = hb_addConservativeEdge_inv [OF hb_reachable_inv [OF assms(1)] assms(2)]
  obtain fs where to: "to \<le> length ?ns"
    and fs: "set fs = {last_of u ?ns | u. u \<noteq> tuid (?ns ! (to - 1)) \<and> last_of u ?ns \<noteq> 0}" "distinct fs"
    and ns: "hb_nodes s' = ?ns[to - 1 := (?ns ! (to - 1))\<lparr> incoming := incoming (?ns ! (to - 1)) @ fs \<rparr>]"
    using I assms(3) by blast
  have k: "to - 1 < length ?ns" "Suc (to - 1) = to" using to assms(3) by auto
  let ?l = "last_of ?u ?ns"
  have l: "Suc i \<le> ?l" "?l \<le> length ?ns" using last_of_ge [of i "length ?ns" ?ns] assms(4) last_of_le [of ?u ?ns] by auto
  then have "?l \<in> set fs" using fs(1) assms(5) by auto
  then have e: "(?l, to) \<in> hb_edges (hb_nodes s')"
    using ns k by (auto simp: hb_edges_def intro!: exI [of _ "to - 1"])
  have "(Suc i, to) \<in> (hb_edges (hb_nodes s'))\<^sup>+"
  proof (cases "?l = Suc i")
    case False
    have "graph_ok (hb_nodes s')" using I hb_invD(7) by blast
    moreover have "tuid (hb_nodes s' ! m) = tuid (?ns ! m)" if "m < length ?ns" for m
      using that ns k by (auto simp: nth_list_update)
    moreover have "tuid (?ns ! (?l - 1)) = ?u" using last_of_thread [of ?u ?ns] l by auto
    ultimately have "(Suc i, Suc (?l - 1)) \<in> (hb_edges (hb_nodes s'))\<^sup>+"
      using False l assms(4) ns by (intro chain_program_order) (auto simp: graph_ok_def)
    then show ?thesis using e l by (simp add: trancl.trancl_into_trancl)
  qed (use e in auto)
  then show ?thesis using ns fs k by (auto simp: nth_list_update)
qed

definition demo_conservative :: "(nat, nat, nat) hbstate option" where
  "demo_conservative = Option.bind (hb_run demo_env demo_ops demo_start) (hb_addConservativeEdge demo_env 5)"

lemma demo_conservative_run:
  "map_option (map (\<lambda>n. (tuid n, incoming n)) o hb_nodes) demo_conservative =
     Some [(1, []), (1, [1]), (1, [2]), (2, [3]), (1, [3, 4])]"
  by (simp add: demo_conservative_def demo_eval hb_addConservativeEdge_def hb_getMutableNode_def
      ft_getMutableElementPtr_def hb_getNode_def ft_getElementAt_def ptr_write_def eval_nat_numeral)

theorem conservative_edge_covers_witness:
  "\<exists>(s :: (nat, nat, nat) hbstate) s'. hb_reachable demo_env s \<and> hb_addConservativeEdge demo_env 5 s = Some s' \<and>
     (4, 5) \<in> (hb_edges (hb_nodes s'))\<^sup>+"
proof -
  obtain s where s: "hb_run demo_env demo_ops demo_start = Some s" "hb_reachable demo_env s"
    "map (\<lambda>n. (threadOrder n, tuid n, incoming n)) (hb_nodes s) =
       [(1, 1, []), (2, 1, [1]), (3, 1, [2]), (1, 2, [3]), (4, 1, [3])]"
    by (rule demo_state)
  obtain s' where s': "hb_addConservativeEdge demo_env 5 s = Some s'"
    using demo_conservative_run s(1) by (auto simp: demo_conservative_def)
  have "length (hb_nodes s) = 5" "tuid (hb_nodes s ! 3) = 2" "tuid (hb_nodes s ! 4) = 1"
    using s(3) by (auto simp: map_eq_Cons_conv)
  then have "(Suc 3, 5) \<in> (hb_edges (hb_nodes s'))\<^sup>+"
    using conservative_edge_covers [OF s(2) s', of 3] by simp
  then have "(4, 5) \<in> (hb_edges (hb_nodes s'))\<^sup>+" by simp
  with s(2) s' show ?thesis by blast
qed

text \<open>C19. Replay. As long as no assertion fails, the graph agrees with the replayed one on every
  node up to the replay limit: same thread, same position in the thread, same calling context,
  and its incoming edges are a prefix of the recorded ones.\<close>

theorem hb_replay_agrees:
  assumes "hb_reachable env s" "alwaysReplayInputs env" "replayedGraph (graph s) = Some r" "ft_abs (store s) r = Some rs"
    and "i < length (hb_nodes s)" "Suc i \<le> replayedGraphMaxId (graph s)"
  shows "i < length rs \<and> threadOrder (hb_nodes s ! i) = threadOrder (rs ! i) \<and>
    tuid (hb_nodes s ! i) = tuid (rs ! i) \<and> callctx (hb_nodes s ! i) = callctx (rs ! i) \<and>
    incoming (hb_nodes s ! i) = take (length (incoming (hb_nodes s ! i))) (incoming (rs ! i))"
proof -
  have "i < length rs \<and> replay_match (hb_nodes s ! i) (rs ! i)"
    using hb_invD(8) [OF hb_reachable_inv [OF assms(1)]] assms(2-6) by (auto simp: replay_ok_def)
  then show ?thesis by (auto simp: replay_match_def intro!: nth_equalityI)
qed

definition demo_replay_ops :: "(nat, nat, nat) hb_op list" where
  "demo_replay_ops = demo_ops @ [CloneGraph 1, ClearGraph, StartReplay 1 5, AddNewThread 1 5 None]"

lemma demo_replay:
  obtains s rs where "hb_reachable demo_env s" "length (hb_nodes s) = 1"
    "replayedGraph (graph s) = Some 1" "replayedGraphMaxId (graph s) = 5" "ft_abs (store s) 1 = Some (rs :: (nat, nat, nat) hbnode list)"
proof -
  have "map_option (\<lambda>s. (length (hb_nodes s), replayedGraph (graph s), replayedGraphMaxId (graph s), map_option length (ft_abs (store s) 1)))
     (hb_run demo_env demo_replay_ops demo_start) = Some (1, Some 1, 5, Some 5)"
    by (simp add: demo_eval demo_replay_ops_def hb_makeImmutableClone_def ft_fork_def new_node_def ref_inc_def ref_dec_def
       hb_clear_def ft_clear_def hb_startReplay_def hb_getNode_def ft_getElementAt_def replay_match_def)
  then show ?thesis using that hb_run_reachable [OF demo_start_reachable] by auto
qed

theorem hb_replay_agrees_witness:
  "\<exists>(s :: (nat, nat, nat) hbstate) rs. hb_reachable demo_env s \<and> ft_abs (store s) 1 = Some rs \<and>
     replayedGraph (graph s) = Some 1 \<and> tuid (hb_nodes s ! 0) = tuid (rs ! 0)"
proof -
  obtain s and rs :: "(nat, nat, nat) hbnode list" where s: "hb_reachable demo_env s" "length (hb_nodes s) = 1"
    "replayedGraph (graph s) = Some 1" "replayedGraphMaxId (graph s) = 5" "ft_abs (store s) 1 = Some rs"
    by (rule demo_replay)
  then show ?thesis using hb_replay_agrees [OF s(1) _ s(3,5), of 0] by (auto simp: demo_env_def)
qed

text \<open>C29. An immutable clone never changes: whatever is done afterwards with the graph it was
  taken from, further clones and replays included, its nodes are those the graph had.\<close>

theorem hb_clone_immutable:
  assumes "hb_reachable env s" "traces (store s) t = None" "hb_makeImmutableClone t s = Some (g, s1)"
    and "hb_run env ops s1 = Some s2"
  shows "ft_abs (store s2) (gnodes g) = Some (hb_nodes s) \<and> \<not> kstate g"
proof -
  note C = hb_makeImmutableClone_inv [OF hb_reachable_inv [OF assms(1)] assms(2)]
  have c: "hb_inv env s1" "gnodes g = t" "\<not> kstate g" "ft_abs (store s1) t = Some (hb_nodes s)"
    "gnodes (graph s1) = gnodes (graph s)"
    using C assms(3) by (auto simp: hb_makeImmutableClone_def)
  have "t \<noteq> gnodes (graph s)" using hb_invD(2) [OF hb_reachable_inv [OF assms(1)]] assms(2) by (auto simp: ft_abs_def)
  then show ?thesis using hb_run_inv_frame [OF c(1) assms(4)] c by (auto simp: hb_frame_def)
qed

lemma demo_clone:
  obtains s g s1 s2 where "hb_reachable demo_env s" "traces (store s) 1 = None" "hb_makeImmutableClone 1 s = Some (g, s1)"
    "hb_run demo_env [AddThread (1::nat) 4] s1 = Some s2" "length (hb_nodes s) = 5"
    "gnodes g = 1" "s = (s :: (nat, nat, nat) hbstate)"
proof -
  have "map_option (\<lambda>s. (traces (store s) 1, map_option (\<lambda>(g, s1). (gnodes g, hb_run demo_env [AddThread 1 4] s1 = None))
        (hb_makeImmutableClone 1 s))) (hb_run demo_env demo_ops demo_start) = Some (None, Some (1, False))"
    by (simp add: demo_eval hb_makeImmutableClone_def ft_fork_def new_node_def ref_inc_def ref_dec_def)
  moreover obtain s where s: "hb_run demo_env demo_ops demo_start = Some s" "hb_reachable demo_env s"
    "map (\<lambda>n. (threadOrder n, tuid n, incoming n)) (hb_nodes s) =
       [(1, 1, []), (2, 1, [1]), (3, 1, [2]), (1, 2, [3]), (4, 1, [3])]"
    by (rule demo_state)
  moreover have "length (hb_nodes s) = 5" using arg_cong [OF s(3), of length] by simp
  ultimately show ?thesis using that [of s] by auto
qed

theorem hb_clone_immutable_witness:
  "\<exists>(s :: (nat, nat, nat) hbstate) g s1 s2. hb_makeImmutableClone 1 s = Some (g, s1) \<and>
     hb_run demo_env [AddThread 1 4] s1 = Some s2 \<and> ft_abs (store s2) (gnodes g) = Some (hb_nodes s) \<and> length (hb_nodes s) = 5"
proof -
  obtain s :: "(nat, nat, nat) hbstate" and g s1 s2 where s: "hb_reachable demo_env s" "traces (store s) 1 = None"
    "hb_makeImmutableClone 1 s = Some (g, s1)" "hb_run demo_env [AddThread (1::nat) 4] s1 = Some s2" "length (hb_nodes s) = 5"
    by (rule demo_clone)
  then show ?thesis using hb_clone_immutable [OF s(1-4)] by blast
qed

text \<open>Once the graph has been cloned, its existing nodes are frozen: adding to one of them an
  incoming edge it does not have fails the assertion of \<^verbatim>\<open>getMutableNode\<close>.\<close>

theorem hb_clone_freezes_nodes:
  assumes "hb_reachable env s" "hb_makeImmutableClone t s = Some (g, s')"
    and "1 \<le> k" "k \<le> length (hb_nodes s)" "from \<noteq> 0" "from \<noteq> k"
  shows "hb_addEdge env from k s' = None"
proof -
  note I = hb_invD [OF hb_reachable_inv [OF assms(1)]]
  obtain tr where tr: "traces (store s) (gnodes (graph s)) = Some tr" "hb_nodes s = contents tr (store s)"
    using I(2) by (auto simp: ft_abs_Some)
  obtain st where st: "ft_fork t (gnodes (graph s)) (store s) = Some st" "s' = s\<lparr> store := st \<rparr>"
    using assms(2) by (auto simp: hb_makeImmutableClone_def)
  have "ft_getMutableElementPtr (gnodes (graph s)) (k - 1) st = Some None"
    using ft_fork_frozen [OF I(1) tr(1) st(1), of "k - 1"] tr(2) assms(3,4) by simp
  then show ?thesis using assms st(2) by (simp add: hb_addEdge_def hb_getMutableNode_def)
qed

theorem hb_clone_freezes_nodes_witness:
  "\<exists>(s :: (nat, nat, nat) hbstate) g s'. hb_makeImmutableClone 1 s = Some (g, s') \<and> hb_addEdge demo_env 1 4 s' = None"
proof -
  obtain s :: "(nat, nat, nat) hbstate" and g s1 s2 where s: "hb_reachable demo_env s" "traces (store s) 1 = None"
    "hb_makeImmutableClone 1 s = Some (g, s1)" "hb_run demo_env [AddThread (1::nat) 4] s1 = Some s2" "length (hb_nodes s) = 5"
    by (rule demo_clone)
  then show ?thesis using hb_clone_freezes_nodes [OF s(1,3), of 4 1] by auto
qed

text \<open>C27. Comparing graphs. \<^verbatim>\<open>operator==\<close> decides whether two graphs have the same
  nodes; \<^verbatim>\<open>equalRange\<close> whether the two ranges exist and agree (for identifiers that
  start at 1 and do not exceed 32 bits).\<close>

theorem hb_equality_decides:
  assumes "ft_inv st" "ft_abs st t = Some xs" "ft_abs st r = Some ys"
    and "1 \<le> a" "1 \<le> b" "a + n < 2 ^ 32" "b + n < 2 ^ 32"
  shows "hb_equal t r st = Some (xs = ys) \<and>
    hb_equalRange t a r b n st =
      Some (a + n \<le> length xs + 1 \<and> b + n \<le> length ys + 1 \<and> take n (drop (a - 1) xs) = take n (drop (b - 1) ys))"
proof
  have size: "hb_size t st = Some (length xs)" "hb_size r st = Some (length ys)"
    using ft_abs_size assms(1-3) by auto
  show "hb_equal t r st = Some (xs = ys)"
    using size nodes_equal_loop_spec [OF assms(1-3), of 1 1 "length xs"] by (auto simp: hb_equal_def)
  have l: "last_id a n = a + n - 1" "last_id b n = b + n - 1"
    using assms(4-7) mod_add_self2 [of "a + n - 1" "2 ^ 32"] mod_add_self2 [of "b + n - 1" "2 ^ 32"]
    by (auto simp: last_id_def add.commute)
  show "hb_equalRange t a r b n st =
      Some (a + n \<le> length xs + 1 \<and> b + n \<le> length ys + 1 \<and> take n (drop (a - 1) xs) = take n (drop (b - 1) ys))"
    using size l assms(4,5) nodes_equal_loop_spec [OF assms(1-5), of n] by (auto simp: hb_equalRange_def)
qed

theorem hb_equality_decides_witness:
  "hb_equal 0 0 (store demo_start) = Some True \<and> hb_equalRange 0 1 0 1 1 (store demo_start) = Some False"
proof -
  have "ft_inv (store demo_start)" "ft_abs (store demo_start) 0 = Some []"
    using hb_invD(1,2) [OF hb_reachable_inv [OF demo_start_reachable]]
    by (auto simp: demo_start_def empty_graph_def ft_abs_def contents_def hdata_def)
  then show ?thesis using hb_equality_decides [of "store demo_start" 0 "[]" 0 "[]" 1 1 1] by simp
qed

lemma threadOrderRange_spec:
  assumes "1 \<le> first" "first \<le> Suc lastId" "lastId \<le> length (concat D)"
  shows "threadOrderRange u first lastId D =
    Some (filter (\<lambda>n. tuid n = u) (take (Suc lastId - first) (drop (first - 1) (concat D))))"
proof -
  have "min (first - 1) (length (concat D)) = first - 1" "min lastId (length (concat D)) = lastId" using assms by auto
  then show ?thesis
    using toi_collect_at [of lastId D "first - 1" "length (concat D)" u] assms
    by (simp add: threadOrderRange_def threadOrderFrom_at)
qed

text \<open>C30. Iterating from \<^verbatim>\<open>threadOrderBegin(u, first)\<close> to
  \<^verbatim>\<open>threadOrderEnd(u, last)\<close> stops and visits exactly the nodes of the thread with
  identifiers from \<^verbatim>\<open>first\<close> to \<^verbatim>\<open>last\<close>, in order.\<close>

theorem thread_order_range:
  assumes "1 \<le> first" "first \<le> Suc lastId" "lastId \<le> length (concat D)"
  shows "threadOrderRange u first lastId D =
    Some (filter (\<lambda>n. tuid n = u) (take (Suc lastId - first) (drop (first - 1) (concat D))))"
  using assms by (rule threadOrderRange_spec)

theorem thread_order_range_witness:
  "threadOrderRange (1::nat) 1 1 [[\<lparr> threadOrder = 1, tuid = 1, callctx = (), inputObj = None :: unit option, incoming = [] \<rparr>]] =
     Some [\<lparr> threadOrder = 1, tuid = 1, callctx = (), inputObj = None, incoming = [] \<rparr>]"
  using thread_order_range [of 1 1 "[[\<lparr> threadOrder = 1, tuid = 1, callctx = (), inputObj = None :: unit option, incoming = [] \<rparr>]]" "1::nat"]
  by simp

end
