(* ===== verification/Call_Context.thy ===== *)
theory Call_Context
  imports Prelude
begin

text \<open>
  Calling contexts and their identifiers. The instrumentor
  (\<^verbatim>\<open>lib/ICS/Instrumentor.cpp\<close>, "Callstack logging") draws a random number for each
  call site and names a context by the hash of its call sites; the runtime
  (\<^verbatim>\<open>runtime/ConstrainedExec/lib.cpp\<close>) computes the same hash incrementally while the
  program runs.

  A calling context is what the instrumentor reads of the class \<^verbatim>\<open>CallingContext\<close>
  (not part of the sources at hand): the sequence of its call instructions. Removing the frames of
  model functions, a method of that class, is the parameter \<^verbatim>\<open>strip\<close>. The random
  numbers drawn for call sites are an explicit list.
\<close>

type_synonym u16 = "16 word"
type_synonym u32 = "32 word"
type_synonym u64 = "64 word"

subsection \<open>Identifiers\<close>

text \<open>\<^verbatim>\<open>AddUniqueId\<close> and \<^verbatim>\<open>LookupUniqueId\<close> over a finite map, here an
  association list.\<close>

definition AddUniqueId :: "'a \<Rightarrow> ('a \<times> nat) list \<Rightarrow> (nat \<times> bool) \<times> ('a \<times> nat) list" where
  "AddUniqueId elem usedMap =
     (case map_of usedMap elem of
        Some i \<Rightarrow> ((i, False), usedMap)
      | None \<Rightarrow> ((length usedMap + 1, True), (elem, length usedMap + 1) # usedMap))"

definition LookupUniqueId :: "('a \<times> nat) list \<Rightarrow> 'a \<Rightarrow> nat option" where
  "LookupUniqueId usedMap elem = map_of usedMap elem"

text \<open>The tables of calling contexts. \<^verbatim>\<open>rands\<close> holds the random numbers still to be
  drawn.\<close>

record 'i ctxtables =
  usedCallsToId :: "('i \<times> u64) list"
  usedCallsFromId :: "(u64 \<times> 'i) list"
  usedCallCtxsToId :: "('i list \<times> u64) list"
  usedCallCtxsFromId :: "(u64 \<times> 'i list) list"
  usedCallCtxsShortId :: "('i list \<times> nat) list"
  usedCallCtxList :: "'i list list"
  rands :: "u64 list"

definition empty_ctxtables :: "u64 list \<Rightarrow> 'i ctxtables" where
  "empty_ctxtables rs = \<lparr> usedCallsToId = [], usedCallsFromId = [], usedCallCtxsToId = [],
     usedCallCtxsFromId = [], usedCallCtxsShortId = [], usedCallCtxList = [], rands = rs \<rparr>"

text \<open>Drawing until the number is not in use; \<^term>\<open>None\<close> when the list of random numbers
  is exhausted first.\<close>

fun draw_unique :: "u64 set \<Rightarrow> u64 list \<Rightarrow> (u64 \<times> u64 list) option" where
  "draw_unique used [] = None"
| "draw_unique used (v # rs) = (if v \<in> used then draw_unique used rs else Some (v, rs))"

definition UniqueRandInstId ::
  "'i \<Rightarrow> ('i \<times> u64) list \<Rightarrow> (u64 \<times> 'i) list \<Rightarrow> ('i \<times> u64) list \<Rightarrow> (u64 \<times> 'i) list \<Rightarrow> u64 list \<Rightarrow>
     (u64 \<times> ('i \<times> u64) list \<times> (u64 \<times> 'i) list \<times> u64 list) option" where
  "UniqueRandInstId i toNum fromNum currToNum currFromNum rs =
     (case map_of toNum i of
        Some v \<Rightarrow> Some (v, currToNum, currFromNum, rs)
      | None \<Rightarrow>
         (case map_of currToNum i of
            Some v \<Rightarrow> Some (v, currToNum, currFromNum, rs)
          | None \<Rightarrow> do {
              (v, rs) \<leftarrow> draw_unique (fst ` set currFromNum \<union> fst ` set fromNum) rs;
              Some (v, (i, v) # currToNum, (v, i) # currFromNum, rs)
            }))"

text \<open>The loop over the instructions of a context, accumulating the hash \<^verbatim>\<open>3*final + v\<close>.\<close>

fun hash_insts ::
  "'i list \<Rightarrow> ('i \<times> u64) list \<Rightarrow> (u64 \<times> 'i) list \<Rightarrow> ('i \<times> u64) list \<Rightarrow> (u64 \<times> 'i) list \<Rightarrow> u64 \<Rightarrow> u64 list \<Rightarrow>
     (u64 \<times> ('i \<times> u64) list \<times> (u64 \<times> 'i) list \<times> u64 list) option" where
  "hash_insts [] toNum fromNum currToNum currFromNum final rs = Some (final, currToNum, currFromNum, rs)"
| "hash_insts (i # is) toNum fromNum currToNum currFromNum final rs = do {
     (v, currToNum, currFromNum, rs) \<leftarrow> UniqueRandInstId i toNum fromNum currToNum currFromNum rs;
     hash_insts is toNum fromNum currToNum currFromNum (3 * final + v) rs
   }"

text \<open>The retry loop on a hash collision; \<^verbatim>\<open>fuel\<close> bounds the number of retries.\<close>

fun assign_ctx_id :: "nat \<Rightarrow> 'i list \<Rightarrow> 'i ctxtables \<Rightarrow> 'i ctxtables option" where
  "assign_ctx_id 0 ctx T = None"
| "assign_ctx_id (Suc fuel) ctx T = do {
     (final, currToNum, currFromNum, rs) \<leftarrow>
       hash_insts ctx (usedCallsToId T) (usedCallsFromId T) [] [] 0 (rands T);
     let T = T\<lparr> rands := rs \<rparr>;
     if map_of (usedCallCtxsFromId T) final \<noteq> None then assign_ctx_id fuel ctx T
     else Some (T\<lparr> usedCallCtxsToId := (ctx, final) # usedCallCtxsToId T,
                   usedCallCtxsFromId := (final, ctx) # usedCallCtxsFromId T,
                   usedCallsToId := currToNum @ usedCallsToId T,
                   usedCallsFromId := currFromNum @ usedCallsFromId T \<rparr>)
   }"

definition AddUsedCallCtx ::
  "nat \<Rightarrow> ('i list \<Rightarrow> 'i list) \<Rightarrow> 'i list \<Rightarrow> 'i ctxtables \<Rightarrow> 'i ctxtables option" where
  "AddUsedCallCtx fuel strip ctx T =
     (let ctx = strip ctx; (r, ids) = AddUniqueId ctx (usedCallCtxsShortId T) in
      if \<not> snd r then Some T
      else assign_ctx_id fuel ctx
             (T\<lparr> usedCallCtxsShortId := ids, usedCallCtxList := usedCallCtxList T @ [ctx] \<rparr>))"

fun EnumerateUsedCallCtxs ::
  "nat \<Rightarrow> ('i list \<Rightarrow> 'i list) \<Rightarrow> 'i list list \<Rightarrow> 'i ctxtables \<Rightarrow> 'i ctxtables option" where
  "EnumerateUsedCallCtxs fuel strip [] T = Some T"
| "EnumerateUsedCallCtxs fuel strip (c # cs) T =
     Option.bind (AddUsedCallCtx fuel strip c T) (EnumerateUsedCallCtxs fuel strip cs)"

definition LookupCallCtxLongId :: "('i list \<Rightarrow> 'i list) \<Rightarrow> 'i ctxtables \<Rightarrow> 'i list \<Rightarrow> u64 option" where
  "LookupCallCtxLongId strip T ctx = map_of (usedCallCtxsToId T) (strip ctx)"

definition LookupCallCtxShortId :: "('i list \<Rightarrow> 'i list) \<Rightarrow> 'i ctxtables \<Rightarrow> 'i list \<Rightarrow> nat option" where
  "LookupCallCtxShortId strip T ctx = LookupUniqueId (usedCallCtxsShortId T) (strip ctx)"

definition LookupCallSiteId :: "'i ctxtables \<Rightarrow> 'i \<Rightarrow> u64 option" where
  "LookupCallSiteId T i = map_of (usedCallsToId T) i"

definition MAX_CONTEXT :: nat where
  "MAX_CONTEXT = 64"

fun dump_ctx_entries ::
  "('i list \<Rightarrow> 'i list) \<Rightarrow> 'i ctxtables \<Rightarrow> nat \<Rightarrow> 'i list list \<Rightarrow> u64 list option" where
  "dump_ctx_entries strip T k [] = Some []"
| "dump_ctx_entries strip T k (c # cs) = do {
     short \<leftarrow> LookupCallCtxShortId strip T c;
     assert_opt (k = short);
     assert_opt (length c < MAX_CONTEXT);
     v \<leftarrow> LookupCallCtxLongId strip T c;
     map_option ((#) v) (dump_ctx_entries strip T (k + 1) cs)
   }"

definition DumpCallingContexts :: "('i list \<Rightarrow> 'i list) \<Rightarrow> 'i ctxtables \<Rightarrow> u64 list option" where
  "DumpCallingContexts strip T =
     map_option ((#) 0) (dump_ctx_entries strip T 1 (usedCallCtxList T))"

subsection \<open>The runtime's call stack\<close>

text \<open>The thread-local array \<^verbatim>\<open>MyThreadContext\<close> and the index
  \<^verbatim>\<open>MyThreadContextPtr\<close> points at. An access outside the array is \<^term>\<open>None\<close>.\<close>

record callstack =
  MyThreadContext :: "u64 list"
  MyThreadContextPtr :: nat

definition callstack_init :: callstack where
  "callstack_init = \<lparr> MyThreadContext = replicate MAX_CONTEXT 0, MyThreadContextPtr = 0 \<rparr>"

definition ctx_read :: "callstack \<Rightarrow> u64 option" where
  "ctx_read k = (if MyThreadContextPtr k < length (MyThreadContext k)
                 then Some (MyThreadContext k ! MyThreadContextPtr k) else None)"

definition ctx_write :: "u64 \<Rightarrow> callstack \<Rightarrow> callstack option" where
  "ctx_write v k = (if MyThreadContextPtr k < length (MyThreadContext k)
                    then Some (k\<lparr> MyThreadContext := (MyThreadContext k)[MyThreadContextPtr k := v] \<rparr>) else None)"

definition klee_ics_callstack_push :: "u64 \<Rightarrow> callstack \<Rightarrow> callstack option" where
  "klee_ics_callstack_push cs k = do {
     oldv \<leftarrow> ctx_read k;
     let newv = 3 * oldv + cs;
     ctx_write newv (k\<lparr> MyThreadContextPtr := MyThreadContextPtr k + 1 \<rparr>)
   }"

definition klee_ics_callstack_pop :: "callstack \<Rightarrow> callstack option" where
  "klee_ics_callstack_pop k = do {
     k \<leftarrow> ctx_write 0 k;
     if MyThreadContextPtr k = 0 then None
     else Some (k\<lparr> MyThreadContextPtr := MyThreadContextPtr k - 1 \<rparr>)
   }"

definition IsMyCurrentContextShortId :: "u64 list \<Rightarrow> nat \<Rightarrow> callstack \<Rightarrow> bool option" where
  "IsMyCurrentContextShortId table ctxid k = do {
     cur \<leftarrow> ctx_read k;
     if ctxid < length table then Some (table ! ctxid = cur) else None
   }"

definition IsMyCurrentContextLongId :: "u64 \<Rightarrow> callstack \<Rightarrow> bool option" where
  "IsMyCurrentContextLongId ctxid k = map_option (\<lambda>cur. ctxid = cur) (ctx_read k)"

fun push_calls :: "'i ctxtables \<Rightarrow> 'i list \<Rightarrow> callstack \<Rightarrow> callstack option" where
  "push_calls T [] k = Some k"
| "push_calls T (i # is) k = do {
     v \<leftarrow> LookupCallSiteId T i;
     k \<leftarrow> klee_ics_callstack_push v k;
     push_calls T is k
   }"

subsection \<open>The invariant of the context tables\<close>

definition hash_of :: "('i \<times> u64) list \<Rightarrow> 'i list \<Rightarrow> u64" where
  "hash_of toNum ctx = foldl (\<lambda>h i. 3 * h + the (map_of toNum i)) 0 ctx"

definition short_ok :: "'i ctxtables \<Rightarrow> bool" where
  "short_ok T \<longleftrightarrow> distinct (usedCallCtxList T) \<and> length (usedCallCtxsShortId T) = length (usedCallCtxList T) \<and>
     (\<forall>c k. map_of (usedCallCtxsShortId T) c = Some k \<longleftrightarrow>
        1 \<le> k \<and> k \<le> length (usedCallCtxList T) \<and> usedCallCtxList T ! (k - 1) = c)"

definition long_ok :: "'i ctxtables \<Rightarrow> bool" where
  "long_ok T \<longleftrightarrow>
     (\<forall>c v. map_of (usedCallCtxsToId T) c = Some v \<longrightarrow>
        (\<forall>i \<in> set c. map_of (usedCallsToId T) i \<noteq> None) \<and> v = hash_of (usedCallsToId T) c \<and>
        map_of (usedCallCtxsFromId T) v = Some c) \<and>
     dom (map_of (usedCallCtxsToId T)) = set (usedCallCtxList T)"

lemma foldl_cong_set: "(\<And>h i. i \<in> set xs \<Longrightarrow> f h i = g h i) \<Longrightarrow> foldl f a xs = foldl g a xs"
  by (induction xs arbitrary: a) auto

lemma draw_unique_fresh: "draw_unique used rs = Some (v, rs') \<Longrightarrow> v \<notin> used"
  by (induction used rs rule: draw_unique.induct) (auto split: if_splits)

lemma hash_insts_spec:
  assumes "hash_insts is toNum fromNum ct cf h rs = Some (f, ct', cf', rs')"
    "\<forall>i. map_of toNum i \<noteq> None \<longrightarrow> map_of ct i = None"
  shows "(\<forall>i. map_of toNum i \<noteq> None \<longrightarrow> map_of ct' i = None) \<and> map_of ct \<subseteq>\<^sub>m map_of ct' \<and>
    (\<forall>i \<in> set is. map_of (ct' @ toNum) i \<noteq> None) \<and>
    f = foldl (\<lambda>h i. 3 * h + the (map_of (ct' @ toNum) i)) h is"
  using assms
proof (induction "is" arbitrary: ct cf h rs)
  case (Cons i "is")
  then obtain v ct1 cf1 rs1 where
    u: "UniqueRandInstId i toNum fromNum ct cf rs = Some (v, ct1, cf1, rs1)"
    and rest: "hash_insts is toNum fromNum ct1 cf1 (3 * h + v) rs1 = Some (f, ct', cf', rs')" by auto
  have ct1: "\<forall>i. map_of toNum i \<noteq> None \<longrightarrow> map_of ct1 i = None" "map_of ct \<subseteq>\<^sub>m map_of ct1"
    "map_of toNum i = Some v \<or> (map_of toNum i = None \<and> map_of ct1 i = Some v)"
    using u Cons.prems(2) by (auto simp: UniqueRandInstId_def map_le_def split: option.splits if_splits)
  note IH = Cons.IH [OF rest ct1(1)]
  have "map_of (ct' @ toNum) i = Some v"
  proof (cases "map_of toNum i")
    case None
    then have "map_of ct' i = Some v" using ct1(3) IH by (auto simp: map_le_def dom_def)
    then show ?thesis by (simp add: map_add_def)
  next
    case (Some w)
    then have "map_of ct' i = None" using IH by auto
    then show ?thesis using Some ct1(3) by (simp add: map_add_def)
  qed
  then show ?case using IH ct1(2) by (auto intro: map_le_trans)
qed simp

lemma assign_ctx_id_ok:
  assumes "assign_ctx_id fuel c T = Some T'" "long_ok (T\<lparr> usedCallCtxList := L \<rparr>)" "c \<notin> set L"
    "usedCallCtxList T = L @ [c]"
  shows "long_ok T' \<and> usedCallCtxList T' = usedCallCtxList T \<and> usedCallCtxsShortId T' = usedCallCtxsShortId T"
  using assms
proof (induction fuel arbitrary: T)
  case (Suc fuel)
  obtain f ct cf rs where h: "hash_insts c (usedCallsToId T) (usedCallsFromId T) [] [] 0 (rands T) = Some (f, ct, cf, rs)"
    using Suc.prems(1) by auto
  have H: "\<forall>i. map_of (usedCallsToId T) i \<noteq> None \<longrightarrow> map_of ct i = None"
    "\<forall>i \<in> set c. map_of (ct @ usedCallsToId T) i \<noteq> None" "f = hash_of (ct @ usedCallsToId T) c"
    using hash_insts_spec [OF h] by (auto simp: hash_of_def)
  show ?case
  proof (cases "map_of (usedCallCtxsFromId T) f")
    case (Some d)
    then have "assign_ctx_id fuel c (T\<lparr> rands := rs \<rparr>) = Some T'" using Suc.prems(1) h by simp
    from Suc.IH [OF this] Suc.prems show ?thesis by (simp add: long_ok_def)
  next
    case None
    have T': "T' = T\<lparr> rands := rs, usedCallCtxsToId := (c, f) # usedCallCtxsToId T,
       usedCallCtxsFromId := (f, c) # usedCallCtxsFromId T, usedCallsToId := ct @ usedCallsToId T,
       usedCallsFromId := cf @ usedCallsFromId T \<rparr>"
      using Suc.prems(1) h None by simp
    have keep: "map_of (ct @ usedCallsToId T) i = map_of (usedCallsToId T) i" if "map_of (usedCallsToId T) i \<noteq> None" for i
      using that H(1) by (auto simp: map_add_def split: option.splits)
    have old: "(\<forall>i \<in> set d. map_of (ct @ usedCallsToId T) i \<noteq> None) \<and> v = hash_of (ct @ usedCallsToId T) d \<and>
        map_of (usedCallCtxsFromId T) v = Some d \<and> d \<in> set L"
      if "map_of (usedCallCtxsToId T) d = Some v" for d v
    proof -
      have d: "\<forall>i \<in> set d. map_of (usedCallsToId T) i \<noteq> None" "v = hash_of (usedCallsToId T) d"
        "map_of (usedCallCtxsFromId T) v = Some d" "d \<in> set L"
        using Suc.prems(2) that by (auto simp: long_ok_def dom_def)
      have "hash_of (ct @ usedCallsToId T) d = hash_of (usedCallsToId T) d"
        unfolding hash_of_def using d(1) keep by (intro foldl_cong_set) simp
      then show ?thesis using d keep by simp
    qed
    have "long_ok T'" unfolding long_ok_def T'
      using old H Suc.prems(2,3,4) None by (auto simp: long_ok_def split: if_splits)
    then show ?thesis using T' by simp
  qed
qed simp

lemma AddUsedCallCtx_ok:
  assumes "AddUsedCallCtx fuel strip c T = Some T'" "long_ok T" "short_ok T"
  shows "long_ok T' \<and> short_ok T' \<and> set (usedCallCtxList T') = insert (strip c) (set (usedCallCtxList T))"
proof (cases "map_of (usedCallCtxsShortId T) (strip c)")
  case (Some k)
  then have "strip c \<in> set (usedCallCtxList T)"
    using assms(3) in_set_conv_nth [of "strip c" "usedCallCtxList T"] unfolding short_ok_def
    by (metis One_nat_def Suc_le_eq Suc_pred)
  then show ?thesis using Some assms by (auto simp: AddUsedCallCtx_def AddUniqueId_def)
next
  case None
  let ?n = "length (usedCallCtxsShortId T) + 1"
  let ?T = "T\<lparr> usedCallCtxsShortId := (strip c, ?n) # usedCallCtxsShortId T,
     usedCallCtxList := usedCallCtxList T @ [strip c] \<rparr>"
  have a: "assign_ctx_id fuel (strip c) ?T = Some T'"
    using assms(1) None by (simp add: AddUsedCallCtx_def AddUniqueId_def Let_def)
  have fresh: "strip c \<notin> set (usedCallCtxList T)"
  proof
    assume "strip c \<in> set (usedCallCtxList T)"
    then obtain k where "k < length (usedCallCtxList T)" "usedCallCtxList T ! k = strip c"
      by (auto simp: in_set_conv_nth)
    then have "map_of (usedCallCtxsShortId T) (strip c) = Some (Suc k)"
      using assms(3) unfolding short_ok_def by simp
    then show False using None by simp
  qed
  have "long_ok (?T\<lparr> usedCallCtxList := usedCallCtxList T \<rparr>)" using assms(2) by (simp add: long_ok_def)
  from assign_ctx_id_ok [OF a this fresh] have L: "long_ok T'" "usedCallCtxList T' = usedCallCtxList T @ [strip c]"
    "usedCallCtxsShortId T' = (strip c, ?n) # usedCallCtxsShortId T" by simp_all
  have "short_ok T'"
    using assms(3) L fresh None unfolding short_ok_def
    by (auto simp: nth_append le_Suc_eq split: if_splits) (metis nth_mem)
  with L show ?thesis by simp
qed

lemma EnumerateUsedCallCtxs_ok:
  assumes "EnumerateUsedCallCtxs fuel strip cs T = Some T'" "long_ok T" "short_ok T"
  shows "long_ok T' \<and> short_ok T' \<and> set (usedCallCtxList T') = strip ` set cs \<union> set (usedCallCtxList T)"
  using assms
proof (induction cs arbitrary: T)
  case (Cons c cs)
  then obtain T1 where "AddUsedCallCtx fuel strip c T = Some T1" "EnumerateUsedCallCtxs fuel strip cs T1 = Some T'"
    by auto
  then show ?case using Cons AddUsedCallCtx_ok [of fuel strip c T T1] by auto
qed simp

lemma empty_ctxtables_ok: "long_ok (empty_ctxtables rs)" "short_ok (empty_ctxtables rs)"
  by (simp_all add: long_ok_def short_ok_def empty_ctxtables_def)

lemma dump_ctx_entries_nth:
  assumes "dump_ctx_entries strip T k cs = Some tbl" "j < length cs"
  shows "j < length tbl \<and> Some (tbl ! j) = LookupCallCtxLongId strip T (cs ! j)"
  using assms
proof (induction cs arbitrary: k tbl j)
  case (Cons c cs)
  then show ?case by (cases j) (auto split: if_splits)
qed simp

lemma dump_ctx_entries_length: "dump_ctx_entries strip T k cs = Some tbl \<Longrightarrow> length tbl = length cs"
  by (induction strip T k cs arbitrary: tbl rule: dump_ctx_entries.induct) (auto split: if_splits)

subsection \<open>The runtime's hash\<close>

lemma push_read:
  assumes "klee_ics_callstack_push v k = Some k'"
  shows "\<exists>h. ctx_read k = Some h \<and> ctx_read k' = Some (3 * h + v)"
  using assms by (auto simp: klee_ics_callstack_push_def ctx_write_def ctx_read_def Let_def split: if_splits)

lemma push_calls_read:
  assumes "push_calls T ctx k = Some k'" "ctx_read k = Some h"
  shows "ctx_read k' = Some (foldl (\<lambda>h i. 3 * h + the (map_of (usedCallsToId T) i)) h ctx)"
  using assms
proof (induction ctx arbitrary: k h)
  case (Cons i ctx)
  then obtain v k1 where v: "LookupCallSiteId T i = Some v" "klee_ics_callstack_push v k = Some k1"
    "push_calls T ctx k1 = Some k'" by auto
  then show ?case using Cons push_read [OF v(2)] by (auto simp: LookupCallSiteId_def)
qed simp

lemma callstack_init_read [simp]: "ctx_read callstack_init = Some 0"
  by (simp add: ctx_read_def callstack_init_def MAX_CONTEXT_def)

subsection \<open>Main properties\<close>


definition demo_ctxs :: "nat ctxtables option" where
  "demo_ctxs = EnumerateUsedCallCtxs 1 (filter (\<lambda>i. i \<noteq> 9)) [[1, 9], [1, 2]] (empty_ctxtables [5, 7])"


text \<open>Leaving a call restores the context that was current before it, and entering a call fails
  exactly when the call stack is 63 calls deep: the write of the runtime is then outside the array.\<close>

theorem callstack_push_pop:
  assumes "length (MyThreadContext k) = MAX_CONTEXT" "MyThreadContextPtr k < MAX_CONTEXT"
  shows "(MyThreadContextPtr k < MAX_CONTEXT - 1 \<longrightarrow>
      (\<exists>k' k''. klee_ics_callstack_push v k = Some k' \<and> klee_ics_callstack_pop k' = Some k'' \<and>
         MyThreadContextPtr k'' = MyThreadContextPtr k \<and> ctx_read k'' = ctx_read k)) \<and>
    (MyThreadContextPtr k = MAX_CONTEXT - 1 \<longrightarrow> klee_ics_callstack_push v k = None)"
  using assms
  by (auto simp: klee_ics_callstack_push_def klee_ics_callstack_pop_def ctx_write_def ctx_read_def MAX_CONTEXT_def Let_def)

theorem callstack_push_pop_witness:
  "(\<exists>k' k''. klee_ics_callstack_push 7 callstack_init = Some k' \<and> klee_ics_callstack_pop k' = Some k'' \<and>
      MyThreadContextPtr k'' = 0 \<and> ctx_read k'' = Some 0) \<and>
   klee_ics_callstack_push 7 (callstack_init\<lparr> MyThreadContextPtr := 63 \<rparr>) = None"
  using callstack_push_pop [of callstack_init 7] callstack_push_pop [of "callstack_init\<lparr> MyThreadContextPtr := 63 \<rparr>" 7]
  by (simp add: MAX_CONTEXT_def callstack_init_def ctx_read_def)

end
