(* ===== verification/Schedule_Table.thy ===== *)
theory Schedule_Table
  imports HB_Graph Call_Context
begin

unbundle bit_operations_syntax

text \<open>
  The schedule tables that the instrumentor emits for the runtime
  (\<^verbatim>\<open>lib/ICS/Instrumentor.cpp\<close>): a fragment of a happens-before graph becomes one array
  of 16-bit integers per thread. The layout is the one documented there:
  \<^verbatim>\<open>hbnode ::= ctxid inputObjId? numIncoming (threadId threadTimestamp)*\<close>, terminated by 0
  or, for a fragment that is followed by another one, by \<^verbatim>\<open>0xffff\<close>. Sharing of the empty
  array between fragments and the names of the emitted globals do not change the contents and are
  left out. The reader is the loop of the runtime's \<^verbatim>\<open>DbgPrintCurrSchedule\<close>.
\<close>

datatype ThreadUid = ThreadUid (utid: nat) (upid: nat)

subsection \<open>Constants and fragments\<close>

definition InputBufferFlagBit :: u16 where
  "InputBufferFlagBit = push_bit 15 1"

definition EndFragmentSentinal :: u16 where
  "EndFragmentSentinal = 0xffff"

definition SkipHbNodeFlag :: u16 where
  "SkipHbNodeFlag = 0xfffe"

definition MaxCtxId :: nat where
  "MaxCtxId = unat (SkipHbNodeFlag AND NOT InputBufferFlagBit) - 1"

text \<open>A fragment holds the graph as the identity of its trace in the store.\<close>

record 'o ScheduleFragment =
  hbGraph :: nat
  firstNodeId :: nat
  lastNodeId :: nat
  nextThreadLeader :: ThreadUid
  exitsProgram :: bool
  schedId :: nat
  fragId :: nat
  nextSelectorId :: nat
  inputIds :: "'o \<rightharpoonup> nat"

text \<open>\<^verbatim>\<open>operator==\<close> on fragments. The differences are 32-bit.\<close>

definition schedfrag_equal ::
  "'o ScheduleFragment \<Rightarrow> 'o ScheduleFragment \<Rightarrow> (ThreadUid, 'c, 'o) hbnode fstate \<Rightarrow> bool option" where
  "schedfrag_equal l r st =
     (if exitsProgram l \<noteq> exitsProgram r then Some False
      else if nextThreadLeader l \<noteq> nextThreadLeader r then Some False
      else let ldiff = (word_of_nat (lastNodeId l) - word_of_nat (firstNodeId l) :: u32);
               rdiff = (word_of_nat (lastNodeId r) - word_of_nat (firstNodeId r) :: u32) in
        if ldiff \<noteq> rdiff then Some False
        else if lastNodeId l < firstNodeId l then Some True
        else hb_equalRange (hbGraph l) (firstNodeId l) (hbGraph r) (firstNodeId r) (unat (ldiff + 1)) st)"

text \<open>What the encoder reads of the instrumentor: the context tables, and which input objects are
  used by some schedule constraint.\<close>

record ('i, 'o) instr =
  strip :: "'i list \<Rightarrow> 'i list"
  ctxs :: "'i ctxtables"
  usedArrays :: "'o \<Rightarrow> bool"

subsection \<open>Encoding a thread's schedule\<close>

fun pred_nodes :: "nat \<Rightarrow> nat list \<Rightarrow> ('u, 'c, 'o) hbnode fstate \<Rightarrow> ('u, 'c, 'o) hbnode list option" where
  "pred_nodes g [] st = Some []"
| "pred_nodes g (p # ps) st = do {
     n \<leftarrow> hb_getNode g p st;
     ns \<leftarrow> pred_nodes g ps st;
     Some (n # ns)
   }"

text \<open>\<^verbatim>\<open>ConstantInt::get\<close> with the type of 16 bits keeps the low bits of its argument;
  \<^verbatim>\<open>GetConstantInt16\<close> first asserts that it fits.\<close>

definition int16 :: "nat \<Rightarrow> u16" where
  "int16 n = word_of_nat n"

definition GetConstantInt16 :: "nat \<Rightarrow> u16 option" where
  "GetConstantInt16 v = do { assert_opt (v \<le> 0xffff); Some (int16 v) }"

fun edge_words :: "(ThreadUid, 'c, 'o) hbnode \<Rightarrow> (ThreadUid, 'c, 'o) hbnode list \<Rightarrow> u16 list option" where
  "edge_words node [] = Some []"
| "edge_words node (p # preds) =
     (if tuid p \<noteq> tuid node then do {
        t \<leftarrow> GetConstantInt16 (utid (tuid p));
        k \<leftarrow> GetConstantInt16 (threadOrder p);
        rest \<leftarrow> edge_words node preds;
        Some (t # k # rest)
      }
      else edge_words node preds)"

text \<open>The part of the loop body of \<^verbatim>\<open>DumpThreadSchedule\<close> after the input has been
  looked up: context, input, number of incoming cross-thread edges, edges.\<close>

definition emit_node ::
  "('i, 'o) instr \<Rightarrow> nat \<Rightarrow> nat \<Rightarrow> (ThreadUid, 'i list, 'o) hbnode \<Rightarrow> (ThreadUid, 'i list, 'o) hbnode fstate \<Rightarrow>
     u16 list option" where
  "emit_node I g inputId node st = do {
     ctxId \<leftarrow> LookupCallCtxShortId (strip I) (ctxs I) (callctx node);
     assert_opt (ctxId \<le> MaxCtxId);
     preds \<leftarrow> pred_nodes g (incoming node) st;
     assert_opt (\<forall>p \<in> set preds. tuid p = tuid node \<longrightarrow> threadOrder p < threadOrder node);
     head \<leftarrow> (if inputId \<noteq> 0 then do {
                 c \<leftarrow> GetConstantInt16 (ctxId OR unat InputBufferFlagBit);
                 i \<leftarrow> GetConstantInt16 inputId;
                 Some [c, i]
               }
               else map_option (\<lambda>c. [c]) (GetConstantInt16 ctxId));
     nedges \<leftarrow> GetConstantInt16 (length (filter (\<lambda>p. tuid p \<noteq> tuid node) preds));
     edges \<leftarrow> edge_words node preds;
     Some (head @ nedges # edges)
   }"

definition dump_node ::
  "('i, 'o) instr \<Rightarrow> 'o ScheduleFragment \<Rightarrow> bool \<Rightarrow> (ThreadUid, 'i list, 'o) hbnode \<Rightarrow>
     (ThreadUid, 'i list, 'o) hbnode fstate \<Rightarrow> u16 list option" where
  "dump_node I frag isLast node st =
     (case inputObj node of
        None \<Rightarrow> emit_node I (hbGraph frag) 0 node st
      | Some obj \<Rightarrow>
          if usedArrays I obj \<and> \<not> isLast then do {
            inputId \<leftarrow> inputIds frag obj;
            emit_node I (hbGraph frag) inputId node st
          }
          else do {
            w \<leftarrow> GetConstantInt16 (unat SkipHbNodeFlag);
            preds \<leftarrow> pred_nodes (hbGraph frag) (incoming node) st;
            assert_opt (\<forall>p \<in> set preds. tuid p = tuid node \<and> threadOrder p < threadOrder node);
            Some [w]
          })"

fun dump_nodes ::
  "('i, 'o) instr \<Rightarrow> 'o ScheduleFragment \<Rightarrow> bool \<Rightarrow> (ThreadUid, 'i list, 'o) hbnode list \<Rightarrow>
     (ThreadUid, 'i list, 'o) hbnode fstate \<Rightarrow> u16 list option" where
  "dump_nodes I frag isLast [] st = Some []"
| "dump_nodes I frag isLast (n # ns) st = do {
     ws \<leftarrow> dump_node I frag isLast n st;
     rest \<leftarrow> dump_nodes I frag isLast ns st;
     Some (ws @ rest)
   }"

definition DumpThreadSchedule ::
  "('i, 'o) instr \<Rightarrow> 'o ScheduleFragment \<Rightarrow> ThreadUid \<Rightarrow> (ThreadUid, 'i list, 'o) hbnode fstate \<Rightarrow> u16 list option" where
  "DumpThreadSchedule I frag u st = do {
     tr \<leftarrow> traces st (hbGraph frag);
     maxNode \<leftarrow> hb_size (hbGraph frag) st;
     nodes \<leftarrow> threadOrderRange u (firstNodeId frag) (lastNodeId frag) (segments tr st);
     let isLast = (lastNodeId frag = maxNode);
     tmp \<leftarrow> dump_nodes I frag isLast nodes st;
     term \<leftarrow> GetConstantInt16 (if lastNodeId frag = maxNode then 0 else unat EndFragmentSentinal);
     Some (tmp @ [term])
   }"

subsection \<open>Emitting a fragment\<close>

record HBSchedule =
  numThreads :: u16
  nextThreadLeaderId :: u16
  nextScheduleSelectorId :: u16
  exitsProgramFlag :: u16
  threadSchedules :: "u16 list list"

fun max_thread :: "nat \<Rightarrow> nat \<Rightarrow> nat \<Rightarrow> (ThreadUid, 'c, 'o) hbnode fstate \<Rightarrow> nat option" where
  "max_thread g 0 mx st = Some mx"
| "max_thread g (Suc k) mx st = do {
     n \<leftarrow> hb_getNode g (Suc k) st;
     assert_opt (upid (tuid n) = 2);
     max_thread g k (max mx (utid (tuid n))) st
   }"

fun dump_threads ::
  "('i, 'o) instr \<Rightarrow> 'o ScheduleFragment \<Rightarrow> nat list \<Rightarrow> (ThreadUid, 'i list, 'o) hbnode fstate \<Rightarrow> u16 list list option" where
  "dump_threads I frag [] st = Some []"
| "dump_threads I frag (t # ts) st = do {
     ws \<leftarrow> DumpThreadSchedule I frag (ThreadUid t 2) st;
     rest \<leftarrow> dump_threads I frag ts st;
     Some (ws # rest)
   }"

text \<open>The body of the loop of \<^verbatim>\<open>DumpScheduleFragments\<close>. The maximum over the nodes is
  computed from the last node to the first.\<close>

definition DumpScheduleFragment ::
  "('i, 'o) instr \<Rightarrow> 'o ScheduleFragment \<Rightarrow> (ThreadUid, 'i list, 'o) hbnode fstate \<Rightarrow> HBSchedule option" where
  "DumpScheduleFragment I frag st = do {
     assert_opt (fragId frag \<noteq> 0);
     maxNode \<leftarrow> hb_size (hbGraph frag) st;
     (if nextSelectorId frag \<noteq> 0 then Some ()
      else do {
        n \<leftarrow> hb_getNode (hbGraph frag) (lastNodeId frag) st;
        assert_opt (inputObj n \<noteq> None \<or> lastNodeId frag = maxNode)
      });
     maxThread \<leftarrow> max_thread (hbGraph frag) maxNode 0 st;
     ts \<leftarrow> dump_threads I frag [0..<maxThread + 1] st;
     Some \<lparr> numThreads = int16 (maxThread + 1),
            nextThreadLeaderId = int16 (utid (nextThreadLeader frag)),
            nextScheduleSelectorId = int16 (nextSelectorId frag),
            exitsProgramFlag = int16 (if exitsProgram frag then 1 else 0),
            threadSchedules = ts \<rparr>
   }"

subsection \<open>Reading a thread's schedule\<close>

datatype sched_item = SkipNode | SyncNode (sctx: nat) (sinput: "nat option") (sedges: "(nat \<times> nat) list")

fun read_edges :: "nat \<Rightarrow> u16 list \<Rightarrow> ((nat \<times> nat) list \<times> u16 list) option" where
  "read_edges 0 ws = Some ([], ws)"
| "read_edges (Suc n) (t # c # ws) = do {
     (es, ws) \<leftarrow> read_edges n ws;
     Some ((unat t, unat c) # es, ws)
   }"
| "read_edges (Suc n) ws = None"

text \<open>One iteration of the loop of \<^verbatim>\<open>DbgPrintCurrSchedule\<close>. A run of skip flags is read
  one at a time.\<close>

definition read_item :: "u16 list \<Rightarrow> (sched_item \<times> u16 list) option" where
  "read_item ws =
     (case ws of
        [] \<Rightarrow> None
      | w # ws \<Rightarrow>
          if w = SkipHbNodeFlag then Some (SkipNode, ws)
          else do {
            (inp, ws) \<leftarrow> (if w AND InputBufferFlagBit \<noteq> 0
              then (case ws of [] \<Rightarrow> None | i # ws \<Rightarrow> Some (Some (unat i), ws))
              else Some (None, ws));
            let ctxid = w AND NOT InputBufferFlagBit;
            (case ws of
               [] \<Rightarrow> None
             | n # ws \<Rightarrow> do {
                 (es, ws) \<leftarrow> read_edges (unat n) ws;
                 Some (SyncNode (unat ctxid) inp es, ws)
               })
          })"

fun read_schedule :: "nat \<Rightarrow> u16 list \<Rightarrow> (sched_item list \<times> u16) option" where
  "read_schedule 0 ws = None"
| "read_schedule (Suc fuel) [] = None"
| "read_schedule (Suc fuel) (w # ws) =
     (if w = 0 \<or> w = EndFragmentSentinal then Some ([], w)
      else do {
        (it, rest) \<leftarrow> read_item (w # ws);
        (items, term) \<leftarrow> read_schedule fuel rest;
        Some (it # items, term)
      })"

subsection \<open>What a node is encoded as\<close>

text \<open>The item a node stands for, over the list of all nodes of the graph.\<close>

definition edges_of :: "(ThreadUid, 'c, 'o) hbnode list \<Rightarrow> (ThreadUid, 'c, 'o) hbnode \<Rightarrow> (nat \<times> nat) list" where
  "edges_of ns n =
     map (\<lambda>p. (utid (tuid p), threadOrder p)) (filter (\<lambda>p. tuid p \<noteq> tuid n) (map (\<lambda>k. ns ! (k - 1)) (incoming n)))"

definition item_of ::
  "('i, 'o) instr \<Rightarrow> 'o ScheduleFragment \<Rightarrow> (ThreadUid, 'i list, 'o) hbnode list \<Rightarrow> (ThreadUid, 'i list, 'o) hbnode \<Rightarrow>
     sched_item" where
  "item_of I frag ns n =
     (let short = the (LookupCallCtxShortId (strip I) (ctxs I) (callctx n)) in
      case inputObj n of
        None \<Rightarrow> SyncNode short None (edges_of ns n)
      | Some obj \<Rightarrow>
          if usedArrays I obj \<and> lastNodeId frag \<noteq> length ns
          then SyncNode short (inputIds frag obj) (edges_of ns n)
          else SkipNode)"

text \<open>The identifiers of the inputs of a fragment start at 1.\<close>

definition inputs_ok :: "'o ScheduleFragment \<Rightarrow> bool" where
  "inputs_ok frag \<longleftrightarrow> (\<forall>obj k. inputIds frag obj = Some k \<longrightarrow> 1 \<le> k)"

subsection \<open>Words\<close>

lemma flag_constants:
  "InputBufferFlagBit = 0x8000" "MaxCtxId = 0x7ffd" "EndFragmentSentinal = 0xffff" "SkipHbNodeFlag = 0xfffe"
  by (simp_all add: InputBufferFlagBit_def MaxCtxId_def EndFragmentSentinal_def SkipHbNodeFlag_def)

lemma flag_nonzero [simp]: "InputBufferFlagBit \<noteq> 0"
  by (simp add: flag_constants)

lemma unat_int16: "n < 2 ^ 16 \<Longrightarrow> unat (int16 n) = n"
  by (simp add: int16_def unat_of_nat)

lemma ctx_bit15: "n \<le> MaxCtxId \<Longrightarrow> \<not> bit (int16 n) 15"
proof -
  assume "n \<le> MaxCtxId"
  then have "n < 2 ^ 15" by (simp add: flag_constants)
  then have "\<not> bit n 15" using bit_take_bit_iff [of 15 n 15] by (metis less_irrefl take_bit_nat_eq_self)
  then show ?thesis by (simp add: int16_def bit_of_nat_iff)
qed

lemma flag_bit: "bit InputBufferFlagBit k \<longleftrightarrow> k = 15"
  unfolding InputBufferFlagBit_def by (auto simp only: bit_push_bit_iff bit_1_iff possible_bit_word) auto

lemma ctx_words:
  assumes "1 \<le> n" "n \<le> MaxCtxId"
  shows "int16 n AND InputBufferFlagBit = 0"
    "int16 n AND NOT InputBufferFlagBit = int16 n"
    "(int16 n OR InputBufferFlagBit) AND InputBufferFlagBit \<noteq> 0"
    "(int16 n OR InputBufferFlagBit) AND NOT InputBufferFlagBit = int16 n"
    "int16 n \<noteq> 0" "int16 n \<noteq> EndFragmentSentinal" "int16 n \<noteq> SkipHbNodeFlag"
    "int16 n OR InputBufferFlagBit \<noteq> 0"
    "int16 n OR InputBufferFlagBit \<noteq> EndFragmentSentinal"
    "int16 n OR InputBufferFlagBit \<noteq> SkipHbNodeFlag"
proof -
  note b = ctx_bit15 [OF assms(2)]
  show 1: "int16 n AND InputBufferFlagBit = 0"
    using b by (intro bit_word_eqI) (auto simp: bit_and_iff flag_bit)
  show 2: "int16 n AND NOT InputBufferFlagBit = int16 n"
    using b by (intro bit_word_eqI) (auto simp: bit_and_iff bit_not_iff flag_bit)
  show 3: "(int16 n OR InputBufferFlagBit) AND NOT InputBufferFlagBit = int16 n"
    using b by (intro bit_word_eqI) (auto simp: bit_and_iff bit_or_iff bit_not_iff flag_bit)
  have "bit (int16 n OR InputBufferFlagBit) 15" by (simp add: bit_or_iff flag_bit)
  then show "(int16 n OR InputBufferFlagBit) AND InputBufferFlagBit \<noteq> 0"
    "int16 n OR InputBufferFlagBit \<noteq> 0"
    by (metis bit_and_iff flag_bit bit_0_eq bot_apply bot_bool_def) (metis \<open>bit (int16 n OR InputBufferFlagBit) 15\<close> bit_0_eq bot_apply bot_bool_def)
  have u: "unat (int16 n) = n" using assms(2) by (simp add: unat_int16 flag_constants)
  then show "int16 n \<noteq> 0" "int16 n \<noteq> EndFragmentSentinal" "int16 n \<noteq> SkipHbNodeFlag"
    using assms by (auto simp: flag_constants)
  have "unat (0xffff AND NOT InputBufferFlagBit) = 0x7fff" "unat (0xfffe AND NOT InputBufferFlagBit) = 0x7ffe"
    by (simp_all add: flag_constants)
  then show "int16 n OR InputBufferFlagBit \<noteq> EndFragmentSentinal"
    "int16 n OR InputBufferFlagBit \<noteq> SkipHbNodeFlag"
    using 3 u assms(2) by (auto simp: flag_constants)
qed

subsection \<open>Encoding items\<close>

fun encode_item :: "sched_item \<Rightarrow> u16 list" where
  "encode_item SkipNode = [SkipHbNodeFlag]"
| "encode_item (SyncNode c inp es) =
     (case inp of Some i \<Rightarrow> [int16 c OR InputBufferFlagBit, int16 i] | None \<Rightarrow> [int16 c]) @
     int16 (length es) # concat (map (\<lambda>(t, k). [int16 t, int16 k]) es)"

fun item_fits :: "sched_item \<Rightarrow> bool" where
  "item_fits SkipNode = True"
| "item_fits (SyncNode c inp es) \<longleftrightarrow>
     1 \<le> c \<and> c \<le> MaxCtxId \<and> (\<forall>i. inp = Some i \<longrightarrow> i < 2 ^ 16) \<and> length es < 2 ^ 16 \<and>
     (\<forall>(t, k) \<in> set es. t < 2 ^ 16 \<and> k < 2 ^ 16)"

lemma read_edges_encode [sched_simps]:
  "\<forall>(t, k) \<in> set es. t < 2 ^ 16 \<and> k < 2 ^ 16 \<Longrightarrow>
     read_edges (length es) (concat (map (\<lambda>(t, k). [int16 t, int16 k]) es) @ ws) = Some (es, ws)"
  by (induction es) (auto simp: unat_int16)

lemma read_item_encode [sched_simps]: "item_fits it \<Longrightarrow> read_item (encode_item it @ ws) = Some (it, ws)"
proof (cases it)
  case (SyncNode c inp es)
  assume f: "item_fits it"
  have c: "1 \<le> c" "c \<le> MaxCtxId" "c < 2 ^ 16" using f SyncNode by (auto simp: flag_constants)
  have es: "read_edges (length es) (concat (map (\<lambda>(t, k). [int16 t, int16 k]) es) @ ws) = Some (es, ws)"
    using f SyncNode by (intro read_edges_encode) auto
  show ?thesis
    using f SyncNode es unat_int16 [OF c(3)]
    by (cases inp) (simp_all add: read_item_def ctx_words [OF c(1,2)] unat_int16)
qed (simp add: read_item_def)

lemma encode_item_head:
  "item_fits it \<Longrightarrow> \<exists>w ws. encode_item it = w # ws \<and> w \<noteq> 0 \<and> w \<noteq> EndFragmentSentinal"
proof (cases it)
  case (SyncNode c inp es)
  then show "item_fits it \<Longrightarrow> ?thesis" by (cases inp) (auto simp: ctx_words)
qed (simp add: flag_constants)

lemma read_schedule_encode:
  assumes "\<forall>it \<in> set items. item_fits it" "term \<in> {0, EndFragmentSentinal}" "length items < fuel"
  shows "read_schedule fuel (concat (map encode_item items) @ [term]) = Some (items, term)"
  using assms
proof (induction items arbitrary: fuel)
  case Nil
  then show ?case by (cases fuel) auto
next
  case (Cons it items)
  obtain w ws where w: "encode_item it = w # ws" "w \<noteq> 0" "w \<noteq> EndFragmentSentinal"
    using encode_item_head [of it] Cons.prems(1) by auto
  obtain f where f: "fuel = Suc f" using Cons.prems(3) by (cases fuel) auto
  have "read_item (encode_item it @ concat (map encode_item items) @ [term]) =
      Some (it, concat (map encode_item items) @ [term])"
    using Cons.prems(1) by (intro read_item_encode) auto
  then show ?case using Cons w f by simp
qed

lemma length_encode_items: "length items \<le> length (concat (map encode_item items))"
proof (induction items)
  case (Cons it items)
  then show ?case by (cases it) (auto split: option.splits)
qed simp

subsection \<open>The encoder writes items\<close>

lemma pred_nodes_spec:
  assumes "ft_inv st" "ft_abs st g = Some ns" "pred_nodes g ks st = Some ps"
  shows "ps = map (\<lambda>k. ns ! (k - 1)) ks \<and> set ps \<subseteq> set ns"
  using assms(3)
  by (induction ks arbitrary: ps) (auto simp: hb_getNode_spec [OF assms(1,2)] image_subset_iff split: if_splits)

lemma short_id_pos: "short_ok (ctxs I) \<Longrightarrow> LookupCallCtxShortId (strip I) (ctxs I) c = Some k \<Longrightarrow> 1 \<le> k"
  by (auto simp: short_ok_def LookupCallCtxShortId_def LookupUniqueId_def)

lemma GetConstantInt16_Some [simp]: "GetConstantInt16 n = Some w \<longleftrightarrow> n < 2 ^ 16 \<and> w = int16 n"
  by (auto simp: GetConstantInt16_def)

lemma edge_words_encode:
  "edge_words n ps = Some ws \<Longrightarrow>
     ws = concat (map (\<lambda>(t, k). [int16 t, int16 k]) (map (\<lambda>p. (utid (tuid p), threadOrder p)) (filter (\<lambda>p. tuid p \<noteq> tuid n) ps))) \<and>
     (\<forall>p \<in> set ps. tuid p \<noteq> tuid n \<longrightarrow> utid (tuid p) < 2 ^ 16 \<and> threadOrder p < 2 ^ 16)"
  by (induction ps arbitrary: ws) (auto split: if_splits)

lemma int16_or: "int16 (c OR unat InputBufferFlagBit) = int16 c OR InputBufferFlagBit"
  by (simp add: int16_def of_nat_or_eq)

lemma emit_node_encode:
  assumes "ft_inv st" "ft_abs st g = Some ns" "emit_node I g inputId n st = Some ws" "short_ok (ctxs I)"
  shows "\<exists>c. LookupCallCtxShortId (strip I) (ctxs I) (callctx n) = Some c \<and>
    ws = encode_item (SyncNode c (if inputId \<noteq> 0 then Some inputId else None) (edges_of ns n)) \<and>
    item_fits (SyncNode c (if inputId \<noteq> 0 then Some inputId else None) (edges_of ns n))"
proof -
  obtain c ps hd ed where c: "LookupCallCtxShortId (strip I) (ctxs I) (callctx n) = Some c" "c \<le> MaxCtxId"
      "pred_nodes g (incoming n) st = Some ps" "edge_words n ps = Some ed"
    and nd: "length (filter (\<lambda>p. tuid p \<noteq> tuid n) ps) < 2 ^ 16"
    and hd: "hd = (if inputId \<noteq> 0 then [int16 (c OR unat InputBufferFlagBit), int16 inputId] else [int16 c])" "inputId < 2 ^ 16"
    and ws: "ws = hd @ int16 (length (filter (\<lambda>p. tuid p \<noteq> tuid n) ps)) # ed"
    using assms(3) by (auto simp: emit_node_def split: if_splits)
  have ps: "ps = map (\<lambda>k. ns ! (k - 1)) (incoming n)" using pred_nodes_spec [OF assms(1,2) c(3)] by simp
  have ed: "edges_of ns n = map (\<lambda>p. (utid (tuid p), threadOrder p)) (filter (\<lambda>p. tuid p \<noteq> tuid n) ps)" by (simp add: edges_of_def ps)
  have "item_fits (SyncNode c (if inputId \<noteq> 0 then Some inputId else None) (edges_of ns n))"
    using c(2) short_id_pos [OF assms(4) c(1)] hd(2) nd edge_words_encode [OF c(4)] by (auto simp: ed)
  moreover have "ws = encode_item (SyncNode c (if inputId \<noteq> 0 then Some inputId else None) (edges_of ns n))"
    using ws hd(1) edge_words_encode [OF c(4)] by (simp add: ed int16_or)
  ultimately show ?thesis using c(1) by blast
qed

lemma dump_node_encode:
  assumes "ft_inv st" "ft_abs st (hbGraph frag) = Some ns" "short_ok (ctxs I)" "inputs_ok frag"
    and "dump_node I frag (lastNodeId frag = length ns) n st = Some ws"
  shows "ws = encode_item (item_of I frag ns n) \<and> item_fits (item_of I frag ns n)"
proof (cases "inputObj n")
  case None
  then have "emit_node I (hbGraph frag) 0 n st = Some ws" using assms(5) by (simp add: dump_node_def)
  from emit_node_encode [OF assms(1,2) this assms(3)] None show ?thesis by (auto simp: item_of_def)
next
  case (Some obj)
  show ?thesis
  proof (cases "usedArrays I obj \<and> lastNodeId frag \<noteq> length ns")
    case True
    then obtain k where k: "inputIds frag obj = Some k" "emit_node I (hbGraph frag) k n st = Some ws"
      using assms(5) Some by (auto simp: dump_node_def)
    have "1 \<le> k" using k(1) assms(4) by (auto simp: inputs_ok_def)
    with emit_node_encode [OF assms(1,2) k(2) assms(3)] Some True k show ?thesis by (auto simp: item_of_def)
  next
    case False
    then show ?thesis using assms(5) Some by (auto simp: dump_node_def item_of_def int16_def split: if_splits)
  qed
qed

lemma dump_nodes_encode:
  assumes "ft_inv st" "ft_abs st (hbGraph frag) = Some ns" "short_ok (ctxs I)" "inputs_ok frag"
    and "dump_nodes I frag (lastNodeId frag = length ns) ms st = Some ws"
  shows "ws = concat (map (\<lambda>n. encode_item (item_of I frag ns n)) ms) \<and>
    (\<forall>n \<in> set ms. item_fits (item_of I frag ns n))"
  using assms(5)
proof (induction ms arbitrary: ws)
  case (Cons n ms)
  then show ?case using dump_node_encode [OF assms(1-4), of n] by auto
qed simp

definition thread_items ::
  "('i, 'o) instr \<Rightarrow> 'o ScheduleFragment \<Rightarrow> (ThreadUid, 'i list, 'o) hbnode list \<Rightarrow> ThreadUid \<Rightarrow> sched_item list" where
  "thread_items I frag ns u = map (item_of I frag ns)
     (filter (\<lambda>n. tuid n = u) (take (Suc (lastNodeId frag) - firstNodeId frag) (drop (firstNodeId frag - 1) ns)))"

definition range_ok :: "'o ScheduleFragment \<Rightarrow> 'n list \<Rightarrow> bool" where
  "range_ok frag ns \<longleftrightarrow> 1 \<le> firstNodeId frag \<and> firstNodeId frag \<le> Suc (lastNodeId frag) \<and> lastNodeId frag \<le> length ns"

lemma DumpThreadSchedule_encode:
  assumes "ft_inv st" "ft_abs st (hbGraph frag) = Some ns" "short_ok (ctxs I)" "inputs_ok frag" "range_ok frag ns"
    and "DumpThreadSchedule I frag u st = Some ws"
  shows "ws = concat (map encode_item (thread_items I frag ns u)) @
      [if lastNodeId frag = length ns then 0 else EndFragmentSentinal] \<and>
    (\<forall>it \<in> set (thread_items I frag ns u). item_fits it)"
proof -
  obtain tr where tr: "traces st (hbGraph frag) = Some tr" "ns = contents tr st"
    using assms(2) by (auto simp: ft_abs_Some)
  let ?ms = "filter (\<lambda>n. tuid n = u) (take (Suc (lastNodeId frag) - firstNodeId frag) (drop (firstNodeId frag - 1) ns))"
  have "threadOrderRange u (firstNodeId frag) (lastNodeId frag) (segments tr st) = Some ?ms"
    using assms(5) concat_segments [OF assms(1) tr(1)] tr(2)
    by (subst threadOrderRange_spec) (auto simp: range_ok_def)
  moreover have "hb_size (hbGraph frag) st = Some (length ns)" by (rule ft_abs_size [OF assms(1,2)])
  ultimately obtain tmp where tmp: "dump_nodes I frag (lastNodeId frag = length ns) ?ms st = Some tmp"
    "ws = tmp @ [if lastNodeId frag = length ns then 0 else EndFragmentSentinal]"
    using assms(6) tr(1) by (auto simp: DumpThreadSchedule_def Let_def int16_def)
  from dump_nodes_encode [OF assms(1-4) tmp(1)] tmp(2) show ?thesis
    by (auto simp: thread_items_def comp_def)
qed

subsection \<open>Main properties\<close>

text \<open>C3. Reading back the array emitted for a thread of a fragment gives exactly the thread's nodes
  in the range of the fragment, in order: the identifier of the calling context, the identifier of
  the input if it is used and the fragment is not the last one, the thread and timestamp of every
  predecessor in another thread, and a skip for every ignored input.\<close>

theorem schedule_roundtrip:
  assumes "ft_inv st" "ft_abs st (hbGraph frag) = Some ns" "short_ok (ctxs I)" "inputs_ok frag" "range_ok frag ns"
    and "DumpThreadSchedule I frag u st = Some ws"
  shows "read_schedule (length ws) ws =
    Some (thread_items I frag ns u, if lastNodeId frag = length ns then 0 else EndFragmentSentinal)"
proof -
  note e = DumpThreadSchedule_encode [OF assms]
  have "length (thread_items I frag ns u) < length ws"
    using e length_encode_items [of "thread_items I frag ns u"] by simp
  then show ?thesis using e by (auto intro!: read_schedule_encode)
qed

text \<open>A graph with two threads: thread 0 synchronises, thread 1 follows it and reads an input that no
  schedule uses.\<close>

definition demo_nodes :: "(ThreadUid, nat list, nat) hbnode list" where
  "demo_nodes = [
     \<lparr> threadOrder = 1, tuid = ThreadUid 0 2, callctx = [7], inputObj = None, incoming = [] \<rparr>,
     \<lparr> threadOrder = 1, tuid = ThreadUid 1 2, callctx = [8], inputObj = None, incoming = [1] \<rparr>,
     \<lparr> threadOrder = 2, tuid = ThreadUid 1 2, callctx = [8], inputObj = Some 4, incoming = [2] \<rparr>]"

definition store_of :: "'a list \<Rightarrow> 'a fstate" where
  "store_of ns = \<lparr> heap = [0 \<mapsto> \<lparr> refCount = 1, data = ns \<rparr>], nextAddr = 1,
     traces = [0 \<mapsto> \<lparr> nodes = [0], nelems = length ns \<rparr>] \<rparr>"

lemma store_of_ok: "ns \<noteq> [] \<Longrightarrow> ft_inv (store_of ns) \<and> ft_abs (store_of ns) 0 = Some ns"
  by (auto simp: ft_inv_def ft_abs_def store_of_def live_pos_def rc_def occ_def trace_ok_def contents_def hdata_def
      split: if_splits)

definition demo_store :: "(ThreadUid, nat list, nat) hbnode fstate" where
  "demo_store = store_of demo_nodes"

definition demo_instr :: "(nat, nat) instr" where
  "demo_instr = \<lparr> strip = (\<lambda>c. c),
     ctxs = (empty_ctxtables [])\<lparr> usedCallCtxsShortId := [([7], 1), ([8], 2)], usedCallCtxList := [[7], [8]] \<rparr>,
     usedArrays = (\<lambda>obj. False) \<rparr>"

definition demo_frag :: "nat ScheduleFragment" where
  "demo_frag = \<lparr> hbGraph = 0, firstNodeId = 1, lastNodeId = 3, nextThreadLeader = ThreadUid 0 2, exitsProgram = False,
     schedId = 1, fragId = 1, nextSelectorId = 0, inputIds = Map.empty \<rparr>"

lemma demo_facts:
  "ft_inv demo_store" "ft_abs demo_store (hbGraph demo_frag) = Some demo_nodes" "short_ok (ctxs demo_instr)"
  "inputs_ok demo_frag" "range_ok demo_frag demo_nodes"
proof -
  show "ft_inv demo_store" "ft_abs demo_store (hbGraph demo_frag) = Some demo_nodes"
    using store_of_ok [of demo_nodes] by (simp_all add: demo_store_def demo_nodes_def demo_frag_def)
  show "short_ok (ctxs demo_instr)"
    by (auto simp: short_ok_def demo_instr_def empty_ctxtables_def nth_Cons' split: if_splits)
  show "inputs_ok demo_frag" by (simp add: inputs_ok_def demo_frag_def)
  show "range_ok demo_frag demo_nodes" by (simp add: range_ok_def demo_frag_def demo_nodes_def)
qed

lemma demo_dump:
  "DumpThreadSchedule demo_instr demo_frag (ThreadUid 1 2) demo_store = Some [2, 1, 0, 1, 0xfffe, 0]"
  "DumpThreadSchedule demo_instr demo_frag (ThreadUid 0 2) demo_store = Some [1, 0, 0]"
proof -
  have seg: "concat (segments \<lparr> nodes = [0], nelems = 3 \<rparr> demo_store) = demo_nodes"
    by (simp add: segments_def demo_store_def store_of_def)
  have range: "threadOrderRange (ThreadUid 1 2) 1 3 (segments \<lparr> nodes = [0], nelems = 3 \<rparr> demo_store) =
      Some [demo_nodes ! 1, demo_nodes ! 2]"
    "threadOrderRange (ThreadUid 0 2) 1 3 (segments \<lparr> nodes = [0], nelems = 3 \<rparr> demo_store) = Some [demo_nodes ! 0]"
    by (subst threadOrderRange_spec, auto simp: seg demo_nodes_def)+
  have node: "hb_getNode 0 k demo_store = (if k \<noteq> 0 \<and> k \<le> 3 then Some (demo_nodes ! (k - 1)) else None)" for k
    using hb_getNode_spec [OF demo_facts(1,2), of k] by (simp add: demo_frag_def demo_nodes_def)
  have size: "hb_size 0 demo_store = Some 3" by (simp add: hb_size_def demo_store_def store_of_def demo_nodes_def)
  have tr: "traces demo_store 0 = Some \<lparr> nodes = [0], nelems = 3 \<rparr>" by (simp add: demo_store_def store_of_def demo_nodes_def)
  show "DumpThreadSchedule demo_instr demo_frag (ThreadUid 1 2) demo_store = Some [2, 1, 0, 1, 0xfffe, 0]"
    "DumpThreadSchedule demo_instr demo_frag (ThreadUid 0 2) demo_store = Some [1, 0, 0]"
    using range node size tr
    by (simp_all add: DumpThreadSchedule_def demo_frag_def dump_node_def emit_node_def demo_instr_def empty_ctxtables_def
        LookupCallCtxShortId_def LookupUniqueId_def GetConstantInt16_def int16_def flag_constants demo_nodes_def
        del: GetConstantInt16_Some)
qed

theorem schedule_roundtrip_witness:
  "read_schedule 6 [2, 1, 0, 1, 0xfffe, 0] = Some ([SyncNode 2 None [(0, 1)], SkipNode], 0)"
  using schedule_roundtrip [OF demo_facts demo_dump(1)]
  by (simp add: eval_nat_numeral thread_items_def item_of_def edges_of_def demo_nodes_def demo_frag_def demo_instr_def
      LookupCallCtxShortId_def LookupUniqueId_def empty_ctxtables_def del: read_schedule.simps)

text \<open>C35. Numbers that do not fit into 16 bits are rejected rather than truncated: when a node in the
  range has a predecessor in another thread whose thread or timestamp is 65536 or more, no schedule is
  emitted.\<close>

theorem schedule_overflow_rejected:
  assumes "ft_inv st" "ft_abs st (hbGraph frag) = Some ns" "short_ok (ctxs I)" "inputs_ok frag" "range_ok frag ns"
    and "SyncNode c inp es \<in> set (thread_items I frag ns u)" "(t, k) \<in> set es" "2 ^ 16 \<le> max t k"
  shows "DumpThreadSchedule I frag u st = None"
proof (rule ccontr)
  assume "DumpThreadSchedule I frag u st \<noteq> None"
  then obtain ws where "DumpThreadSchedule I frag u st = Some ws" by blast
  from DumpThreadSchedule_encode [OF assms(1-5) this] assms(6) have "item_fits (SyncNode c inp es)" by blast
  then show False using assms(7,8) by auto
qed

definition late_nodes :: "(ThreadUid, nat list, nat) hbnode list" where
  "late_nodes = [
     \<lparr> threadOrder = 65536, tuid = ThreadUid 0 2, callctx = [7], inputObj = None, incoming = [] \<rparr>,
     \<lparr> threadOrder = 1, tuid = ThreadUid 1 2, callctx = [8], inputObj = None, incoming = [1] \<rparr>]"

theorem schedule_overflow_rejected_witness:
  "DumpThreadSchedule demo_instr (demo_frag\<lparr> lastNodeId := 2 \<rparr>) (ThreadUid 1 2) (store_of late_nodes) = None"
proof (rule schedule_overflow_rejected [where ns = late_nodes and c = 2 and inp = None and es = "[(0, 65536)]" and t = 0 and k = 65536])
  show "SyncNode 2 None [(0, 65536)] \<in> set (thread_items demo_instr (demo_frag\<lparr> lastNodeId := 2 \<rparr>) late_nodes (ThreadUid 1 2))"
    by (simp add: thread_items_def item_of_def edges_of_def late_nodes_def demo_frag_def demo_instr_def
        LookupCallCtxShortId_def LookupUniqueId_def empty_ctxtables_def)
qed (use store_of_ok [of late_nodes] demo_facts(3) in
  \<open>simp_all add: late_nodes_def demo_frag_def inputs_ok_def range_ok_def\<close>)

end
