(* ===== verification/Region_Table.thy ===== *)
theory Region_Table
  imports Schedule_Table Uclibc_Sort "HOL-Library.Product_Lexorder"
begin

text \<open>
  The table of regions. A region is named by the calling contexts of its threads; the instrumentor
  (\<^verbatim>\<open>DumpRegionContexts\<close>) emits for each region the sorted list of
  (context, thread) pairs, ended by 0, and at a region barrier the runtime
  (\<^verbatim>\<open>GetNextRegionId\<close>) looks for the region whose contexts are those of the running
  threads and records which running thread plays which thread of the region.
\<close>

subsection \<open>Emitting the table\<close>

record 'i RegionInfo =
  numericId :: nat
  contexts :: "('i list \<times> ThreadUid) list"

fun region_pairs ::
  "('i list \<Rightarrow> 'i list) \<Rightarrow> 'i ctxtables \<Rightarrow> ('i list \<times> ThreadUid) list \<Rightarrow> (u64 \<times> u64) list option" where
  "region_pairs strp T [] = Some []"
| "region_pairs strp T ((ctx, tu) # cs) = do {
     ctxId \<leftarrow> LookupCallCtxLongId strp T ctx;
     assert_opt (upid tu = 2);
     rest \<leftarrow> region_pairs strp T cs;
     Some ((ctxId, word_of_nat (utid tu)) # rest)
   }"

definition region_array :: "(u64 \<times> u64) list \<Rightarrow> u64 list" where
  "region_array pairs = concat (map (\<lambda>(c, t). [c, t]) pairs) @ [0]"

fun region_entries ::
  "('i list \<Rightarrow> 'i list) \<Rightarrow> 'i ctxtables \<Rightarrow> 'i RegionInfo list \<Rightarrow> (nat \<rightharpoonup> u64 list) \<Rightarrow> (nat \<rightharpoonup> u64 list) option" where
  "region_entries strp T [] entries = Some entries"
| "region_entries strp T (r # rs) entries = do {
     pairs \<leftarrow> region_pairs strp T (contexts r);
     region_entries strp T rs (entries(numericId r \<mapsto> region_array (sort pairs)))
   }"

text \<open>The global table: a null entry for the invalid region 0, the entries in the order of the
  region identifiers, and a terminating null entry.\<close>

definition DumpRegionContexts ::
  "('i list \<Rightarrow> 'i list) \<Rightarrow> 'i ctxtables \<Rightarrow> 'i RegionInfo list \<Rightarrow> u64 list option list option" where
  "DumpRegionContexts strp T rs = do {
     entries \<leftarrow> region_entries strp T rs Map.empty;
     Some (None # map entries (sorted_list_of_set (dom entries)) @ [None])
   }"

subsection \<open>Looking up the region\<close>

definition PerThreadContextCmp :: "u64 \<times> nat \<Rightarrow> u64 \<times> nat \<Rightarrow> int" where
  "PerThreadContextCmp a b = (if fst a = fst b then 0 else if fst a < fst b then -1 else 1)"

text \<open>Comparing one region with the sorted contexts. The result says whether the whole entry
  matched, and the logical thread map as it has been overwritten on the way; an access outside the
  arrays is \<^term>\<open>None\<close>.\<close>

fun match_region :: "u64 list \<Rightarrow> (u64 \<times> nat) list \<Rightarrow> (nat \<Rightarrow> nat) \<Rightarrow> (bool \<times> (nat \<Rightarrow> nat)) option" where
  "match_region [] srt L = None"
| "match_region (c # cs) [] L = Some (c = 0, L)"
| "match_region (c # cs) ((ctxid, k) # srt) L =
     (if c = 0 then Some (False, L)
      else case cs of
        [] \<Rightarrow> None
      | t # cs' \<Rightarrow>
          if c \<noteq> ctxid then Some (False, L)
          else if unat t < KLEE_MAX_THREADS then match_region cs' srt (L(unat t := k)) else None)"

fun find_region ::
  "u64 list option list \<Rightarrow> nat \<Rightarrow> (u64 \<times> nat) list \<Rightarrow> (nat \<Rightarrow> nat) \<Rightarrow> (nat \<times> (nat \<Rightarrow> nat)) option" where
  "find_region [] rid srt L = None"
| "find_region (None # table) rid srt L = None"
| "find_region (Some ctxlist # table) rid srt L = do {
     (matched, L) \<leftarrow> match_region ctxlist srt L;
     if matched then Some (rid, L) else find_region table (rid + 1) srt L
   }"

definition GetNextRegionId ::
  "u64 list option list \<Rightarrow> (u64 \<times> nat) list \<Rightarrow> (nat \<Rightarrow> nat) \<Rightarrow> (nat \<times> (nat \<Rightarrow> nat)) option" where
  "GetNextRegionId table cur L = do {
     srt \<leftarrow> qsort_r PerThreadContextCmp 16 cur;
     find_region (tl table) 1 srt L
   }"

subsection \<open>Matching one region\<close>

lemma cmp_total: "total_preorder PerThreadContextCmp"
  by (auto simp: total_preorder_def PerThreadContextCmp_def)

lemma cmp_le: "PerThreadContextCmp a b \<le> 0 \<longleftrightarrow> fst a \<le> fst b"
  by (auto simp: PerThreadContextCmp_def)

definition assign_threads :: "(u64 \<times> u64) list \<Rightarrow> (u64 \<times> nat) list \<Rightarrow> (nat \<Rightarrow> nat) \<Rightarrow> nat \<Rightarrow> nat" where
  "assign_threads pairs srt L = fold (\<lambda>(p, q) L. L(unat (snd p) := snd q)) (zip pairs srt) L"

lemma assign_threads_Cons: "assign_threads (p # pairs) (q # srt) L = assign_threads pairs srt (L(unat (snd p) := snd q))"
  by (simp add: assign_threads_def)

lemma match_region_spec:
  assumes "\<forall>(c, t) \<in> set pairs. c \<noteq> 0 \<and> unat t < KLEE_MAX_THREADS"
  shows "\<exists>L'. match_region (region_array pairs) srt L = Some (map fst pairs = map fst srt, L') \<and>
    (map fst pairs = map fst srt \<longrightarrow> L' = assign_threads pairs srt L)"
  using assms
proof (induction pairs arbitrary: srt L)
  case Nil
  then show ?case by (cases srt) (auto simp: region_array_def assign_threads_def)
next
  case (Cons p pairs)
  note IH = Cons.IH and prems = Cons.prems
  obtain c t where p: "p = (c, t)" by (cases p)
  have arr: "region_array (p # pairs) = c # t # region_array pairs" by (simp add: region_array_def p)
  show ?case
  proof (cases srt)
    case Nil
    then show ?thesis using prems by (simp add: p arr [unfolded p])
  next
    case (Cons q srt')
    obtain x k where q: "q = (x, k)" by (cases q)
    obtain L' where "match_region (region_array pairs) srt' (L(unat t := k)) = Some (map fst pairs = map fst srt', L')"
      "map fst pairs = map fst srt' \<Longrightarrow> L' = assign_threads pairs srt' (L(unat t := k))"
      using IH [of srt' "L(unat t := k)"] prems by (auto simp del: fun_upd_apply)
    then show ?thesis
      using prems by (auto simp: Cons p q arr [unfolded p] assign_threads_Cons)
  qed
qed

lemma assign_threads_other:
  "length pairs = length srt \<Longrightarrow> k \<notin> (\<lambda>p. unat (snd p)) ` set pairs \<Longrightarrow> assign_threads pairs srt L k = L k"
proof (induction pairs srt arbitrary: L rule: list_induct2)
  case (Cons p pairs q srt)
  then show ?case by (auto simp: assign_threads_Cons)
qed (simp add: assign_threads_def)

lemma assign_threads_nth:
  assumes "length pairs = length srt" "distinct (map (\<lambda>p. unat (snd p)) pairs)" "i < length pairs"
  shows "assign_threads pairs srt L (unat (snd (pairs ! i))) = snd (srt ! i)"
  using assms
proof (induction pairs srt arbitrary: L i rule: list_induct2)
  case (Cons p pairs q srt)
  then show ?case by (cases i) (auto simp: assign_threads_Cons assign_threads_other)
qed simp

subsection \<open>Searching the table\<close>

lemma find_region_spec:
  assumes "\<forall>a \<in> set as. \<exists>pairs. a = region_array pairs \<and> (\<forall>(c, t) \<in> set pairs. c \<noteq> 0 \<and> unat t < KLEE_MAX_THREADS)"
  shows "case find_region (map Some as @ [None]) rid srt L of
      Some (r, L') \<Rightarrow> rid \<le> r \<and> r - rid < length as \<and>
        (\<forall>pairs. as ! (r - rid) = region_array pairs \<longrightarrow>
           (\<forall>(c, t) \<in> set pairs. c \<noteq> 0 \<and> unat t < KLEE_MAX_THREADS) \<longrightarrow>
           map fst pairs = map fst srt \<and> (\<exists>L0. L' = assign_threads pairs srt L0))
    | None \<Rightarrow> \<forall>pairs. region_array pairs \<in> set as \<longrightarrow> (\<forall>(c, t) \<in> set pairs. c \<noteq> 0 \<and> unat t < KLEE_MAX_THREADS) \<longrightarrow>
        map fst pairs \<noteq> map fst srt"
  using assms
proof (induction as arbitrary: rid L)
  case (Cons a as)
  obtain ps where ps: "a = region_array ps" "\<forall>(c, t) \<in> set ps. c \<noteq> 0 \<and> unat t < KLEE_MAX_THREADS"
    using Cons.prems by auto
  obtain L1 where L1: "match_region a srt L = Some (map fst ps = map fst srt, L1)"
    "map fst ps = map fst srt \<Longrightarrow> L1 = assign_threads ps srt L"
    using match_region_spec [OF ps(2), of srt L] ps(1) by auto
  have any: "map fst qs = map fst srt \<longleftrightarrow> map fst ps = map fst srt"
    "map fst qs = map fst srt \<Longrightarrow> L1 = assign_threads qs srt L"
    if "a = region_array qs" "\<forall>(c, t) \<in> set qs. c \<noteq> 0 \<and> unat t < KLEE_MAX_THREADS" for qs
    using match_region_spec [OF that(2), of srt L] that(1) L1(1) by auto
  show ?case
  proof (cases "map fst ps = map fst srt")
    case True
    then have "\<exists>L0. L1 = assign_threads qs srt L0" "map fst qs = map fst srt"
      if "a = region_array qs" "\<forall>(c, t) \<in> set qs. c \<noteq> 0 \<and> unat t < KLEE_MAX_THREADS" for qs
      using any [OF that] by auto
    then show ?thesis using True L1(1) by auto
  next
    case False
    have IH: "case find_region (map Some as @ [None]) (rid + 1) srt L1 of
      Some (r, L') \<Rightarrow> rid + 1 \<le> r \<and> r - (rid + 1) < length as \<and>
        (\<forall>pairs. as ! (r - (rid + 1)) = region_array pairs \<longrightarrow>
           (\<forall>(c, t) \<in> set pairs. c \<noteq> 0 \<and> unat t < KLEE_MAX_THREADS) \<longrightarrow>
           map fst pairs = map fst srt \<and> (\<exists>L0. L' = assign_threads pairs srt L0))
    | None \<Rightarrow> \<forall>pairs. region_array pairs \<in> set as \<longrightarrow> (\<forall>(c, t) \<in> set pairs. c \<noteq> 0 \<and> unat t < KLEE_MAX_THREADS) \<longrightarrow>
        map fst pairs \<noteq> map fst srt"
      using Cons.prems by (intro Cons.IH) auto
    have step: "find_region (map Some (a # as) @ [None]) rid srt L = find_region (map Some as @ [None]) (rid + 1) srt L1"
      using False L1(1) by simp
    show ?thesis
    proof (cases "find_region (map Some as @ [None]) (rid + 1) srt L1")
      case None
      then show ?thesis using IH any(1) False unfolding step by auto
    next
      case (Some rl)
      obtain r L' where rl: "rl = (r, L')" by (cases rl)
      have "(a # as) ! (r - rid) = as ! (r - (rid + 1))" "r - rid < length (a # as)" "rid \<le> r"
        using IH Some rl by (auto simp: nth_Cons')
      then show ?thesis using IH Some rl unfolding step by auto
    qed
  qed
qed simp

subsection \<open>The emitted table\<close>

text \<open>The contexts of a region as pairs of long identifier and thread, and what the table format
  needs of them: no identifier is 0, and the threads are different and within bounds.\<close>

definition region_ids :: "('i list \<Rightarrow> 'i list) \<Rightarrow> 'i ctxtables \<Rightarrow> 'i RegionInfo \<Rightarrow> (u64 \<times> nat) list" where
  "region_ids strp T r = map (\<lambda>(ctx, tu). (the (LookupCallCtxLongId strp T ctx), utid tu)) (contexts r)"

definition region_ok :: "('i list \<Rightarrow> 'i list) \<Rightarrow> 'i ctxtables \<Rightarrow> 'i RegionInfo \<Rightarrow> bool" where
  "region_ok strp T r \<longleftrightarrow>
     (\<forall>(v, t) \<in> set (region_ids strp T r). v \<noteq> 0 \<and> t < KLEE_MAX_THREADS) \<and> distinct (map snd (region_ids strp T r))"

lemma region_pairs_spec:
  "region_pairs strp T cs = Some ps \<Longrightarrow>
     ps = map (\<lambda>(ctx, tu). (the (LookupCallCtxLongId strp T ctx), word_of_nat (utid tu))) cs"
  by (induction strp T cs arbitrary: ps rule: region_pairs.induct) (auto split: if_splits)

lemma region_pairs_ids:
  assumes "region_pairs strp T (contexts r) = Some ps" "region_ok strp T r"
  shows "map (\<lambda>(v, t). (v, unat t)) ps = region_ids strp T r"
proof -
  have "t < KLEE_MAX_THREADS \<Longrightarrow> unat (word_of_nat t :: u64) = t" for t
    by (simp add: KLEE_MAX_THREADS_def unat_of_nat)
  then show ?thesis
    using region_pairs_spec [OF assms(1)] assms(2) by (fastforce simp: region_ids_def region_ok_def)
qed

lemma region_entries_spec:
  assumes "region_entries strp T rs E = Some E'" "distinct (map numericId rs)"
  shows "dom E' = dom E \<union> numericId ` set rs \<and>
    (\<forall>r \<in> set rs. \<exists>ps. region_pairs strp T (contexts r) = Some ps \<and> E' (numericId r) = Some (region_array (sort ps))) \<and>
    (\<forall>k. k \<notin> numericId ` set rs \<longrightarrow> E' k = E k)"
  using assms
proof (induction rs arbitrary: E)
  case (Cons r rs)
  then obtain ps where ps: "region_pairs strp T (contexts r) = Some ps"
    "region_entries strp T rs (E(numericId r \<mapsto> region_array (sort ps))) = Some E'" by auto
  from Cons.IH [OF ps(2)] Cons.prems(2) ps(1) show ?case by auto
qed simp

lemma region_table_spec:
  assumes "DumpRegionContexts strp T rs = Some table" "distinct (map numericId rs)"
    "numericId ` set rs = {1..length rs}" "\<forall>r \<in> set rs. region_ok strp T r"
  obtains as where "tl table = map Some as @ [None]" "length as = length rs"
    "\<And>r. r \<in> set rs \<Longrightarrow> \<exists>ps. as ! (numericId r - 1) = region_array ps \<and>
       mset (map (\<lambda>(v, t). (v, unat t)) ps) = mset (region_ids strp T r) \<and> sorted (map fst ps)"
proof -
  obtain E where E: "region_entries strp T rs Map.empty = Some E"
    and table: "table = None # map E (sorted_list_of_set (dom E)) @ [None]"
    using assms(1) by (auto simp: DumpRegionContexts_def)
  note spec = region_entries_spec [OF E assms(2)]
  have dom: "dom E = {1..<Suc (length rs)}" using spec assms(3) by (simp add: atLeastLessThanSuc_atLeastAtMost)
  let ?as = "map (\<lambda>k. the (E k)) [1..<Suc (length rs)]"
  have "map E (sorted_list_of_set (dom E)) = map Some ?as"
    unfolding dom sorted_list_of_set_range using dom by (auto simp: dom_def set_eq_iff)
  moreover have "\<exists>ps. ?as ! (numericId r - 1) = region_array ps \<and>
      mset (map (\<lambda>(v, t). (v, unat t)) ps) = mset (region_ids strp T r) \<and> sorted (map fst ps)" if r: "r \<in> set rs" for r
  proof -
    obtain ps where ps: "region_pairs strp T (contexts r) = Some ps" "E (numericId r) = Some (region_array (sort ps))"
      using spec r by blast
    have "numericId r \<in> {1..length rs}" using assms(3) r by blast
    then have "?as ! (numericId r - 1) = region_array (sort ps)"
      using ps(2) by (subst nth_map) (auto simp del: upt_Suc)
    moreover have "mset (map (\<lambda>(v, t). (v, unat t)) (sort ps)) = mset (region_ids strp T r)"
      using assms(4) r by (simp add: region_pairs_ids [OF ps(1), symmetric])
    moreover have "sorted (map fst (sort ps))"
      unfolding sorted_map by (rule sorted_wrt_mono_rel [OF _ sorted_sort]) (auto simp: less_eq_prod_def)
    ultimately show ?thesis by blast
  qed
  ultimately show ?thesis using that [of ?as] table by (simp del: upt_Suc)
qed

lemma mset_fst_unat:
  "mset (map (\<lambda>(v, t). (v, unat t)) ps) = mset ids \<Longrightarrow> mset (map fst ps) = mset (map fst ids)"
proof -
  assume "mset (map (\<lambda>(v, t). (v, unat t)) ps) = mset ids"
  then have "mset (map fst (map (\<lambda>(v, t). (v, unat t)) ps)) = mset (map fst ids)" by (simp only: mset_map)
  then show ?thesis by (simp add: comp_def case_prod_beta)
qed

lemma sorted_eq_iff_mset: "sorted xs \<Longrightarrow> sorted ys \<Longrightarrow> xs = ys \<longleftrightarrow> mset xs = mset (ys :: 'a::linorder list)"
  by (metis properties_for_sort)

text \<open>What a successful match says about the assignment of threads.\<close>

lemma assignment_ok:
  assumes "mset (map (\<lambda>(v, t). (v, unat t)) ps) = mset ids" "distinct (map snd ids)" "map fst ps = map fst srt"
    "L' = assign_threads ps srt L0" "distinct (map snd srt)"
  shows "(\<forall>(v, t) \<in> set ids. (v, L' t) \<in> set srt) \<and> inj_on L' (snd ` set ids)"
proof -
  have len: "length ps = length srt" using assms(3) by (metis length_map)
  have "map (\<lambda>p. unat (snd p)) ps = map snd (map (\<lambda>(v, t). (v, unat t)) ps)" by (simp add: case_prod_beta)
  moreover have "mset (map snd (map (\<lambda>(v, t). (v, unat t)) ps)) = mset (map snd ids)"
    using assms(1) by (simp only: mset_map)
  ultimately have d: "distinct (map (\<lambda>p. unat (snd p)) ps)"
    using assms(2) mset_eq_imp_distinct_iff by metis
  have set_ids: "set ids = (\<lambda>(v, t). (v, unat t)) ` set ps" using mset_eq_setD [OF assms(1)] by simp
  have nth: "L' (unat (snd (ps ! i))) = snd (srt ! i)" "fst (ps ! i) = fst (srt ! i)" if "i < length ps" for i
    using assign_threads_nth [OF len d that] assms(3,4) that len by (simp, metis nth_map)
  have "(v, L' t) \<in> set srt" if vt: "(v, t) \<in> set ids" for v t
  proof -
    obtain i where i: "i < length ps" "v = fst (ps ! i)" "t = unat (snd (ps ! i))"
      using vt set_ids by (auto simp: in_set_conv_nth)
    then have "(v, L' t) = srt ! i" using nth by (simp add: prod_eq_iff)
    then show ?thesis using i(1) len by simp
  qed
  moreover have "inj_on L' (snd ` set ids)"
  proof (rule inj_onI)
    fix x y assume "x \<in> snd ` set ids" "y \<in> snd ` set ids" and eq: "L' x = L' y"
    then obtain i j where ij: "i < length ps" "x = unat (snd (ps ! i))" "j < length ps" "y = unat (snd (ps ! j))"
      using set_ids by (auto simp: in_set_conv_nth)
    then have "snd (srt ! i) = snd (srt ! j)" using eq nth(1) by simp
    then have "i = j" using ij len assms(5) by (metis distinct_conv_nth length_map nth_map)
    then show "x = y" using ij by simp
  qed
  ultimately show ?thesis by blast
qed

subsection \<open>Main property\<close>

text \<open>C9. With the table that the instrumentor emits, the lookup at a region barrier finds a region
  exactly when some region has the calling contexts of the running threads, and then it finds such a
  region and maps each of its threads to a running thread in the same calling context, different
  threads to different ones. If no region has these contexts, the lookup fails an assertion. The
  hypotheses on the regions are that they are numbered from 1, that no context has identifier 0, and
  that the threads of a region are different and less than the maximum.\<close>

theorem region_lookup:
  assumes "DumpRegionContexts strp T rs = Some table" "distinct (map numericId rs)"
    "numericId ` set rs = {1..length rs}" "\<forall>r \<in> set rs. region_ok strp T r"
    "length cur \<le> KLEE_MAX_THREADS" "distinct (map snd cur)"
  shows "case GetNextRegionId table cur L of
      Some (rid, L') \<Rightarrow> \<exists>r \<in> set rs. numericId r = rid \<and>
        mset (map fst (region_ids strp T r)) = mset (map fst cur) \<and>
        (\<forall>(v, t) \<in> set (region_ids strp T r). (v, L' t) \<in> set cur) \<and>
        inj_on L' (snd ` set (region_ids strp T r))
    | None \<Rightarrow> \<forall>r \<in> set rs. mset (map fst (region_ids strp T r)) \<noteq> mset (map fst cur)"
proof -
  obtain srt where srt: "qsort_r PerThreadContextCmp 16 cur = Some srt" "mset srt = mset cur"
      "sorted_wrt (\<lambda>a b. PerThreadContextCmp a b \<le> 0) srt"
    using qsort_r_spec [OF cmp_total, of cur 16] assms(5) by (auto simp: KLEE_MAX_THREADS_def)
  have ss: "sorted (map fst srt)" using srt(3) by (simp add: cmp_le sorted_map)
  have ms: "mset (map fst srt) = mset (map fst cur)" "set srt = set cur" "distinct (map snd srt)"
    using srt(2) assms(6) mset_eq_setD [OF srt(2)] mset_eq_imp_distinct_iff [of "map snd srt" "map snd cur"] by simp_all
  obtain as where as: "tl table = map Some as @ [None]" "length as = length rs"
    "\<And>r. r \<in> set rs \<Longrightarrow> \<exists>ps. as ! (numericId r - 1) = region_array ps \<and>
       mset (map (\<lambda>(v, t). (v, unat t)) ps) = mset (region_ids strp T r) \<and> sorted (map fst ps)"
    using region_table_spec [OF assms(1-4)] by blast
  have wf: "\<forall>(c, t) \<in> set ps. c \<noteq> 0 \<and> unat t < KLEE_MAX_THREADS"
    if "mset (map (\<lambda>(v, t). (v, unat t)) ps) = mset (region_ids strp T r)" "r \<in> set rs" for ps r
  proof -
    have "set (region_ids strp T r) = (\<lambda>(v, t). (v, unat t)) ` set ps" using mset_eq_setD [OF that(1)] by simp
    moreover have "region_ok strp T r" using assms(4) that(2) by blast
    ultimately show ?thesis by (auto simp: region_ok_def)
  qed
  have at: "\<exists>r \<in> set rs. numericId r = Suc k" if "k < length rs" for k
  proof -
    have "Suc k \<in> numericId ` set rs" using assms(3) that by simp
    then show ?thesis by auto
  qed
  have all: "\<forall>a \<in> set as. \<exists>ps. a = region_array ps \<and> (\<forall>(c, t) \<in> set ps. c \<noteq> 0 \<and> unat t < KLEE_MAX_THREADS)"
  proof
    fix a assume "a \<in> set as"
    then obtain k where k: "k < length rs" "a = as ! k" using as(2) by (auto simp: in_set_conv_nth)
    obtain r where r: "r \<in> set rs" "numericId r = Suc k" using at [OF k(1)] by blast
    then show "\<exists>ps. a = region_array ps \<and> (\<forall>(c, t) \<in> set ps. c \<noteq> 0 \<and> unat t < KLEE_MAX_THREADS)"
      using as(3) [OF r(1)] wf k(2) by fastforce
  qed
  note F = find_region_spec [OF all, where rid = 1 and srt = srt and L = L]
  have G: "GetNextRegionId table cur L = find_region (map Some as @ [None]) 1 srt L"
    by (simp add: GetNextRegionId_def srt(1) as(1))
  show ?thesis
  proof (cases "find_region (map Some as @ [None]) 1 srt L")
    case None
    have "mset (map fst (region_ids strp T r)) \<noteq> mset (map fst cur)" if r: "r \<in> set rs" for r
    proof -
      obtain ps where ps: "as ! (numericId r - 1) = region_array ps"
        "mset (map (\<lambda>(v, t). (v, unat t)) ps) = mset (region_ids strp T r)" "sorted (map fst ps)" using as(3) [OF r] by blast
      have "numericId r \<in> {1..length rs}" using assms(3) r by blast
      then have "region_array ps \<in> set as" using ps(1) as(2) nth_mem [of "numericId r - 1" as] by auto
      then have "map fst ps \<noteq> map fst srt" using F None wf [OF ps(2) r] by simp
      then have "mset (map fst ps) \<noteq> mset (map fst srt)" using sorted_eq_iff_mset [OF ps(3) ss] by blast
      then show ?thesis using mset_fst_unat [OF ps(2)] ms(1) by simp
    qed
    then show ?thesis using None G by simp
  next
    case (Some rl)
    obtain rid L' where rl: "rl = (rid, L')" by (cases rl)
    have rid: "1 \<le> rid" "rid - 1 < length rs" using F Some rl as(2) by auto
    obtain r where r: "r \<in> set rs" "numericId r = rid" using at [of "rid - 1"] rid by auto
    obtain ps where ps: "as ! (numericId r - 1) = region_array ps"
        "mset (map (\<lambda>(v, t). (v, unat t)) ps) = mset (region_ids strp T r)" using as(3) [OF r(1)] by blast
    obtain L0 where m: "map fst ps = map fst srt" "L' = assign_threads ps srt L0"
      using F Some rl wf [OF ps(2) r(1)] ps(1) r(2) by auto
    have "distinct (map snd (region_ids strp T r))" using assms(4) r(1) by (simp add: region_ok_def)
    from assignment_ok [OF ps(2) this m ms(3)] ms mset_fst_unat [OF ps(2)] m(1) r G Some rl
    show ?thesis by (auto intro!: bexI [of _ r])
  qed
qed

definition demo_tables :: "nat ctxtables" where
  "demo_tables = (empty_ctxtables [])\<lparr> usedCallCtxsToId := [([7], 5), ([8], 3)] \<rparr>"

definition demo_region :: "nat RegionInfo" where
  "demo_region = \<lparr> numericId = 1, contexts = [([7], ThreadUid 0 2), ([8], ThreadUid 1 2)] \<rparr>"

lemma demo_region_facts:
  "DumpRegionContexts (\<lambda>c. c) demo_tables [demo_region] = Some [None, Some [3, 1, 5, 0, 0], None]"
  "region_ids (\<lambda>c. c) demo_tables demo_region = [(5, 0), (3, 1)]"
  by (simp_all add: DumpRegionContexts_def demo_region_def demo_tables_def LookupCallCtxLongId_def empty_ctxtables_def
      region_array_def region_ids_def)

theorem region_lookup_witness:
  "case GetNextRegionId [None, Some [3, 1, 5, 0, 0], None] [(5, 4), (3, 2)] (\<lambda>k. k) of
      Some (rid, L') \<Rightarrow> rid = 1 \<and> L' 0 = 4 \<and> L' 1 = 2
    | None \<Rightarrow> False"
proof -
  have "case GetNextRegionId [None, Some [3, 1, 5, 0, 0], None] [(5, 4), (3, 2)] (\<lambda>k. k) of
      Some (rid, L') \<Rightarrow> \<exists>r \<in> set [demo_region]. numericId r = rid \<and>
        mset (map fst (region_ids (\<lambda>c. c) demo_tables r)) = mset (map fst [(5 :: u64, 4 :: nat), (3, 2)]) \<and>
        (\<forall>(v, t) \<in> set (region_ids (\<lambda>c. c) demo_tables r). (v, L' t) \<in> set [(5, 4), (3, 2)]) \<and>
        inj_on L' (snd ` set (region_ids (\<lambda>c. c) demo_tables r))
    | None \<Rightarrow> \<forall>r \<in> set [demo_region]. mset (map fst (region_ids (\<lambda>c. c) demo_tables r)) \<noteq> mset (map fst [(5 :: u64, 4 :: nat), (3, 2)])"
    by (rule region_lookup [OF demo_region_facts(1)])
      (auto simp: region_ok_def demo_region_facts KLEE_MAX_THREADS_def demo_region_def [THEN arg_cong, of numericId])
  then show ?thesis by (auto simp: demo_region_facts demo_region_def [THEN arg_cong, of numericId] split: option.splits)
qed

text \<open>Entries that match only in part leave traces: here the first region shares one context with the
  running threads, and its thread 3 stays mapped to thread 0 although the region found has no
  thread 3.\<close>

lemma partial_match_overwrites:
  "\<exists>L'. find_region [Some [5, 3, 7, 2, 0], Some [5, 0, 8, 1, 0], None] 1 [(5, 0), (8, 1)] (\<lambda>k. k) = Some (2, L') \<and> L' 3 = 0"
  by (simp add: KLEE_MAX_THREADS_def)

end
