(* ===== verification/Runtime.thy ===== *)
theory Runtime
  imports Region_Table
begin

unbundle bit_operations_syntax

text \<open>
  The scheduling core of the constrained execution runtime
  (\<^verbatim>\<open>runtime/ConstrainedExec/lib.cpp\<close>, "ICS Scheduling" and "ICS API: Basics"): threads
  follow their schedule arrays and wait on each other's logical clocks.

  The runtime is preemptive: another thread may run whenever a thread spins, and between any two
  accesses to shared data. A thread is therefore modelled with a stack of frames, each of which is a
  point of the source where it continues: the head of a loop, a spin loop, or what is left to do after a
  call returns. \<^verbatim>\<open>rt_step\<close> runs one thread from one such point to the next. Its result is
  \<^verbatim>\<open>Spin\<close> when the condition of a spin loop does not hold, and \<^verbatim>\<open>Abort\<close> for
  a failed assertion or an access outside an array. The program that calls the runtime is an arbitrary
  client (\<^verbatim>\<open>rstep\<close> below); its own continuations are frames \<^verbatim>\<open>Client\<close>.

  The generated selector and snapshot functions, and the generated tables, are in the environment record. The branch of
  \<^verbatim>\<open>WaitForHbNode\<close> that uses futexes is disabled in the source (\<^verbatim>\<open>0 && usefutex\<close>) and
  so is \<^verbatim>\<open>needfutex\<close>, which only that branch sets; statistics and debug output are left out.
\<close>

subsection \<open>State\<close>

datatype 'a res = Ok 'a | Spin | Abort

definition res_of :: "'a option \<Rightarrow> 'a res" where
  "res_of x = (case x of None \<Rightarrow> Abort | Some v \<Rightarrow> Ok v)"

text \<open>\<^verbatim>\<open>InitPtr\<close>: the loop of \<^verbatim>\<open>InitializeMyThreadSchedulePtr\<close>.
  \<^verbatim>\<open>SkipLoop\<close>: \<^verbatim>\<open>SkipNopScheduleNodes\<close>.
  \<^verbatim>\<open>SpinFragment\<close>: \<^verbatim>\<open>WaitForNextFragment\<close>.
  \<^verbatim>\<open>SpinBarrier\<close>: \<^verbatim>\<open>WaitAtRegionBarrier\<close> with the old ticker.
  \<^verbatim>\<open>AfterBarrier\<close>: the end of \<^verbatim>\<open>RegionBarrier\<close>.
  \<^verbatim>\<open>FragLoop\<close>: \<^verbatim>\<open>AdvanceToNextFragmentIfComplete\<close>.
  \<^verbatim>\<open>NodeBody\<close>: \<^verbatim>\<open>WaitForHbNode\<close> after that call, with whether the caller expects input.
  \<^verbatim>\<open>EdgeLoop\<close>: its loop over the incoming edges, with the number of edges left.
  \<^verbatim>\<open>Ret\<close>: a return value. \<^verbatim>\<open>AssertOk\<close>: \<^verbatim>\<open>assert(ok)\<close> in
  \<^verbatim>\<open>WaitForHbNodeMustExist\<close>, and \<^verbatim>\<open>SleepLoop\<close> its loop before.
  \<^verbatim>\<open>AdvanceClock\<close>: a call of \<^verbatim>\<open>AdvanceHbNode\<close>.
  \<^verbatim>\<open>MarkerTail\<close>: the end of \<^verbatim>\<open>klee_ics_region_marker\<close>.
  \<^verbatim>\<open>ExitLoop\<close>: \<^verbatim>\<open>SkipRegionBarriersOrExit\<close>.\<close>

datatype 'k frame =
    InitPtr | SkipLoop | SpinFragment | SpinBarrier u64 | AfterBarrier | FragLoop
  | NodeBody bool | EdgeLoop nat | Ret bool | AssertOk | SleepLoop | AdvanceClock | MarkerTail | ExitLoop
  | Client 'k

text \<open>Thread-local data. The schedule pointer is an array and an index into it.\<close>

record 'k tls =
  MyThreadJustStarted :: bool
  MyThreadCurrScheduleFragment :: nat
  callstk :: callstack
  MyThreadSchedule :: "u16 list"
  MyThreadSchedulePtr :: nat
  retval :: bool
  inputVal :: nat
  frames :: "'k frame list"

record 'k rt =
  CurrFragmentList :: "nat \<rightharpoonup> HBSchedule"
  CurrFragmentId :: nat
  VectorClock :: "nat \<Rightarrow> u32"
  ThreadContexts :: "nat \<Rightarrow> bool"
  LogicalThreadMap :: "nat \<Rightarrow> nat"
  NumThreadsRunningInRegion :: u32
  NumThreadsTotal :: u32
  RegionTicker :: u64
  NextWaitSlot :: u32
  LogReadIndex :: nat
  stackvars :: "nat \<Rightarrow> nat \<Rightarrow> nat \<Rightarrow> nat \<Rightarrow> nat"
  snapshotBuffer :: "nat \<Rightarrow> 8 word"
  threads :: "nat \<rightharpoonup> 'k tls"

text \<open>Generated code and tables. \<^verbatim>\<open>stackvars\<close> is indexed by width, buffer, thread and object.\<close>

record ('k, 'z) rtenv =
  schedule_selectors :: "nat \<Rightarrow> ('k, 'z) rt_scheme \<Rightarrow> HBSchedule option"
  snapshot_functions :: "nat \<Rightarrow> 8 word list \<Rightarrow> ('k, 'z) rt_scheme \<Rightarrow> nat \<Rightarrow> 8 word"
  regionctx_table :: "u64 list option list"
  callctx_table :: "u64 list"
  stackvars_sizes :: "nat \<Rightarrow> nat \<Rightarrow> nat"

definition LogCurrIndex :: nat where "LogCurrIndex = 0"

definition LogSnapshotIndex :: nat where "LogSnapshotIndex = 1"

subsection \<open>Accessing the thread's schedule\<close>

definition set_tls :: "nat \<Rightarrow> 'k tls \<Rightarrow> ('k, 'z) rt_scheme \<Rightarrow> ('k, 'z) rt_scheme" where
  "set_tls t l s = s\<lparr> threads := (threads s)(t \<mapsto> l) \<rparr>"

definition MyThreadCurrSchedule :: "'k tls \<Rightarrow> ('k, 'z) rt_scheme \<Rightarrow> HBSchedule option" where
  "MyThreadCurrSchedule l s = CurrFragmentList s (MyThreadCurrScheduleFragment l)"

text \<open>Reading the word \<^verbatim>\<open>n\<close> places after the schedule pointer.\<close>

definition sched_word :: "nat \<Rightarrow> 'k tls \<Rightarrow> u16 option" where
  "sched_word n l =
     (let i = MyThreadSchedulePtr l + n in
      if i < length (MyThreadSchedule l) then Some (MyThreadSchedule l ! i) else None)"

definition IsFragmentComplete :: "'k tls \<Rightarrow> bool option" where
  "IsFragmentComplete l = map_option (\<lambda>w. w = EndFragmentSentinal) (sched_word 0 l)"

definition IsScheduleComplete :: "'k tls \<Rightarrow> bool option" where
  "IsScheduleComplete l = map_option (\<lambda>w. w = 0) (sched_word 0 l)"

definition AdvanceHbNode :: "nat \<Rightarrow> ('k, 'z) rt_scheme \<Rightarrow> ('k, 'z) rt_scheme" where
  "AdvanceHbNode t s = s\<lparr> VectorClock := (VectorClock s)(t := VectorClock s t + 1) \<rparr>"

subsection \<open>Regions\<close>

text \<open>The current contexts of the registered threads, in the order of their identifiers.\<close>

fun gather_contexts :: "nat list \<Rightarrow> ('k, 'z) rt_scheme \<Rightarrow> (u64 \<times> nat) list option" where
  "gather_contexts [] s = Some []"
| "gather_contexts (k # ks) s =
     (if ThreadContexts s k then do {
        l \<leftarrow> threads s k;
        v \<leftarrow> ctx_read (callstk l);
        rest \<leftarrow> gather_contexts ks s;
        Some ((v, k) # rest)
      }
      else gather_contexts ks s)"

definition SnapshotStackVars :: "('k, 'z) rtenv \<Rightarrow> ('k, 'z) rt_scheme \<Rightarrow> ('k, 'z) rt_scheme" where
  "SnapshotStackVars env s =
     s\<lparr> stackvars := (\<lambda>bits buf k oid.
          if buf = LogSnapshotIndex \<and> k < unat (NumThreadsTotal s) \<and> oid < stackvars_sizes env bits k
          then stackvars s bits LogCurrIndex k oid else stackvars s bits buf k oid) \<rparr>"

definition ReleaseRegionBarrier :: "('k, 'z) rt_scheme \<Rightarrow> ('k, 'z) rt_scheme" where
  "ReleaseRegionBarrier s =
     s\<lparr> NumThreadsRunningInRegion := NumThreadsTotal s, VectorClock := (\<lambda>_. 0), RegionTicker := RegionTicker s + 1 \<rparr>"

text \<open>The part of \<^verbatim>\<open>RegionBarrier\<close> that the last thread to arrive executes.\<close>

definition StartNextRegion :: "('k, 'z) rtenv \<Rightarrow> ('k, 'z) rt_scheme \<Rightarrow> ('k, 'z) rt_scheme option" where
  "StartNextRegion env s = do {
     let s = s\<lparr> LogReadIndex := LogCurrIndex \<rparr>;
     cur \<leftarrow> gather_contexts [0..<KLEE_MAX_THREADS] s;
     (rid, L) \<leftarrow> GetNextRegionId (regionctx_table env) cur (LogicalThreadMap s);
     let s = s\<lparr> LogicalThreadMap := L \<rparr>;
     let s = s\<lparr> snapshotBuffer := snapshot_functions env rid [] s, CurrFragmentId := 0 \<rparr>;
     h \<leftarrow> schedule_selectors env rid s;
     let s = s\<lparr> CurrFragmentList := (CurrFragmentList s)(0 \<mapsto> h) \<rparr>;
     let s = (if nextScheduleSelectorId h \<noteq> 0
              then (SnapshotStackVars env s)\<lparr> LogReadIndex := LogSnapshotIndex \<rparr> else s);
     Some (ReleaseRegionBarrier s)
   }"

text \<open>A call of \<^verbatim>\<open>RegionBarrier\<close> by a thread that continues with the frames
  \<^verbatim>\<open>fs\<close> afterwards.\<close>

definition RegionBarrier ::
  "('k, 'z) rtenv \<Rightarrow> nat \<Rightarrow> 'k frame list \<Rightarrow> ('k, 'z) rt_scheme \<Rightarrow> ('k, 'z) rt_scheme option" where
  "RegionBarrier env t fs s = do {
     l \<leftarrow> threads s t;
     h \<leftarrow> MyThreadCurrSchedule l s;
     assert_opt (exitsProgramFlag h = 0);
     let oldticker = RegionTicker s;
     let left = NumThreadsRunningInRegion s - 1;
     let s = s\<lparr> NumThreadsRunningInRegion := left \<rparr>;
     if left = 0 then map_option (set_tls t (l\<lparr> frames := AfterBarrier # fs \<rparr>)) (StartNextRegion env s)
     else Some (set_tls t (l\<lparr> frames := SpinBarrier oldticker # AfterBarrier # fs \<rparr>) s)
   }"

subsection \<open>Fragments\<close>

definition MAX_FRAGMENTS :: nat where "MAX_FRAGMENTS = 32"

text \<open>A call of \<^verbatim>\<open>AdvanceToNextFragment\<close>: the leader of the fragment selects the next
  one and publishes it with a compare-and-swap, the other threads wait for it.\<close>

definition AdvanceToNextFragment ::
  "('k, 'z) rtenv \<Rightarrow> nat \<Rightarrow> 'k frame list \<Rightarrow> ('k, 'z) rt_scheme \<Rightarrow> ('k, 'z) rt_scheme option" where
  "AdvanceToNextFragment env t fs s = do {
     l \<leftarrow> threads s t;
     oldSchedule \<leftarrow> MyThreadCurrSchedule l s;
     let oldFragment = MyThreadCurrScheduleFragment l;
     let l = l\<lparr> MyThreadCurrScheduleFragment := oldFragment + 1 \<rparr>;
     if unat (nextThreadLeaderId oldSchedule) = t then do {
       let s = set_tls t (l\<lparr> frames := InitPtr # fs \<rparr>) s;
       h \<leftarrow> schedule_selectors env (unat (nextScheduleSelectorId oldSchedule)) s;
       assert_opt (oldFragment + 1 < MAX_FRAGMENTS);
       let s = s\<lparr> CurrFragmentList := (CurrFragmentList s)(oldFragment + 1 \<mapsto> h) \<rparr>;
       assert_opt (CurrFragmentId s = oldFragment);
       Some (s\<lparr> CurrFragmentId := oldFragment + 1 \<rparr>)
     }
     else Some (set_tls t (l\<lparr> frames := SpinFragment # InitPtr # fs \<rparr>) s)
   }"

text \<open>One iteration of the loop of \<^verbatim>\<open>InitializeMyThreadSchedulePtr\<close>, or its end.\<close>

definition InitializeMyThreadSchedulePtr ::
  "('k, 'z) rtenv \<Rightarrow> nat \<Rightarrow> 'k frame list \<Rightarrow> ('k, 'z) rt_scheme \<Rightarrow> ('k, 'z) rt_scheme option" where
  "InitializeMyThreadSchedulePtr env t fs s = do {
     l \<leftarrow> threads s t;
     h \<leftarrow> MyThreadCurrSchedule l s;
     if t \<ge> unat (numThreads h) then
       if nextScheduleSelectorId h \<noteq> 0 then AdvanceToNextFragment env t (InitPtr # fs) s
       else do {
         assert_opt (MyThreadCurrScheduleFragment l \<noteq> 0);
         RegionBarrier env t (InitPtr # fs) s
       }
     else do {
       assert_opt (t < length (threadSchedules h));
       Some (set_tls t (l\<lparr> MyThreadSchedule := threadSchedules h ! t, MyThreadSchedulePtr := 0,
                           frames := SkipLoop # fs \<rparr>) s)
     }
   }"

subsection \<open>Waiting for a node\<close>

text \<open>What other threads and the proofs below can observe of a step: a skipped node, a node whose
  incoming edges are all satisfied, an advance of the clock, or nothing.\<close>

datatype event = Tau | Skipped | Entered | Advanced | Spawned nat nat

text \<open>\<^verbatim>\<open>WaitForHbNode\<close> after the current fragment has been brought up to date: checks
  whether the next node of the schedule is at the current program point, and starts to read it.\<close>

definition WaitForHbNode_body ::
  "('k, 'z) rtenv \<Rightarrow> bool \<Rightarrow> 'k tls \<Rightarrow> 'k frame list \<Rightarrow> 'k tls option" where
  "WaitForHbNode_body env expectingInput l fs = do {
     complete \<leftarrow> IsScheduleComplete l;
     if complete then Some (l\<lparr> frames := Ret False # fs \<rparr>)
     else do {
       raw \<leftarrow> sched_word 0 l;
       let ctxid = unat (raw AND NOT InputBufferFlagBit);
       here \<leftarrow> IsMyCurrentContextShortId (callctx_table env) ctxid (callstk l);
       if \<not> here then Some (l\<lparr> frames := Ret False # fs \<rparr>)
       else do {
         let nodeHasInput = (raw AND InputBufferFlagBit \<noteq> 0);
         if expectingInput \<noteq> nodeHasInput then Some (l\<lparr> frames := Ret False # fs \<rparr>)
         else do {
           let l = l\<lparr> MyThreadSchedulePtr := MyThreadSchedulePtr l + 1 \<rparr>;
           l \<leftarrow> (if expectingInput then do {
                    i \<leftarrow> sched_word 0 l;
                    Some (l\<lparr> inputVal := unat i, MyThreadSchedulePtr := MyThreadSchedulePtr l + 1 \<rparr>)
                  }
                  else Some l);
           numincoming \<leftarrow> sched_word 0 l;
           Some (l\<lparr> MyThreadSchedulePtr := MyThreadSchedulePtr l + 1, frames := EdgeLoop (unat numincoming) # fs \<rparr>)
         }
       }
     }
   }"

text \<open>One iteration of the loop over the incoming edges: the thread and timestamp are read, and the
  thread spins until the clock has reached the timestamp. The pointer moves only when it has.\<close>

definition WaitForHbNode_edge ::
  "('k, 'z) rt_scheme \<Rightarrow> 'k tls \<Rightarrow> nat \<Rightarrow> 'k frame list \<Rightarrow> 'k tls res" where
  "WaitForHbNode_edge s l n fs =
     (case (sched_word 0 l, sched_word 1 l) of
        (Some raw, Some timestamp) \<Rightarrow>
          if unat raw \<ge> KLEE_MAX_THREADS \<or> LogicalThreadMap s (unat raw) \<ge> KLEE_MAX_THREADS then Abort
          else if VectorClock s (LogicalThreadMap s (unat raw)) \<ge> ucast timestamp
          then Ok (l\<lparr> MyThreadSchedulePtr := MyThreadSchedulePtr l + 2, frames := EdgeLoop n # fs \<rparr>)
          else Spin
      | _ \<Rightarrow> Abort)"

text \<open>The calls of the source as lists of frames.\<close>

definition call_WaitForHbNode :: "bool \<Rightarrow> 'k frame list" where
  "call_WaitForHbNode expectingInput = [FragLoop, NodeBody expectingInput]"

definition call_WaitForHbNodeMustExist :: "bool \<Rightarrow> bool \<Rightarrow> 'k frame list" where
  "call_WaitForHbNodeMustExist canSleep expectingInput =
     (if canSleep then [SleepLoop] else []) @ call_WaitForHbNode expectingInput @ [AssertOk]"

definition call_DoOneSyncOpMustExist :: "bool \<Rightarrow> bool \<Rightarrow> 'k frame list" where
  "call_DoOneSyncOpMustExist canSleep expectingInput =
     call_WaitForHbNodeMustExist canSleep expectingInput @ [AdvanceClock]"

definition call_region_marker :: "'k frame list" where
  "call_region_marker = call_DoOneSyncOpMustExist False False @ [FragLoop, MarkerTail]"

subsection \<open>One step of a thread\<close>

definition rt_step ::
  "('k, 'z) rtenv \<Rightarrow> nat \<Rightarrow> ('k, 'z) rt_scheme \<Rightarrow> (event \<times> ('k, 'z) rt_scheme) res" where
  "rt_step env t s =
     (case threads s t of
        None \<Rightarrow> Abort
      | Some l \<Rightarrow>
        (case frames l of
           [] \<Rightarrow> Abort
         | f # fs \<Rightarrow>
           (let tau = (\<lambda>x. res_of (map_option (Pair Tau) x));
                goto = (\<lambda>gs. Ok (Tau, set_tls t (l\<lparr> frames := gs \<rparr>) s))
            in case f of
              InitPtr \<Rightarrow> tau (InitializeMyThreadSchedulePtr env t fs s)
            | SkipLoop \<Rightarrow>
                (case sched_word 0 l of
                   None \<Rightarrow> Abort
                 | Some w \<Rightarrow>
                     if w = SkipHbNodeFlag
                     then Ok (Skipped, AdvanceHbNode t
                            (set_tls t (l\<lparr> MyThreadSchedulePtr := MyThreadSchedulePtr l + 1 \<rparr>) s))
                     else goto fs)
            | SpinFragment \<Rightarrow> if CurrFragmentId s \<ge> MyThreadCurrScheduleFragment l then goto fs else Spin
            | SpinBarrier oldticker \<Rightarrow> if RegionTicker s \<noteq> oldticker then goto fs else Spin
            | AfterBarrier \<Rightarrow>
                Ok (Tau, set_tls t (l\<lparr> MyThreadCurrScheduleFragment := 0, frames := InitPtr # fs \<rparr>) s)
            | FragLoop \<Rightarrow>
                (case IsFragmentComplete l of
                   None \<Rightarrow> Abort
                 | Some b \<Rightarrow> if b then tau (AdvanceToNextFragment env t (FragLoop # fs) s) else goto fs)
            | NodeBody e \<Rightarrow> tau (map_option (\<lambda>l. set_tls t l s) (WaitForHbNode_body env e l fs))
            | EdgeLoop n \<Rightarrow>
                (case n of
                   0 \<Rightarrow> Ok (Entered, set_tls t (l\<lparr> frames := SkipLoop # Ret True # fs \<rparr>) s)
                 | Suc n \<Rightarrow>
                     (case WaitForHbNode_edge s l n fs of
                        Ok l \<Rightarrow> Ok (Tau, set_tls t l s) | Spin \<Rightarrow> Spin | Abort \<Rightarrow> Abort))
            | Ret b \<Rightarrow> Ok (Tau, set_tls t (l\<lparr> retval := b, frames := fs \<rparr>) s)
            | AssertOk \<Rightarrow> if retval l then goto fs else Abort
            | SleepLoop \<Rightarrow>
                (case IsScheduleComplete l of
                   None \<Rightarrow> Abort
                 | Some b \<Rightarrow> if b then tau (RegionBarrier env t (SleepLoop # fs) s) else goto fs)
            | AdvanceClock \<Rightarrow> Ok (Advanced, AdvanceHbNode t (set_tls t (l\<lparr> frames := fs \<rparr>) s))
            | MarkerTail \<Rightarrow>
                (case (IsScheduleComplete l, MyThreadCurrSchedule l s) of
                   (Some b, Some h) \<Rightarrow>
                     if b \<and> exitsProgramFlag h = 0 then tau (RegionBarrier env t fs s) else goto fs
                 | _ \<Rightarrow> Abort)
            | ExitLoop \<Rightarrow>
                (case (IsScheduleComplete l, MyThreadCurrSchedule l s) of
                   (Some b, Some h) \<Rightarrow>
                     if \<not> b then goto (Ret False # fs)
                     else if exitsProgramFlag h \<noteq> 0 then goto (Ret True # fs)
                     else tau (RegionBarrier env t (ExitLoop # fs) s)
                 | _ \<Rightarrow> Abort)
            | Client k \<Rightarrow> Abort)))"

subsection \<open>Starting\<close>

definition thread_start :: "nat \<Rightarrow> 'k tls" where
  "thread_start frag = \<lparr> MyThreadJustStarted = True, MyThreadCurrScheduleFragment = frag, callstk = callstack_init,
     MyThreadSchedule = [], MyThreadSchedulePtr = 0, retval = False, inputVal = 0, frames = [InitPtr] \<rparr>"

text \<open>\<^verbatim>\<open>klee_ics_initialize\<close> up to \<^verbatim>\<open>InitializeMyThreadSchedulePtr\<close>, which
  is the frame of the first thread.\<close>

definition klee_ics_initialize :: "HBSchedule \<Rightarrow> 'k rt" where
  "klee_ics_initialize h =
     \<lparr> CurrFragmentList = [0 \<mapsto> h], CurrFragmentId = 0, VectorClock = (\<lambda>_. 0),
       ThreadContexts = (\<lambda>k. k = 0), LogicalThreadMap = (\<lambda>k. k), NumThreadsRunningInRegion = 1, NumThreadsTotal = 1,
       RegionTicker = 0, NextWaitSlot = 1, LogReadIndex = 1, stackvars = (\<lambda>_ _ _ _. 0), snapshotBuffer = (\<lambda>_. 0),
       threads = [0 \<mapsto> thread_start 0] \<rparr>"

end
