(* ===== verification/Runtime_Safety.thy ===== *)
theory Runtime_Safety
  imports Runtime
begin

text \<open>
  What the scheduling core guarantees within one region, for any program that calls it and any
  interleaving of the threads: the nodes that have been passed are always closed under the edges of the
  schedule, and threads that wait for edges do not wait for each other in a cycle.
\<close>

subsection \<open>Runs of a region\<close>

text \<open>A call frame is one that the program may push; the body of \<^verbatim>\<open>WaitForHbNode\<close> is only
  entered through its first line.\<close>

fun simple :: "'k frame \<Rightarrow> bool" where
  "simple FragLoop = True"
| "simple (Ret b) = True"
| "simple AssertOk = True"
| "simple SleepLoop = True"
| "simple AdvanceClock = True"
| "simple MarkerTail = True"
| "simple ExitLoop = True"
| "simple (Client k) = True"
| "simple _ = False"

fun calls_from :: "bool \<Rightarrow> 'k frame list \<Rightarrow> bool" where
  "calls_from b [] = True"
| "calls_from b (f # fs) = ((simple f \<or> b \<and> (\<exists>e. f = NodeBody e)) \<and> calls_from (f = FragLoop) fs)"

abbreviation calls :: "'k frame list \<Rightarrow> bool" where
  "calls \<equiv> calls_from False"

definition at_client :: "'k tls \<Rightarrow> bool" where
  "at_client l \<longleftrightarrow> (case frames l of [] \<Rightarrow> True | Client k # fs \<Rightarrow> True | _ \<Rightarrow> False)"

text \<open>What the program may not touch.\<close>

definition same_sched :: "('k, 'z) rt_scheme \<Rightarrow> ('k, 'z) rt_scheme \<Rightarrow> bool" where
  "same_sched s s' \<longleftrightarrow>
     CurrFragmentList s' = CurrFragmentList s \<and> CurrFragmentId s' = CurrFragmentId s \<and>
     VectorClock s' = VectorClock s \<and> LogicalThreadMap s' = LogicalThreadMap s \<and> RegionTicker s' = RegionTicker s"

text \<open>A step of the system: a thread runs inside the runtime; or the program continues, which may
  change the calling context of its thread, call the runtime, and change anything that is not the
  runtime's; or it creates a thread.\<close>

inductive rstep ::
  "('k, 'z) rtenv \<Rightarrow> ('k, 'z) rt_scheme \<Rightarrow> nat \<times> event \<Rightarrow> ('k, 'z) rt_scheme \<Rightarrow> bool"
  for env where
  run: "rt_step env t s = Ok (ev, s') \<Longrightarrow> rstep env s (t, ev) s'"
| client: "threads s t = Some l \<Longrightarrow> at_client l \<Longrightarrow> calls gs \<Longrightarrow>
     threads s' = (threads s)(t \<mapsto> l\<lparr> callstk := stk, MyThreadJustStarted := b, frames := gs @ tl (frames l) \<rparr>) \<Longrightarrow>
     same_sched s s' \<Longrightarrow> rstep env s (t, Tau) s'"
| spawn: "threads s t = Some l \<Longrightarrow> at_client l \<Longrightarrow> threads s u = None \<Longrightarrow> f \<le> CurrFragmentId s \<Longrightarrow>
     threads s' = (threads s)(t \<mapsto> l\<lparr> frames := tl (frames l) \<rparr>, u \<mapsto> thread_start f) \<Longrightarrow>
     same_sched s s' \<Longrightarrow> rstep env s (t, Spawned u f) s'"

inductive_cases rstepE: "rstep env s e s'"

inductive region_run ::
  "('k, 'z) rtenv \<Rightarrow> ('k, 'z) rt_scheme \<Rightarrow> (nat \<times> event) list \<Rightarrow> ('k, 'z) rt_scheme \<Rightarrow> bool"
  for env s0 where
  nil: "region_run env s0 [] s0"
| snoc: "region_run env s0 es s \<Longrightarrow> rstep env s e s' \<Longrightarrow> RegionTicker s' = RegionTicker s \<Longrightarrow>
     region_run env s0 (es @ [e]) s'"

text \<open>How many nodes a thread has passed, and how often its clock has advanced.\<close>

definition passed :: "(nat \<times> event) list \<Rightarrow> nat \<Rightarrow> nat" where
  "passed es t = count_list es (t, Skipped) + count_list es (t, Entered)"

definition clocked :: "(nat \<times> event) list \<Rightarrow> nat \<Rightarrow> nat" where
  "clocked es t = count_list es (t, Skipped) + count_list es (t, Advanced)"

text \<open>The first state of a region: all clocks are 0, every thread has been released from the barrier
  or is the initial thread, and logical and actual threads coincide.\<close>

inductive fresh_thread :: "('k, 'z) rt_scheme \<Rightarrow> 'k tls \<Rightarrow> bool" where
  released: "frames l = SpinBarrier old # AfterBarrier # fs \<Longrightarrow> old \<noteq> RegionTicker s \<Longrightarrow> calls fs \<Longrightarrow> fresh_thread s l"
| leader: "frames l = AfterBarrier # fs \<Longrightarrow> calls fs \<Longrightarrow> fresh_thread s l"
| initial: "frames l = InitPtr # fs \<Longrightarrow> MyThreadCurrScheduleFragment l = 0 \<Longrightarrow> calls fs \<Longrightarrow> fresh_thread s l"

definition region_start :: "nat \<Rightarrow> ('k, 'z) rt_scheme \<Rightarrow> bool" where
  "region_start N s \<longleftrightarrow> CurrFragmentId s = 0 \<and> (\<forall>t. VectorClock s t = 0) \<and> (\<forall>t < N. LogicalThreadMap s t = t) \<and>
     (\<forall>t l. threads s t = Some l \<longrightarrow> t < N \<and> fresh_thread s l)"

subsection \<open>What a step changes\<close>

lemma StartNextRegion_ticker:
  "StartNextRegion env s = Some s' \<Longrightarrow> RegionTicker s' = RegionTicker s + 1"
  by (auto simp: StartNextRegion_def ReleaseRegionBarrier_def SnapshotStackVars_def Let_def split: if_splits)

text \<open>What a step leaves unchanged or only extends, as seen by the other threads.\<close>

definition extends :: "nat \<Rightarrow> ('k, 'z) rt_scheme \<Rightarrow> ('k, 'z) rt_scheme \<Rightarrow> bool" where
  "extends t s s' \<longleftrightarrow> CurrFragmentId s \<le> CurrFragmentId s' \<and>
     (\<forall>k \<le> CurrFragmentId s. CurrFragmentList s' k = CurrFragmentList s k) \<and>
     LogicalThreadMap s' = LogicalThreadMap s \<and> RegionTicker s' = RegionTicker s \<and>
     (\<forall>u. u \<noteq> t \<longrightarrow> threads s' u = threads s u)"

lemma RegionBarrier_same:
  assumes "RegionBarrier env t fs s = Some s'" "RegionTicker s' = RegionTicker s" "threads s t = Some l"
  shows "threads s' t = Some (l\<lparr> frames := SpinBarrier (RegionTicker s) # AfterBarrier # fs \<rparr>) \<and>
    extends t s s' \<and> VectorClock s' = VectorClock s \<and> CurrFragmentId s' = CurrFragmentId s"
proof -
  have "RegionTicker s'' \<noteq> RegionTicker s" if "StartNextRegion env (s\<lparr> NumThreadsRunningInRegion := n \<rparr>) = Some s''" for s'' n
    using StartNextRegion_ticker [OF that] by simp
  then show ?thesis
    using assms by (fastforce simp: RegionBarrier_def set_tls_def extends_def Let_def split: if_splits)
qed

lemma AdvanceToNextFragment_spec:
  assumes "AdvanceToNextFragment env t fs s = Some s'" "threads s t = Some l"
  shows "(threads s' t = Some (l\<lparr> MyThreadCurrScheduleFragment := MyThreadCurrScheduleFragment l + 1, frames := InitPtr # fs \<rparr>) \<and>
       CurrFragmentId s' = MyThreadCurrScheduleFragment l + 1 \<or>
     threads s' t = Some (l\<lparr> MyThreadCurrScheduleFragment := MyThreadCurrScheduleFragment l + 1,
       frames := SpinFragment # InitPtr # fs \<rparr>)) \<and>
    extends t s s' \<and> VectorClock s' = VectorClock s"
  using assms by (auto simp: AdvanceToNextFragment_def set_tls_def extends_def Let_def split: if_splits)

lemma extends_set_tls [simp]: "extends t s (set_tls t l s)"
  by (simp add: extends_def set_tls_def)

lemma extends_AdvanceHbNode [simp]: "extends t s (AdvanceHbNode t s') = extends t s s'"
  by (simp add: extends_def AdvanceHbNode_def)

lemma set_tls_sel [simp]:
  "threads (set_tls t l s) = (threads s)(t \<mapsto> l)" "VectorClock (set_tls t l s) = VectorClock s"
  "CurrFragmentId (set_tls t l s) = CurrFragmentId s" "RegionTicker (set_tls t l s) = RegionTicker s"
  "CurrFragmentList (set_tls t l s) = CurrFragmentList s" "LogicalThreadMap (set_tls t l s) = LogicalThreadMap s"
  by (simp_all add: set_tls_def)

lemma AdvanceHbNode_sel [simp]:
  "threads (AdvanceHbNode t s) = threads s" "VectorClock (AdvanceHbNode t s) = (VectorClock s)(t := VectorClock s t + 1)"
  "CurrFragmentId (AdvanceHbNode t s) = CurrFragmentId s" "RegionTicker (AdvanceHbNode t s) = RegionTicker s"
  "CurrFragmentList (AdvanceHbNode t s) = CurrFragmentList s" "LogicalThreadMap (AdvanceHbNode t s) = LogicalThreadMap s"
  by (simp_all add: AdvanceHbNode_def)

lemma res_of_Ok [simp]: "res_of x = Ok y \<longleftrightarrow> x = Some y"
  by (auto simp: res_of_def split: option.splits)

lemma map_Pair_Some [simp]: "map_option (Pair a) x = Some (b, y) \<longleftrightarrow> a = b \<and> x = Some y"
  by (cases x) auto

subsection \<open>Schedule arrays\<close>

definition enc :: "sched_item list \<Rightarrow> u16 list" where
  "enc items = concat (map encode_item items)"

lemma enc_append [simp]: "enc (xs @ ys) = enc xs @ enc ys" "enc [] = []" "enc (x # xs) = encode_item x @ enc xs"
  by (simp_all add: enc_def)

lemma sched_word_drop:
  "sched_word n l = (if n < length (drop (MyThreadSchedulePtr l) (MyThreadSchedule l))
     then Some (drop (MyThreadSchedulePtr l) (MyThreadSchedule l) ! n) else None)"
  by (auto simp: sched_word_def Let_def)

text \<open>The thread has read the items before index \<^verbatim>\<open>m\<close>.\<close>

definition at_item :: "sched_item list \<Rightarrow> u16 \<Rightarrow> nat \<Rightarrow> 'k tls \<Rightarrow> bool" where
  "at_item items trm m l \<longleftrightarrow> m \<le> length items \<and> MyThreadSchedule l = enc items @ [trm] \<and>
     MyThreadSchedulePtr l = length (enc (take m items))"

lemma at_item_rest:
  assumes "at_item items trm m l"
  shows "drop (MyThreadSchedulePtr l) (MyThreadSchedule l) = enc (drop m items) @ [trm]"
proof -
  have "enc items = enc (take m items) @ enc (drop m items)" by (metis append_take_drop_id enc_append(1))
  then show ?thesis using assms by (simp add: at_item_def)
qed

lemma at_item_word:
  assumes "at_item items trm m l"
  shows "sched_word 0 l = Some (if m < length items then hd (encode_item (items ! m)) else trm)"
proof (cases "m < length items")
  case True
  have "encode_item (items ! m) \<noteq> []" by (cases "items ! m") auto
  then show ?thesis
    using True Cons_nth_drop_Suc [OF True, symmetric] unfolding sched_word_drop at_item_rest [OF assms]
    by (simp add: hd_conv_nth nth_append)
next
  case False
  then have "m = length items" using assms by (simp add: at_item_def)
  then show ?thesis unfolding sched_word_drop at_item_rest [OF assms] by simp
qed

lemma item_word_cases:
  assumes "item_fits it"
  shows "hd (encode_item it) \<noteq> 0" "hd (encode_item it) \<noteq> EndFragmentSentinal"
    "hd (encode_item it) = SkipHbNodeFlag \<longleftrightarrow> it = SkipNode"
proof -
  show "hd (encode_item it) \<noteq> 0" "hd (encode_item it) \<noteq> EndFragmentSentinal"
    using encode_item_head [OF assms] by auto
  show "hd (encode_item it) = SkipHbNodeFlag \<longleftrightarrow> it = SkipNode"
  proof (cases it)
    case (SyncNode c inp es)
    then show ?thesis using assms by (cases inp) (auto simp: ctx_words)
  qed simp
qed

subsection \<open>The invariant of a thread\<close>

text \<open>Thread \<^verbatim>\<open>t\<close> follows the items \<^verbatim>\<open>stream k t\<close> in fragment
  \<^verbatim>\<open>k\<close>; the array is closed by \<^verbatim>\<open>trm k\<close>. \<^verbatim>\<open>before\<close> counts the items of the
  fragments before the given one, and \<^verbatim>\<open>items_upto\<close> lists them.\<close>

type_synonym streams = "nat \<Rightarrow> nat \<Rightarrow> sched_item list"

definition items_upto :: "streams \<Rightarrow> nat \<Rightarrow> nat \<Rightarrow> sched_item list" where
  "items_upto stream t f = concat (map (\<lambda>k. stream k t) [0..<f])"

definition before :: "streams \<Rightarrow> nat \<Rightarrow> nat \<Rightarrow> nat" where
  "before stream t f = length (items_upto stream t f)"

definition satisfied :: "(nat \<Rightarrow> nat) \<Rightarrow> (nat \<times> nat) list \<Rightarrow> bool" where
  "satisfied clk es \<longleftrightarrow> (\<forall>(u, ts) \<in> set es. ts \<le> clk u)"

text \<open>At a node boundary, and not in front of a node to be skipped.\<close>

definition ready :: "streams \<Rightarrow> (nat \<Rightarrow> u16) \<Rightarrow> nat \<Rightarrow> nat \<Rightarrow> 'k tls \<Rightarrow> nat \<Rightarrow> bool" where
  "ready stream trm fid t l c \<longleftrightarrow>
     (let f = MyThreadCurrScheduleFragment l; items = stream f t in
      f \<le> fid \<and> (\<exists>m. at_item items (trm f) m l \<and> c = before stream t f + m \<and>
        (m < length items \<longrightarrow> items ! m \<noteq> SkipNode)))"

definition skipping :: "streams \<Rightarrow> (nat \<Rightarrow> u16) \<Rightarrow> nat \<Rightarrow> nat \<Rightarrow> 'k tls \<Rightarrow> nat \<Rightarrow> bool" where
  "skipping stream trm fid t l c \<longleftrightarrow>
     (let f = MyThreadCurrScheduleFragment l; items = stream f t in
      f \<le> fid \<and> (\<exists>m. at_item items (trm f) m l \<and> c = before stream t f + m))"

definition edge_enc :: "(nat \<times> nat) list \<Rightarrow> u16 list" where
  "edge_enc es = concat (map (\<lambda>(t, k). [int16 t, int16 k]) es)"

text \<open>Inside a node, with the edges \<^verbatim>\<open>es2\<close> still to be waited for.\<close>

definition in_edges :: "streams \<Rightarrow> (nat \<Rightarrow> u16) \<Rightarrow> nat \<Rightarrow> (nat \<Rightarrow> nat) \<Rightarrow> nat \<Rightarrow> 'k tls \<Rightarrow> nat \<Rightarrow> nat \<Rightarrow> bool" where
  "in_edges stream trm fid clk t l n c \<longleftrightarrow>
     (let f = MyThreadCurrScheduleFragment l; items = stream f t in
      f \<le> fid \<and>
      (\<exists>m ctx inp es1 es2. m < length items \<and> items ! m = SyncNode ctx inp (es1 @ es2) \<and> length es2 = n \<and>
         c = before stream t f + m \<and> satisfied clk es1 \<and>
         MyThreadSchedule l = enc items @ [trm f] \<and> MyThreadSchedulePtr l \<le> length (MyThreadSchedule l) \<and>
         drop (MyThreadSchedulePtr l) (MyThreadSchedule l) =
           edge_enc es2 @ enc (drop (Suc m) items) @ [trm f]))"

lemma in_edgesI:
  assumes "f = MyThreadCurrScheduleFragment l" "f \<le> fid" "m < length (stream f t)"
    "stream f t ! m = SyncNode ctx inp (es1 @ es2)" "length es2 = n" "c = before stream t f + m" "satisfied clk es1"
    "MyThreadSchedule l = enc (stream f t) @ [trm f]" "MyThreadSchedulePtr l \<le> length (MyThreadSchedule l)"
    "drop (MyThreadSchedulePtr l) (MyThreadSchedule l) = edge_enc es2 @ enc (drop (Suc m) (stream f t)) @ [trm f]"
  shows "in_edges stream trm fid clk t l n c"
  unfolding in_edges_def Let_def using assms by blast

inductive T_inv ::
  "streams \<Rightarrow> (nat \<Rightarrow> u16) \<Rightarrow> nat \<Rightarrow> u64 \<Rightarrow> (nat \<Rightarrow> nat) \<Rightarrow> nat \<Rightarrow> 'k tls \<Rightarrow> nat \<Rightarrow> bool"
  for stream trm fid ticker clk t l where
  released: "frames l = SpinBarrier old # AfterBarrier # fs \<Longrightarrow> old \<noteq> ticker \<Longrightarrow> calls fs \<Longrightarrow>
    T_inv stream trm fid ticker clk t l 0"
| parked: "frames l = SpinBarrier ticker # AfterBarrier # fs \<Longrightarrow> calls fs \<Longrightarrow> ready stream trm fid t l c \<Longrightarrow>
    sched_word 0 l = Some 0 \<Longrightarrow> T_inv stream trm fid ticker clk t l c"
| after: "frames l = AfterBarrier # fs \<Longrightarrow> calls fs \<Longrightarrow> T_inv stream trm fid ticker clk t l 0"
| init: "frames l = InitPtr # fs \<Longrightarrow> calls fs \<Longrightarrow> MyThreadCurrScheduleFragment l \<le> fid \<Longrightarrow>
    c = before stream t (MyThreadCurrScheduleFragment l) \<Longrightarrow> T_inv stream trm fid ticker clk t l c"
| spin: "frames l = SpinFragment # InitPtr # fs \<Longrightarrow> calls fs \<Longrightarrow>
    c = before stream t (MyThreadCurrScheduleFragment l) \<Longrightarrow> T_inv stream trm fid ticker clk t l c"
| skip: "frames l = SkipLoop # fs \<Longrightarrow> calls fs \<Longrightarrow> skipping stream trm fid t l c \<Longrightarrow> T_inv stream trm fid ticker clk t l c"
| edge: "frames l = EdgeLoop n # fs \<Longrightarrow> calls fs \<Longrightarrow> in_edges stream trm fid clk t l n c \<Longrightarrow>
    T_inv stream trm fid ticker clk t l c"
| body: "frames l = NodeBody e # fs \<Longrightarrow> calls fs \<Longrightarrow> ready stream trm fid t l c \<Longrightarrow>
    sched_word 0 l \<noteq> Some EndFragmentSentinal \<Longrightarrow> T_inv stream trm fid ticker clk t l c"
| other: "calls (frames l) \<Longrightarrow> ready stream trm fid t l c \<Longrightarrow> T_inv stream trm fid ticker clk t l c"

lemma before_Suc: "before stream t (Suc f) = before stream t f + length (stream f t)"
  by (simp add: before_def items_upto_def)

lemma before_0 [simp]: "before stream t 0 = 0"
  by (simp add: before_def items_upto_def)

lemma items_upto_nth:
  assumes "m < length (stream f t)" "f < n"
  shows "before stream t f + m < length (items_upto stream t n) \<and> items_upto stream t n ! (before stream t f + m) = stream f t ! m"
proof -
  have "[0..<n] = [0..<f] @ f # [Suc f..<n]"
    using assms(2) upt_add_eq_append [of 0 f "n - f"] by (simp add: upt_conv_Cons)
  then have "items_upto stream t n = items_upto stream t f @ stream f t @ concat (map (\<lambda>k. stream k t) [Suc f..<n])"
    by (simp add: items_upto_def)
  then show ?thesis using assms(1) by (simp add: before_def nth_append)
qed

lemma satisfied_mono: "satisfied clk es \<Longrightarrow> (\<And>u. clk u \<le> clk' u) \<Longrightarrow> satisfied clk' es"
  unfolding satisfied_def using order_trans by (auto split: prod.splits) blast

lemma T_inv_mono:
  assumes "T_inv stream trm fid ticker clk t l c" "fid \<le> fid'" "\<And>u. clk u \<le> clk' u"
  shows "T_inv stream trm fid' ticker clk' t l c"
proof -
  have r: "ready stream trm fid' t l c" if "ready stream trm fid t l c"
    using that assms(2) unfolding ready_def Let_def by auto
  have k: "skipping stream trm fid' t l c" if "skipping stream trm fid t l c"
    using that assms(2) unfolding skipping_def Let_def by auto
  have e: "in_edges stream trm fid' clk' t l n c" if "in_edges stream trm fid clk t l n c" for n
    using that assms(2) satisfied_mono [OF _ assms(3)] unfolding in_edges_def Let_def by fastforce
  have f: "MyThreadCurrScheduleFragment l \<le> fid \<Longrightarrow> MyThreadCurrScheduleFragment l \<le> fid'" using assms(2) by simp
  from assms(1) show ?thesis by cases (blast intro: T_inv.intros r k e f)+
qed

subsection \<open>A step keeps the invariant of its thread\<close>

definition edges_below :: "nat \<Rightarrow> sched_item \<Rightarrow> bool" where
  "edges_below N it = (case it of SkipNode \<Rightarrow> True | SyncNode ctx inp es \<Rightarrow> \<forall>(u, ts) \<in> set es. u < N)"

definition frags_ok :: "streams \<Rightarrow> (nat \<Rightarrow> u16) \<Rightarrow> nat \<Rightarrow> ('k, 'z) rt_scheme \<Rightarrow> bool" where
  "frags_ok stream trm N s \<longleftrightarrow>
     (\<forall>k \<le> CurrFragmentId s. trm k \<in> {0, EndFragmentSentinal} \<and>
        (\<exists>h. CurrFragmentList s k = Some h \<and>
           (\<forall>t < N. t < unat (numThreads h) \<and> threadSchedules h ! t = enc (stream k t) @ [trm k] \<and>
              (\<forall>it \<in> set (stream k t). item_fits it \<and> edges_below N it))))"

definition counts :: "event \<Rightarrow> nat" where
  "counts ev = (case ev of Skipped \<Rightarrow> 1 | Entered \<Rightarrow> 1 | _ \<Rightarrow> 0)"

definition clock_after :: "nat \<Rightarrow> event \<Rightarrow> (nat \<Rightarrow> u32) \<Rightarrow> nat \<Rightarrow> u32" where
  "clock_after t ev clk = (if ev = Skipped \<or> ev = Advanced then clk(t := clk t + 1) else clk)"

definition item_done :: "(nat \<Rightarrow> nat) \<Rightarrow> sched_item \<Rightarrow> bool" where
  "item_done clk it = (case it of SkipNode \<Rightarrow> True | SyncNode ctx inp es \<Rightarrow> satisfied clk es)"

text \<open>The node that a step passes, if it passes one, and that its edges are satisfied.\<close>

definition passes_ok :: "streams \<Rightarrow> nat \<Rightarrow> (nat \<Rightarrow> nat) \<Rightarrow> nat \<Rightarrow> event \<Rightarrow> nat \<Rightarrow> bool" where
  "passes_ok stream fid clk t ev c \<longleftrightarrow> counts ev = 0 \<or>
     (\<exists>f m. f \<le> fid \<and> m < length (stream f t) \<and> c = before stream t f + m \<and>
        item_done clk (stream f t ! m) \<and> (ev = Skipped \<longrightarrow> stream f t ! m = SkipNode))"

text \<open>The conclusion of the lemmas below: what thread \<^verbatim>\<open>t\<close> did from \<^verbatim>\<open>s\<close> to
  \<^verbatim>\<open>s'\<close>.\<close>

definition step_ok :: "streams \<Rightarrow> (nat \<Rightarrow> u16) \<Rightarrow> (nat \<Rightarrow> nat) \<Rightarrow> nat \<Rightarrow> nat \<Rightarrow>
    ('k, 'z) rt_scheme \<Rightarrow> event \<Rightarrow> ('k, 'z) rt_scheme \<Rightarrow> bool" where
  "step_ok stream trm clk t c s ev s' \<longleftrightarrow>
     (\<exists>l'. threads s' t = Some l' \<and> T_inv stream trm (CurrFragmentId s') (RegionTicker s') clk t l' (c + counts ev)) \<and>
     extends t s s' \<and> VectorClock s' = clock_after t ev (VectorClock s) \<and>
     passes_ok stream (CurrFragmentId s') clk t ev c"

lemma passes_ok_none [simp]: "counts ev = 0 \<Longrightarrow> passes_ok stream fid clk t ev c"
  by (simp add: passes_ok_def)

lemma passes_okI:
  "f \<le> fid \<Longrightarrow> m < length (stream f t) \<Longrightarrow> stream f t ! m = SkipNode \<or> (\<exists>ctx inp es. stream f t ! m = SyncNode ctx inp es \<and> ev \<noteq> Skipped \<and> satisfied clk es) \<Longrightarrow>
     passes_ok stream fid clk t ev (before stream t f + m)"
  unfolding passes_ok_def item_done_def by force

lemma counts_simps [simp]: "counts Tau = 0" "counts Advanced = 0" "counts (Spawned u f) = 0" "counts Skipped = 1" "counts Entered = 1"
  by (simp_all add: counts_def)

lemmas step_simps = step_ok_def clock_after_def

lemma ready_upd [simp]:
  "ready stream trm fid t (l\<lparr> frames := gs \<rparr>) c = ready stream trm fid t l c"
  "ready stream trm fid t (l\<lparr> retval := b \<rparr>) c = ready stream trm fid t l c"
  "skipping stream trm fid t (l\<lparr> frames := gs \<rparr>) c = skipping stream trm fid t l c"
  by (simp_all add: ready_def skipping_def at_item_def)

lemma sched_word_upd [simp]: "sched_word n (l\<lparr> frames := gs \<rparr>) = sched_word n l"
  by (simp add: sched_word_def Let_def)

lemma ready_skipping: "ready stream trm fid t l c \<Longrightarrow> skipping stream trm fid t l c"
  by (auto simp: ready_def skipping_def Let_def)

text \<open>Reaching a node boundary with the frames \<^verbatim>\<open>gs\<close>.\<close>

lemma step_ok_goto:
  assumes "calls gs" "ready stream trm (CurrFragmentId s) t l c" "gs = frames l'"
    "\<And>fid. ready stream trm fid t l' c = ready stream trm fid t l c"
  shows "step_ok stream trm clk t c s Tau (set_tls t l' s)"
  using assms T_inv.other [of l' stream trm "CurrFragmentId s" t c "RegionTicker s" clk] by (simp add: step_simps)

lemma frag_at:
  assumes "frags_ok stream trm N s" "k \<le> CurrFragmentId s" "t < N"
  obtains h where "CurrFragmentList s k = Some h" "t < unat (numThreads h)"
    "threadSchedules h ! t = enc (stream k t) @ [trm k]" "\<forall>it \<in> set (stream k t). item_fits it"
    "\<forall>it \<in> set (stream k t). edges_below N it" "trm k \<in> {0, EndFragmentSentinal}"
  using assms by (auto simp: frags_ok_def)

lemma step_init:
  assumes "rt_step env t s = Ok (ev, s')" "threads s t = Some l" "frames l = InitPtr # fs" "calls fs"
    "MyThreadCurrScheduleFragment l \<le> CurrFragmentId s" "frags_ok stream trm N s" "t < N"
  shows "step_ok stream trm clk t (before stream t (MyThreadCurrScheduleFragment l)) s ev s'"
proof -
  let ?f = "MyThreadCurrScheduleFragment l"
  obtain h where h: "CurrFragmentList s ?f = Some h" "t < unat (numThreads h)" "threadSchedules h ! t = enc (stream ?f t) @ [trm ?f]"
    using frag_at [OF assms(6,5,7)] by metis
  let ?l = "l\<lparr> MyThreadSchedule := enc (stream ?f t) @ [trm ?f], MyThreadSchedulePtr := 0, frames := SkipLoop # fs \<rparr>"
  have s': "ev = Tau" "s' = set_tls t ?l s"
    using assms(1-3) h by (auto simp: rt_step_def InitializeMyThreadSchedulePtr_def MyThreadCurrSchedule_def Let_def split: if_splits)
  have "skipping stream trm (CurrFragmentId s) t ?l (before stream t ?f)"
    using assms(5) by (auto simp: skipping_def Let_def at_item_def)
  then show ?thesis using assms(4) T_inv.skip [of ?l fs] by (simp add: s' step_simps)
qed

lemma step_skip:
  assumes "rt_step env t s = Ok (ev, s')" "threads s t = Some l" "frames l = SkipLoop # fs" "calls fs"
    "skipping stream trm (CurrFragmentId s) t l c" "frags_ok stream trm N s" "t < N"
  shows "step_ok stream trm clk t c s ev s'"
proof -
  let ?f = "MyThreadCurrScheduleFragment l" let ?items = "stream ?f t"
  obtain m where m: "?f \<le> CurrFragmentId s" "at_item ?items (trm ?f) m l" "c = before stream t ?f + m"
    using assms(5) by (auto simp: skipping_def Let_def)
  have fit: "\<forall>it \<in> set ?items. item_fits it" and trm: "trm ?f \<in> {0, EndFragmentSentinal}"
    using frag_at [OF assms(6) m(1) assms(7)] by metis+
  note w = at_item_word [OF m(2)]
  show ?thesis
  proof (cases "m < length ?items \<and> ?items ! m = SkipNode")
    case True
    let ?l = "l\<lparr> MyThreadSchedulePtr := MyThreadSchedulePtr l + 1 \<rparr>"
    have "ev = Skipped" "s' = AdvanceHbNode t (set_tls t ?l s)"
      using assms(1-3) w True by (auto simp: rt_step_def Let_def)
    moreover have "at_item ?items (trm ?f) (Suc m) ?l"
      using m(2) True by (simp add: at_item_def take_Suc_conv_app_nth)
    then have "skipping stream trm (CurrFragmentId s) t ?l (Suc c)"
      using m by (auto simp: skipping_def Let_def)
    ultimately show ?thesis
      using assms(3,4) T_inv.skip [of ?l fs stream trm "CurrFragmentId s" t "Suc c" "RegionTicker s" clk] True m
      by (auto simp: step_simps intro: passes_okI)
  next
    case False
    have "hd (encode_item (?items ! m)) \<noteq> SkipHbNodeFlag" if "m < length ?items"
      using False that fit item_word_cases(3) [of "?items ! m"] by auto
    then have "ev = Tau" "s' = set_tls t (l\<lparr> frames := fs \<rparr>) s"
      using assms(1-3) w False trm by (auto simp: rt_step_def Let_def flag_constants split: if_splits)
    moreover have "ready stream trm (CurrFragmentId s) t l c"
      using m False unfolding ready_def Let_def by blast
    ultimately show ?thesis using assms(4) step_ok_goto [of fs stream trm s t l c "l\<lparr> frames := fs \<rparr>" clk] by simp
  qed
qed

lemma ready_cases:
  assumes "ready stream trm (CurrFragmentId s) t l c" "frags_ok stream trm N s" "t < N"
  obtains (node) m ctx inp es where "at_item (stream (MyThreadCurrScheduleFragment l) t) (trm (MyThreadCurrScheduleFragment l)) m l"
      "m < length (stream (MyThreadCurrScheduleFragment l) t)" "stream (MyThreadCurrScheduleFragment l) t ! m = SyncNode ctx inp es"
      "c = before stream t (MyThreadCurrScheduleFragment l) + m" "item_fits (SyncNode ctx inp es)"
      "MyThreadCurrScheduleFragment l \<le> CurrFragmentId s"
      "sched_word 0 l \<noteq> Some 0" "sched_word 0 l \<noteq> Some EndFragmentSentinal"
  | (complete) "sched_word 0 l = Some 0" "c = before stream t (Suc (MyThreadCurrScheduleFragment l))"
      "MyThreadCurrScheduleFragment l \<le> CurrFragmentId s"
  | (fragment) "sched_word 0 l = Some EndFragmentSentinal" "c = before stream t (Suc (MyThreadCurrScheduleFragment l))"
      "MyThreadCurrScheduleFragment l \<le> CurrFragmentId s"
proof -
  let ?f = "MyThreadCurrScheduleFragment l" let ?items = "stream ?f t"
  obtain m where m: "?f \<le> CurrFragmentId s" "at_item ?items (trm ?f) m l" "c = before stream t ?f + m"
      "m < length ?items \<Longrightarrow> ?items ! m \<noteq> SkipNode"
    using assms(1) by (auto simp: ready_def Let_def)
  have fit: "\<forall>it \<in> set ?items. item_fits it" and trm: "trm ?f \<in> {0, EndFragmentSentinal}"
    using frag_at [OF assms(2) m(1) assms(3)] by metis+
  note w = at_item_word [OF m(2)]
  show ?thesis
  proof (cases "m < length ?items")
    case True
    then obtain ctx inp es where n: "?items ! m = SyncNode ctx inp es" using m(4) by (cases "?items ! m") auto
    have f: "item_fits (?items ! m)" using True fit by simp
    show ?thesis using node [OF m(2) True n m(3)] f n m(1) w True item_word_cases [OF f] by simp
  next
    case False
    then have "c = before stream t (Suc ?f)" using m by (simp add: before_Suc at_item_def)
    then show ?thesis using False w trm complete fragment m(1) by auto
  qed
qed

lemma sched_word_ptr:
  "sched_word 0 (l\<lparr> MyThreadSchedulePtr := MyThreadSchedulePtr l + k \<rparr>) = sched_word k l"
  "sched_word 0 (l\<lparr> MyThreadSchedulePtr := MyThreadSchedulePtr l + k, inputVal := v \<rparr>) = sched_word k l"
  "sched_word 0 (l\<lparr> inputVal := v, MyThreadSchedulePtr := MyThreadSchedulePtr l + k \<rparr>) = sched_word k l"
  by (simp_all add: sched_word_def Let_def)

lemma drop_drop_eq: "drop n xs = ys @ zs \<Longrightarrow> drop (n + length ys) xs = zs"
  by (metis add.commute append_eq_conv_conj drop_drop)

lemma body_spec:
  assumes "at_item items trm m l" "m < length items" "items ! m = SyncNode ctx inp es" "item_fits (SyncNode ctx inp es)"
    and b: "WaitForHbNode_body env e l fs = Some l'"
  shows "l' = l\<lparr> frames := Ret False # fs \<rparr> \<or>
    (frames l' = EdgeLoop (length es) # fs \<and> MyThreadSchedule l' = MyThreadSchedule l \<and>
     MyThreadCurrScheduleFragment l' = MyThreadCurrScheduleFragment l \<and>
     MyThreadSchedulePtr l' \<le> length (MyThreadSchedule l) \<and>
     drop (MyThreadSchedulePtr l') (MyThreadSchedule l) = edge_enc es @ enc (drop (Suc m) items) @ [trm])"
proof -
  let ?R = "drop (MyThreadSchedulePtr l) (MyThreadSchedule l)"
  let ?hd = "case inp of Some i \<Rightarrow> [int16 ctx OR InputBufferFlagBit, int16 i] | None \<Rightarrow> [int16 ctx]"
  let ?T = "edge_enc es @ enc (drop (Suc m) items) @ [trm]"
  have R: "?R = (?hd @ [int16 (length es)]) @ ?T"
    using at_item_rest [OF assms(1)] Cons_nth_drop_Suc [OF assms(2), symmetric] assms(3) by (simp add: edge_enc_def)
  have len: "MyThreadSchedulePtr l + length ?hd + 1 \<le> length (MyThreadSchedule l)"
    using arg_cong [OF R, of length] by (simp split: option.splits)
  have dr: "drop (MyThreadSchedulePtr l + length ?hd + 1) (MyThreadSchedule l) = ?T"
    using drop_drop_eq [OF R] by (simp add: add.assoc)
  have c: "1 \<le> ctx" "ctx \<le> MaxCtxId" "length es < 2 ^ 16" using assms(4) by auto
  have w: "sched_word n l = (if n < length ?R then Some (?R ! n) else None)" for n by (rule sched_word_drop)
  have n: "unat (int16 (length es)) = length es" by (rule unat_int16 [OF c(3)])
  show ?thesis
  proof (cases inp)
    case None
    have "sched_word 0 l = Some (int16 ctx)" "sched_word 1 l = Some (int16 (length es))"
      using w [of 0] w [of 1] None by (simp_all add: R)
    then show ?thesis
      using b len dr None n sched_word_ptr(1) [where l = l and k = 1]
      by (auto simp: WaitForHbNode_body_def IsScheduleComplete_def Let_def ctx_words [OF c(1,2)] split: if_splits)
  next
    case (Some i)
    have "sched_word 0 l = Some (int16 ctx OR InputBufferFlagBit)" "sched_word 1 l = Some (int16 i)"
        "sched_word 2 l = Some (int16 (length es))"
      using w [of 0] w [of 1] w [of 2] Some by (simp_all add: R)
    then show ?thesis
      using b len dr Some n sched_word_ptr(1) [where l = l and k = 1] sched_word_ptr(3) [where l = l and k = 2]
      by (auto simp: WaitForHbNode_body_def IsScheduleComplete_def Let_def ctx_words [OF c(1,2)] numeral_2_eq_2 split: if_splits)
  qed
qed

lemma step_body:
  assumes "rt_step env t s = Ok (ev, s')" "threads s t = Some l" "frames l = NodeBody e # fs" "calls fs"
    "ready stream trm (CurrFragmentId s) t l c" "sched_word 0 l \<noteq> Some EndFragmentSentinal"
    "frags_ok stream trm N s" "t < N"
  shows "step_ok stream trm clk t c s ev s'"
proof -
  let ?f = "MyThreadCurrScheduleFragment l"
  obtain l' where l': "WaitForHbNode_body env e l fs = Some l'" "ev = Tau" "s' = set_tls t l' s"
    using assms(1-3) by (auto simp: rt_step_def Let_def)
  have ret: "step_ok stream trm clk t c s ev s'" if "l' = l\<lparr> frames := Ret False # fs \<rparr>"
    using step_ok_goto [of "Ret False # fs" stream trm s t l c "l\<lparr> frames := Ret False # fs \<rparr>" clk] assms(4,5) l' that by simp
  from assms(5,7,8) show ?thesis
  proof (cases rule: ready_cases)
    case (node m ctx inp es)
    from body_spec [OF node(1-3,5) l'(1)] show ?thesis
    proof
      assume b: "frames l' = EdgeLoop (length es) # fs \<and> MyThreadSchedule l' = MyThreadSchedule l \<and>
        MyThreadCurrScheduleFragment l' = MyThreadCurrScheduleFragment l \<and>
        MyThreadSchedulePtr l' \<le> length (MyThreadSchedule l) \<and>
        drop (MyThreadSchedulePtr l') (MyThreadSchedule l) = edge_enc es @ enc (drop (Suc m) (stream ?f t)) @ [trm ?f]"
      have "in_edges stream trm (CurrFragmentId s) clk t l' (length es) c"
        using node b by (intro in_edgesI [of ?f l' _ m _ _ ctx inp "[]" es]) (simp_all add: satisfied_def at_item_def)
      then show ?thesis
        using T_inv.edge [of l' "length es" fs stream trm "CurrFragmentId s" clk t c "RegionTicker s"] b assms(4)
        by (simp add: step_simps l')
    qed (rule ret)
  next
    case complete
    then have "l' = l\<lparr> frames := Ret False # fs \<rparr>" using l'(1) by (simp add: WaitForHbNode_body_def IsScheduleComplete_def)
    then show ?thesis by (rule ret)
  qed (use assms(6) in simp_all)
qed

lemma step_edge:
  assumes "rt_step env t s = Ok (ev, s')" "threads s t = Some l" "frames l = EdgeLoop n # fs" "calls fs"
    "in_edges stream trm (CurrFragmentId s) clk t l n c" "frags_ok stream trm N s" "t < N"
    and clk: "\<And>u. clk u = unat (VectorClock s u)"
    and L: "\<forall>u < N. LogicalThreadMap s u = u"
  shows "step_ok stream trm clk t c s ev s'"
proof -
  let ?f = "MyThreadCurrScheduleFragment l" let ?items = "stream ?f t"
  obtain m ctx inp es1 es2 where m: "?f \<le> CurrFragmentId s" "m < length ?items" "?items ! m = SyncNode ctx inp (es1 @ es2)"
      "length es2 = n" "c = before stream t ?f + m" "satisfied clk es1"
      "MyThreadSchedule l = enc ?items @ [trm ?f]" "MyThreadSchedulePtr l \<le> length (MyThreadSchedule l)"
      "drop (MyThreadSchedulePtr l) (MyThreadSchedule l) = edge_enc es2 @ enc (drop (Suc m) ?items) @ [trm ?f]"
    using assms(5) unfolding in_edges_def Let_def by blast
  show ?thesis
  proof (cases es2)
    case Nil
    let ?l = "l\<lparr> frames := SkipLoop # Ret True # fs \<rparr>"
    have s': "ev = Entered" "s' = set_tls t ?l s" using assms(1-3) m(4) Nil by (auto simp: rt_step_def Let_def)
    have "?items = take (Suc m) ?items @ drop (Suc m) ?items" by simp
    then have e: "enc ?items = enc (take (Suc m) ?items) @ enc (drop (Suc m) ?items)" by (metis enc_append(1))
    have "MyThreadSchedulePtr l = length (enc (take (Suc m) ?items))"
      using arg_cong [OF m(9), of length] m(7,8) Nil e by (simp add: edge_enc_def)
    then have "skipping stream trm (CurrFragmentId s) t ?l (Suc c)"
      using m by (auto simp: skipping_def Let_def at_item_def intro!: exI [of _ "Suc m"])
    moreover have "passes_ok stream (CurrFragmentId s) clk t Entered c"
      using m Nil passes_okI [where f = ?f and fid = "CurrFragmentId s" and m = m and stream = stream and t = t and clk = clk and ev = Entered] by auto
    ultimately show ?thesis
      using assms(4) T_inv.skip [of ?l "Ret True # fs" stream trm "CurrFragmentId s" t "Suc c" "RegionTicker s" clk]
      by (simp add: s' step_simps)
  next
    case (Cons e es)
    obtain u ts where e: "e = (u, ts)" by (cases e)
    obtain n' where n': "n = Suc n'" using m(4) Cons by (cases n) auto
    have fits: "item_fits (?items ! m)" using frag_at [OF assms(6) m(1) assms(7)] m(2) by (metis nth_mem)
    then have b: "u < 2 ^ 16" "ts < 2 ^ 16" using m(3) Cons e by auto
    have w: "sched_word 0 l = Some (int16 u)" "sched_word 1 l = Some (int16 ts)"
      unfolding sched_word_drop m(9) using Cons e by (simp_all add: edge_enc_def)
    have "edges_below N (?items ! m)" using frag_at [OF assms(6) m(1) assms(7)] m(2) by (metis nth_mem)
    then have "LogicalThreadMap s u = u" using L m(3) Cons e by (simp add: edges_below_def)
    moreover have "unat (ucast (int16 ts) :: u32) = ts"
      using unat_int16 [OF b(2)] b(2) by (simp add: unsigned_ucast_eq take_bit_nat_eq_self)
    ultimately have wait: "ts \<le> clk u" "ev = Tau"
      "s' = set_tls t (l\<lparr> MyThreadSchedulePtr := MyThreadSchedulePtr l + 2, frames := EdgeLoop n' # fs \<rparr>) s"
      using assms(1-3) n' w unat_int16 [OF b(1)]
      by (auto simp: rt_step_def WaitForHbNode_edge_def Let_def clk word_le_nat_alt split: if_splits)
    let ?l = "l\<lparr> MyThreadSchedulePtr := MyThreadSchedulePtr l + 2, frames := EdgeLoop n' # fs \<rparr>"
    have R: "drop (MyThreadSchedulePtr l) (MyThreadSchedule l) =
        [int16 u, int16 ts] @ edge_enc es @ enc (drop (Suc m) ?items) @ [trm ?f]"
      using m(9) Cons e by (simp add: edge_enc_def)
    have dr: "drop (MyThreadSchedulePtr l + 2) (MyThreadSchedule l) = edge_enc es @ enc (drop (Suc m) ?items) @ [trm ?f]"
      using drop_drop_eq [OF R] by (simp add: numeral_2_eq_2)
    have len: "MyThreadSchedulePtr l + 2 \<le> length (MyThreadSchedule l)" using arg_cong [OF R, of length] by simp
    have "satisfied clk (es1 @ [e])" using m(6) wait(1) e by (simp add: satisfied_def)
    then have "in_edges stream trm (CurrFragmentId s) clk t ?l n' c"
      using m Cons n' dr len by (intro in_edgesI [of ?f ?l _ m _ _ ctx inp "es1 @ [e]" es]) simp_all
    then show ?thesis
      using assms(4) T_inv.edge [of ?l n' fs stream trm "CurrFragmentId s" clk t c "RegionTicker s"]
      by (simp add: wait step_simps)
  qed
qed

lemma calls_FragLoop: "calls (FragLoop # fs) \<Longrightarrow> (\<exists>e gs. fs = NodeBody e # gs \<and> calls gs) \<or> calls fs"
  by (cases fs) (auto split: if_splits)

lemma step_fragloop:
  assumes "rt_step env t s = Ok (ev, s')" "threads s t = Some l" "frames l = FragLoop # fs" "calls (FragLoop # fs)"
    "ready stream trm (CurrFragmentId s) t l c" "frags_ok stream trm N s" "t < N"
  shows "step_ok stream trm clk t c s ev s'"
proof -
  let ?f = "MyThreadCurrScheduleFragment l"
  have pop: "step_ok stream trm clk t c s ev s'" if w: "sched_word 0 l \<noteq> Some EndFragmentSentinal" "sched_word 0 l \<noteq> None"
  proof -
    let ?l = "l\<lparr> frames := fs \<rparr>"
    have s': "ev = Tau" "s' = set_tls t ?l s"
      using assms(1-3) w by (auto simp: rt_step_def IsFragmentComplete_def Let_def)
    consider e gs where "fs = NodeBody e # gs" "calls gs" | "calls fs"
      using calls_FragLoop [OF assms(4)] by blast
    then show ?thesis
    proof cases
      case 1
      then show ?thesis
        using T_inv.body [of ?l e gs stream trm "CurrFragmentId s" t c "RegionTicker s" clk] assms(5) w by (simp add: s' step_simps)
    next
      case 2
      then show ?thesis using step_ok_goto [of fs stream trm s t l c ?l clk] assms(5) s' by simp
    qed
  qed
  from assms(5-7) show ?thesis
  proof (cases rule: ready_cases)
    case fragment
    then have a: "ev = Tau" "AdvanceToNextFragment env t (FragLoop # fs) s = Some s'"
      using assms(1-3) by (auto simp: rt_step_def IsFragmentComplete_def Let_def)
    note A = AdvanceToNextFragment_spec [OF a(2) assms(2)]
    then have ext: "extends t s s'" "VectorClock s' = VectorClock s" by blast+
    let ?l = "\<lambda>gs. l\<lparr> MyThreadCurrScheduleFragment := ?f + 1, frames := gs \<rparr>"
    have "T_inv stream trm (CurrFragmentId s') (RegionTicker s') clk t (?l (InitPtr # FragLoop # fs)) c" if "CurrFragmentId s' = ?f + 1"
      using fragment assms(4) that by (intro T_inv.init [of _ "FragLoop # fs"]) simp_all
    moreover have "T_inv stream trm (CurrFragmentId s') (RegionTicker s') clk t (?l (SpinFragment # InitPtr # FragLoop # fs)) c"
      using fragment assms(4) by (intro T_inv.spin [of _ "FragLoop # fs"]) simp_all
    ultimately have "\<exists>l'. threads s' t = Some l' \<and> T_inv stream trm (CurrFragmentId s') (RegionTicker s') clk t l' c"
      using A by blast
    then show ?thesis using ext by (simp add: a step_simps)
  next
    case (node m ctx inp es)
    moreover have "sched_word 0 l \<noteq> None" using at_item_word [OF node(1)] by simp
    ultimately show ?thesis by (intro pop)
  next
    case complete
    then show ?thesis by (intro pop) (simp_all add: flag_constants)
  qed
qed

lemma step_barrier:
  assumes "RegionBarrier env t fs s = Some s'" "RegionTicker s' = RegionTicker s" "threads s t = Some l" "calls fs"
    "ready stream trm (CurrFragmentId s) t l c" "sched_word 0 l = Some 0"
  shows "step_ok stream trm clk t c s Tau s'"
proof -
  note R = RegionBarrier_same [OF assms(1-3)]
  let ?l = "l\<lparr> frames := SpinBarrier (RegionTicker s) # AfterBarrier # fs \<rparr>"
  have "T_inv stream trm (CurrFragmentId s') (RegionTicker s') clk t ?l c"
    using R assms(2,4-6) by (intro T_inv.parked) simp_all
  then show ?thesis using R by (simp add: step_simps)
qed

lemma calls_tl: "calls (f # fs) \<Longrightarrow> f \<noteq> FragLoop \<Longrightarrow> simple f \<and> calls fs"
  by auto

text \<open>The frames that the program pushes and that do not read the schedule array.\<close>

lemma step_other:
  assumes "rt_step env t s = Ok (ev, s')" "RegionTicker s' = RegionTicker s" "threads s t = Some l" "calls (frames l)"
    "ready stream trm (CurrFragmentId s) t l c" "frags_ok stream trm N s" "t < N"
  shows "step_ok stream trm clk t c s ev s'"
proof (cases "frames l")
  case Nil
  then show ?thesis using assms(1,3) by (simp add: rt_step_def)
next
  case (Cons f fs)
  show ?thesis
  proof (cases "f = FragLoop")
    case True
    then show ?thesis using step_fragloop [OF assms(1,3), of fs stream trm c N clk] assms Cons by simp
  next
    case False
    have cf: "simple f" "calls fs" using calls_tl [of f fs] False assms(4) Cons by simp_all
    have go: "step_ok stream trm clk t c s Tau (set_tls t (l\<lparr> frames := gs \<rparr>) s)" if "calls gs" for gs
      using step_ok_goto [of gs stream trm s t l c "l\<lparr> frames := gs \<rparr>" clk] assms(5) that by simp
    have bar: "step_ok stream trm clk t c s Tau s'"
      if "RegionBarrier env t gs s = Some s'" "IsScheduleComplete l = Some True" "calls gs" for gs
      using step_barrier [OF that(1) assms(2,3) that(3) assms(5)] that(2) by (auto simp: IsScheduleComplete_def)
    show ?thesis
    proof (cases f)
      case (Ret b)
      then show ?thesis
        using assms(1,3) Cons step_ok_goto [of fs stream trm s t l c "l\<lparr> retval := b, frames := fs \<rparr>" clk] assms(5) cf
        by (auto simp: rt_step_def)
    next
      case AssertOk
      then show ?thesis using assms(1,3) Cons go [of fs] cf by (auto simp: rt_step_def split: if_splits)
    next
      case SleepLoop
      then show ?thesis
        using assms(1,3) Cons go [of fs] bar [of "SleepLoop # fs"] cf by (auto simp: rt_step_def split: if_splits option.splits)
    next
      case AdvanceClock
      then have "ev = Advanced" "s' = AdvanceHbNode t (set_tls t (l\<lparr> frames := fs \<rparr>) s)"
        using assms(1,3) Cons by (auto simp: rt_step_def)
      then show ?thesis using go [of fs] cf by (simp add: step_simps)
    next
      case MarkerTail
      then show ?thesis
        using assms(1,3) Cons go [of fs] bar [of fs] cf by (auto simp: rt_step_def split: if_splits option.splits)
    next
      case ExitLoop
      then show ?thesis
        using assms(1,3) Cons go [of "Ret False # fs"] go [of "Ret True # fs"] bar [of "ExitLoop # fs"] cf
        by (auto simp: rt_step_def split: if_splits option.splits)
    next
      case (Client k)
      then show ?thesis using assms(1,3) Cons by (auto simp: rt_step_def)
    qed (use cf False in auto)
  qed
qed

lemma step_T_inv:
  assumes "rt_step env t s = Ok (ev, s')" "RegionTicker s' = RegionTicker s" "threads s t = Some l"
    "T_inv stream trm (CurrFragmentId s) (RegionTicker s) clk t l c" "frags_ok stream trm N s" "t < N"
    and clk: "\<And>u. clk u = unat (VectorClock s u)"
    and L: "\<forall>u < N. LogicalThreadMap s u = u"
  shows "step_ok stream trm clk t c s ev s'"
  using assms(4)
proof cases
  case (released old fs)
  let ?l = "l\<lparr> frames := AfterBarrier # fs \<rparr>"
  have "ev = Tau" "s' = set_tls t ?l s" using assms(1,3) released by (auto simp: rt_step_def)
  then show ?thesis
    using T_inv.after [of ?l fs stream trm "CurrFragmentId s" "RegionTicker s" clk t] released by (simp add: step_simps)
next
  case (parked fs)
  then show ?thesis using assms(1,3) by (auto simp: rt_step_def)
next
  case (after fs)
  let ?l = "l\<lparr> MyThreadCurrScheduleFragment := 0, frames := InitPtr # fs \<rparr>"
  have "ev = Tau" "s' = set_tls t ?l s" using assms(1,3) after by (auto simp: rt_step_def)
  then show ?thesis
    using T_inv.init [of ?l fs "CurrFragmentId s" 0 stream t trm "RegionTicker s" clk] after by (simp add: step_simps)
next
  case (init fs)
  then show ?thesis using step_init [OF assms(1,3) init(1,2,3) assms(5,6)] by simp
next
  case (spin fs)
  let ?l = "l\<lparr> frames := InitPtr # fs \<rparr>"
  have "ev = Tau" "s' = set_tls t ?l s" "MyThreadCurrScheduleFragment l \<le> CurrFragmentId s"
    using assms(1,3) spin by (auto simp: rt_step_def split: if_splits)
  then show ?thesis
    using T_inv.init [of ?l fs "CurrFragmentId s" c stream t trm "RegionTicker s" clk] spin by (simp add: step_simps)
next
  case (skip fs)
  then show ?thesis using step_skip [OF assms(1,3) skip(1,2,3) assms(5,6)] by simp
next
  case (edge n fs)
  then show ?thesis using step_edge [OF assms(1,3) edge(1,2,3) assms(5,6) clk L] by simp
next
  case (body e fs)
  then show ?thesis using step_body [OF assms(1,3) body(1,2,3,4) assms(5,6)] by simp
next
  case other
  then show ?thesis using step_other [OF assms(1-3) other(1,2) assms(5,6)] by simp
qed

subsection \<open>The invariant of a region\<close>

definition G_inv :: "streams \<Rightarrow> (nat \<Rightarrow> u16) \<Rightarrow> nat \<Rightarrow> (nat \<times> event) list \<Rightarrow> ('k, 'z) rt_scheme \<Rightarrow> bool" where
  "G_inv stream trm N es s \<longleftrightarrow>
     (\<forall>t. VectorClock s t = word_of_nat (clocked es t)) \<and>
     (\<forall>t l. threads s t = Some l \<longrightarrow>
        t < N \<and> T_inv stream trm (CurrFragmentId s) (RegionTicker s) (clocked es) t l (passed es t)) \<and>
     (\<forall>t. threads s t = None \<longrightarrow> passed es t = 0) \<and>
     (\<forall>t < N. LogicalThreadMap s t = t) \<and>
     (\<forall>t c. c < passed es t \<longrightarrow> c < length (items_upto stream t (Suc (CurrFragmentId s))) \<and>
        item_done (clocked es) (items_upto stream t (Suc (CurrFragmentId s)) ! c)) \<and>
     (\<forall>t. (t, Skipped) \<in> set es \<longrightarrow> (\<exists>k \<le> CurrFragmentId s. SkipNode \<in> set (stream k t)))"

text \<open>A thread is created in a fragment before which it has no nodes.\<close>

definition spawn_ok :: "streams \<Rightarrow> nat \<Rightarrow> (nat \<times> event) list \<Rightarrow> bool" where
  "spawn_ok stream N es \<longleftrightarrow> (\<forall>t u f. (t, Spawned u f) \<in> set es \<longrightarrow> u < N \<and> (\<forall>k < f. stream k u = []))"

lemma passed_snoc: "passed (es @ [(t, ev)]) u = passed es u + (if u = t then counts ev else 0)"
  by (cases ev) (auto simp: passed_def)

lemma clocked_snoc:
  "clocked (es @ [(t, ev)]) u = clocked es u + (if u = t \<and> (ev = Skipped \<or> ev = Advanced) then 1 else 0)"
  by (cases ev) (auto simp: clocked_def)

lemma clocked_le: "clocked es t \<le> length es"
  by (induction es rule: rev_induct) (auto simp: clocked_snoc clocked_def)

lemma items_upto_prefix:
  assumes "n \<le> n'" "c < length (items_upto stream t n)"
  shows "c < length (items_upto stream t n') \<and> items_upto stream t n' ! c = items_upto stream t n ! c"
proof -
  have "[0..<n'] = [0..<n] @ [n..<n']" using assms(1) by (metis le0 upt_add_eq_append le_add_diff_inverse)
  then have "items_upto stream t n' = items_upto stream t n @ concat (map (\<lambda>k. stream k t) [n..<n'])"
    by (simp add: items_upto_def)
  then show ?thesis using assms(2) by (simp add: nth_append)
qed

lemma item_done_mono: "item_done clk it \<Longrightarrow> (\<And>u. clk u \<le> clk' u) \<Longrightarrow> item_done clk' it"
  by (cases it) (auto simp: item_done_def intro: satisfied_mono)

lemma rt_step_extends:
  assumes "rt_step env t s = Ok (ev, s')" "RegionTicker s' = RegionTicker s"
  shows "extends t s s'"
proof -
  obtain l f fs where l: "threads s t = Some l" "frames l = f # fs"
    using assms(1) by (auto simp: rt_step_def split: option.splits list.splits)
  have bar: "extends t s s'" if "RegionBarrier env t gs s = Some s'" for gs
    using RegionBarrier_same [OF that assms(2) l(1)] by simp
  have adv: "extends t s s'" if "AdvanceToNextFragment env t gs s = Some s'" for gs
    using AdvanceToNextFragment_spec [OF that l(1)] by simp
  have ini: "extends t s s'" if "InitializeMyThreadSchedulePtr env t gs s = Some s'" for gs
    using that l(1) bar adv by (auto simp: InitializeMyThreadSchedulePtr_def split: if_splits)
  show ?thesis
  proof (cases f)
    case (EdgeLoop n)
    then show ?thesis using assms(1) l by (auto simp: rt_step_def split: nat.splits res.splits)
  qed (use assms(1) l bar adv ini in \<open>auto simp: rt_step_def Let_def split: if_splits option.splits\<close>)
qed

lemma frags_ok_back:
  assumes "frags_ok stream trm N s'" "CurrFragmentId s \<le> CurrFragmentId s'"
    "\<forall>k \<le> CurrFragmentId s. CurrFragmentList s' k = CurrFragmentList s k"
  shows "frags_ok stream trm N s"
  unfolding frags_ok_def
proof (intro allI impI)
  fix k assume k: "k \<le> CurrFragmentId s"
  then have "k \<le> CurrFragmentId s'" "CurrFragmentList s k = CurrFragmentList s' k" using assms(2,3) by auto
  then show "trm k \<in> {0, EndFragmentSentinal} \<and> (\<exists>h. CurrFragmentList s k = Some h \<and>
      (\<forall>t < N. t < unat (numThreads h) \<and> threadSchedules h ! t = enc (stream k t) @ [trm k] \<and>
         (\<forall>it \<in> set (stream k t). item_fits it \<and> edges_below N it)))"
    using assms(1) by (simp add: frags_ok_def)
qed

lemma rstep_frags_back:
  assumes "rstep env s e s'" "RegionTicker s' = RegionTicker s" "frags_ok stream trm N s'"
  shows "frags_ok stream trm N s"
  using assms(1)
proof cases
  case (run t ev)
  then show ?thesis
    using rt_step_extends [OF run(2) assms(2)] by (intro frags_ok_back [OF assms(3)]) (simp_all add: extends_def)
qed (rule frags_ok_back [OF assms(3)], simp_all add: same_sched_def)+

lemma G_inv_start:
  assumes "region_start N s"
  shows "G_inv stream trm N [] s"
proof -
  have "T_inv stream trm (CurrFragmentId s) (RegionTicker s) (clocked []) t l 0" if "fresh_thread s l" for t l
    using that by cases (auto intro: T_inv.intros)
  then show ?thesis using assms by (auto simp: G_inv_def region_start_def clocked_def passed_def)
qed

text \<open>The parts of the invariant that speak of the other threads, and of the nodes passed.\<close>

lemma G_inv_step:
  assumes G: "G_inv stream trm N es s" and ok: "step_ok stream trm (clocked es) t (passed es t) s ev s'" and "t < N"
    "threads s t \<noteq> None"
  shows "G_inv stream trm N (es @ [(t, ev)]) s'"
proof -
  let ?es = "es @ [(t, ev)]"
  have up: "clocked es u \<le> clocked ?es u" for u by (simp add: clocked_snoc)
  have ext: "extends t s s'" and vc: "VectorClock s' = clock_after t ev (VectorClock s)"
    and pass: "passes_ok stream (CurrFragmentId s') (clocked es) t ev (passed es t)" using ok by (auto simp: step_ok_def)
  obtain l' where l': "threads s' t = Some l'"
      "T_inv stream trm (CurrFragmentId s') (RegionTicker s') (clocked es) t l' (passed ?es t)"
    using ok by (auto simp: step_ok_def passed_snoc)
  have thr: "u < N \<and> T_inv stream trm (CurrFragmentId s') (RegionTicker s') (clocked ?es) u l (passed ?es u)"
    if "threads s' u = Some l" for u l
  proof (cases "u = t")
    case True
    then show ?thesis using T_inv_mono [OF l'(2) order_refl up] l'(1) that assms(3) by simp
  next
    case False
    then have "threads s u = Some l" "RegionTicker s' = RegionTicker s" "CurrFragmentId s \<le> CurrFragmentId s'"
      using ext that by (auto simp: extends_def)
    moreover from this have "u < N" "T_inv stream trm (CurrFragmentId s) (RegionTicker s) (clocked es) u l (passed es u)"
      using G by (auto simp: G_inv_def)
    ultimately show ?thesis using False T_inv_mono [OF _ _ up] by (simp add: passed_snoc)
  qed
  have dn: "c < length (items_upto stream u (Suc (CurrFragmentId s'))) \<and>
      item_done (clocked ?es) (items_upto stream u (Suc (CurrFragmentId s')) ! c)" if c: "c < passed ?es u" for u c
  proof (cases "c < passed es u")
    case True
    then have i: "c < length (items_upto stream u (Suc (CurrFragmentId s)))"
      "item_done (clocked es) (items_upto stream u (Suc (CurrFragmentId s)) ! c)" using G unfolding G_inv_def by blast+
    have "Suc (CurrFragmentId s) \<le> Suc (CurrFragmentId s')" using ext by (simp add: extends_def)
    from items_upto_prefix [OF this i(1)] item_done_mono [OF i(2) up] show ?thesis by simp
  next
    case False
    then have u: "u = t" "c = passed es t" "counts ev \<noteq> 0" using c by (auto simp: passed_snoc counts_def split: if_splits event.splits)
    then obtain f m where f: "f \<le> CurrFragmentId s'" "m < length (stream f t)" "c = before stream t f + m"
        "item_done (clocked es) (stream f t ! m)"
      using pass by (auto simp: passes_ok_def)
    then show ?thesis
      using items_upto_nth [where stream = stream and t = t and f = f and m = m and n = "Suc (CurrFragmentId s')"] f item_done_mono [OF f(4) up] u by simp
  qed
  have "threads s u = None \<and> u \<noteq> t" if "threads s' u = None" for u
    using that ext l'(1) by (cases "u = t") (auto simp: extends_def)
  then have none: "passed ?es u = 0" if "threads s' u = None" for u using G that by (auto simp: G_inv_def passed_snoc)
  have clk: "VectorClock s' u = word_of_nat (clocked ?es u)" for u
    using G vc by (simp add: G_inv_def clocked_snoc clock_after_def)
  have "\<forall>t < N. LogicalThreadMap s' t = t" using G ext by (simp add: G_inv_def extends_def)
  moreover have "\<exists>k \<le> CurrFragmentId s'. SkipNode \<in> set (stream k u)" if "(u, Skipped) \<in> set ?es" for u
  proof (cases "(u, Skipped) \<in> set es")
    case True
    then obtain k where "k \<le> CurrFragmentId s" "SkipNode \<in> set (stream k u)" using G unfolding G_inv_def by blast
    moreover have "CurrFragmentId s \<le> CurrFragmentId s'" using ext by (simp add: extends_def)
    ultimately show ?thesis using order_trans by blast
  next
    case False
    then show ?thesis using that pass nth_mem by (fastforce simp: passes_ok_def)
  qed
  ultimately show ?thesis using thr dn none clk unfolding G_inv_def by blast
qed

lemma G_inv_same:
  assumes G: "G_inv stream trm N es s" and "same_sched s s'"
    and thr: "\<And>u l. threads s' u = Some l \<Longrightarrow> threads s u \<noteq> Some l \<Longrightarrow>
      u < N \<and> T_inv stream trm (CurrFragmentId s) (RegionTicker s) (clocked es) u l (passed es u)"
    and none: "\<And>u. threads s' u = None \<Longrightarrow> threads s u = None" and "counts ev = 0" "ev \<noteq> Advanced"
  shows "G_inv stream trm N (es @ [(t, ev)]) s'"
proof -
  have [simp]: "passed (es @ [(t, ev)]) = passed es" "clocked (es @ [(t, ev)]) = clocked es"
    using assms(5,6) by (auto simp: fun_eq_iff passed_snoc clocked_snoc)
  have eq: "VectorClock s' = VectorClock s" "CurrFragmentId s' = CurrFragmentId s" "RegionTicker s' = RegionTicker s"
    "LogicalThreadMap s' = LogicalThreadMap s" using assms(2) by (simp_all add: same_sched_def)
  have "u < N \<and> T_inv stream trm (CurrFragmentId s) (RegionTicker s) (clocked es) u l (passed es u)"
    if "threads s' u = Some l" for u l
    using thr [OF that] G unfolding G_inv_def by blast
  moreover have "(u, Skipped) \<in> set (es @ [(t, ev)]) \<longleftrightarrow> (u, Skipped) \<in> set es" for u using assms(5) by auto
  ultimately show ?thesis using G none unfolding G_inv_def by (simp add: eq)
qed

lemma client_cases:
  assumes "T_inv stream trm fid ticker clk t l c" "at_client l"
  shows "calls (tl (frames l)) \<and> ready stream trm fid t l c"
  using assms(1)
proof cases
  case other
  then show ?thesis using assms(2) by (cases "frames l") (auto simp: at_client_def split: frame.splits)
qed (use assms(2) in \<open>auto simp: at_client_def\<close>)

lemma calls_append: "calls_from b gs \<Longrightarrow> calls fs \<Longrightarrow> calls_from b (gs @ fs)"
proof (induction gs arbitrary: b)
  case Nil
  then show ?case by (cases fs) auto
qed auto

lemma client_T_inv:
  assumes "T_inv stream trm fid ticker clk t l c" "at_client l" "calls gs"
  shows "T_inv stream trm fid ticker clk t (l\<lparr> callstk := stk, MyThreadJustStarted := b, frames := gs @ tl (frames l) \<rparr>) c"
proof -
  have "calls (gs @ tl (frames l))" using client_cases [OF assms(1,2)] assms(3) calls_append by blast
  then show ?thesis
    using client_cases [OF assms(1,2)] by (intro T_inv.other) (simp_all add: ready_def at_item_def)
qed

lemma G_inv_run:
  assumes "region_run env s0 es s" "region_start N s0" "frags_ok stream trm N s" "spawn_ok stream N es" "length es < 2 ^ 32"
  shows "G_inv stream trm N es s"
  using assms(1,3-)
proof (induction rule: region_run.induct)
  case nil
  show ?case by (rule G_inv_start [OF assms(2)])
next
  case (snoc es s e s')
  have F: "frags_ok stream trm N s" by (rule rstep_frags_back [OF snoc(2,3,5)])
  have "spawn_ok stream N es" "length es < 2 ^ 32" using snoc.prems by (auto simp: spawn_ok_def)
  then have G: "G_inv stream trm N es s" using snoc.IH F by simp
  have T: "u < N \<and> T_inv stream trm (CurrFragmentId s) (RegionTicker s) (clocked es) u l (passed es u)"
    if "threads s u = Some l" for u l using G that by (simp add: G_inv_def)
  from snoc(2) show ?case
  proof cases
    case (run t ev)
    obtain l where l: "threads s t = Some l" using run(2) by (auto simp: rt_step_def split: option.splits)
    have clk: "clocked es u = unat (VectorClock s u)" for u
    proof -
      have "clocked es u < 2 ^ 32" using clocked_le [of es u] snoc.prems by simp
      then show ?thesis using G by (simp add: G_inv_def unat_of_nat)
    qed
    have "\<forall>u < N. LogicalThreadMap s u = u" using G by (simp add: G_inv_def)
    then have "step_ok stream trm (clocked es) t (passed es t) s ev s'"
      using T [OF l] by (intro step_T_inv [OF run(2) snoc(3) l _ F _ clk]) auto
    then show ?thesis using G_inv_step [OF G] T [OF l] l run(1) by simp
  next
    case (client t l gs b stk)
    let ?l = "l\<lparr> callstk := stk, MyThreadJustStarted := b, frames := gs @ tl (frames l) \<rparr>"
    have "T_inv stream trm (CurrFragmentId s) (RegionTicker s) (clocked es) t ?l (passed es t)"
      using T [OF client(2)] client(3,4) client_T_inv by blast
    then show ?thesis
      unfolding client(1) using client T [OF client(2)]
      by (intro G_inv_same [OF G client(6)]) (auto split: if_splits)
  next
    case (spawn t l u f)
    note l = T [OF spawn(2)]
    have tl: "T_inv stream trm (CurrFragmentId s) (RegionTicker s) (clocked es) t (l\<lparr> frames := tl (frames l) \<rparr>) (passed es t)"
      using client_cases [OF conjunct2 [OF l] spawn(3)]
      by (intro T_inv.other) (simp_all add: ready_def at_item_def)
    have sp: "u < N" "\<forall>k < f. stream k u = []"
      using snoc.prems(2) spawn(1) by (auto simp: spawn_ok_def)
    then have "before stream u f = 0" by (auto simp: before_def items_upto_def)
    moreover have "passed es u = 0" using G spawn(4) by (simp add: G_inv_def)
    ultimately have "T_inv stream trm (CurrFragmentId s) (RegionTicker s) (clocked es) u (thread_start f) (passed es u)"
      using spawn(5) by (intro T_inv.init [of _ "[]"]) (simp_all add: thread_start_def)
    then show ?thesis
      unfolding spawn(1) using spawn sp tl l
      by (intro G_inv_same [OF G spawn(7)]) (auto split: if_splits)
  qed
qed

end
