(* ===== verification/Runtime_Order.thy ===== *)
theory Runtime_Order
  imports Runtime_Safety
begin

text \<open>
  The guarantees of the scheduling core, drawn from the invariant of \<^verbatim>\<open>Runtime_Safety\<close>: the nodes
  passed are closed under the edges of the schedule, waiting for edges cannot deadlock, and the one
  case in which the clock of a thread runs ahead of its operations.
\<close>

subsection \<open>Scripts\<close>

text \<open>A script fixes an interleaving, so that concrete runs can be computed: thread \<^verbatim>\<open>t\<close> runs inside
  the runtime, calls into it, or creates a thread.\<close>

lemma is_NodeBody [code_unfold]: "(\<exists>e. f = NodeBody e) = (case f of NodeBody e \<Rightarrow> True | _ \<Rightarrow> False)"
  by (simp split: frame.splits)

datatype 'k act = Run nat | Call nat "'k frame list" | Create nat nat

definition act_step ::
  "('k, 'z) rtenv \<Rightarrow> 'k act \<Rightarrow> ('k, 'z) rt_scheme \<Rightarrow> ((nat \<times> event) \<times> ('k, 'z) rt_scheme) option" where
  "act_step env a s =
     (case a of
        Run t \<Rightarrow> (case rt_step env t s of
            Ok (ev, s') \<Rightarrow> if RegionTicker s' = RegionTicker s then Some ((t, ev), s') else None
          | _ \<Rightarrow> None)
      | Call t gs \<Rightarrow> do {
          l \<leftarrow> threads s t;
          assert_opt (at_client l \<and> calls gs);
          Some ((t, Tau), set_tls t (l\<lparr> frames := gs @ tl (frames l) \<rparr>) s)
        }
      | Create t u \<Rightarrow> do {
          l \<leftarrow> threads s t;
          assert_opt (at_client l \<and> threads s u = None \<and> MyThreadCurrScheduleFragment l \<le> CurrFragmentId s);
          Some ((t, Spawned u (MyThreadCurrScheduleFragment l)),
            set_tls u (thread_start (MyThreadCurrScheduleFragment l)) (set_tls t (l\<lparr> frames := tl (frames l) \<rparr>) s))
        })"

fun script :: "('k, 'z) rtenv \<Rightarrow> 'k act list \<Rightarrow> ('k, 'z) rt_scheme \<Rightarrow> ((nat \<times> event) list \<times> ('k, 'z) rt_scheme) option" where
  "script env [] s = Some ([], s)"
| "script env (a # as) s = do { (e, s') \<leftarrow> act_step env a s; (es, s'') \<leftarrow> script env as s'; Some (e # es, s'') }"

lemma act_step_rstep:
  assumes "act_step env a s = Some (e, s')"
  shows "rstep env s e s' \<and> RegionTicker s' = RegionTicker s"
proof (cases a)
  case (Run t)
  then show ?thesis using assms by (auto simp: act_step_def split: res.splits if_splits intro: rstep.run)
next
  case (Call t gs)
  then obtain l where l: "threads s t = Some l" "at_client l" "calls gs" "e = (t, Tau)"
      "s' = set_tls t (l\<lparr> frames := gs @ tl (frames l) \<rparr>) s"
    using assms by (auto simp: act_step_def split: if_splits)
  then show ?thesis
    by (auto intro!: rstep.client [where l = l and gs = gs and stk = "callstk l" and b = "MyThreadJustStarted l"]
        simp: set_tls_def same_sched_def)
next
  case (Create t u)
  then show ?thesis
    using assms by (auto simp: act_step_def set_tls_def same_sched_def split: if_splits intro!: rstep.spawn)
qed

lemma script_region_run:
  assumes "script env as s = Some (es, s')" "region_run env s0 es0 s"
  shows "region_run env s0 (es0 @ es) s'"
  using assms
proof (induction as arbitrary: s es0 es)
  case (Cons a as)
  then obtain e s1 es1 where a: "act_step env a s = Some (e, s1)" "script env as s1 = Some (es1, s')" "es = e # es1"
    by auto
  have "region_run env s0 (es0 @ [e]) s1" using Cons.prems(2) act_step_rstep [OF a(1)] by (blast intro: region_run.snoc)
  from Cons.IH [OF a(2) this] show ?case by (simp add: a(3))
qed simp

subsection \<open>Two threads and one edge\<close>

text \<open>Thread 0 has the nodes \<^verbatim>\<open>its\<close>, thread 1 one node that waits for the first of them.\<close>

definition demo_stream :: "sched_item list \<Rightarrow> streams" where
  "demo_stream its k t = (if k \<noteq> 0 then [] else if t = 0 then its else if t = 1 then [SyncNode 1 None [(0, 1)]] else [])"

definition demo_schedule :: "sched_item list \<Rightarrow> HBSchedule" where
  "demo_schedule its = \<lparr> numThreads = 2, nextThreadLeaderId = 0, nextScheduleSelectorId = 0, exitsProgramFlag = 0,
     threadSchedules = [enc its @ [0], enc [SyncNode 1 None [(0, 1)]] @ [0]] \<rparr>"

definition demo_env :: "(unit, unit) rtenv" where
  "demo_env = \<lparr> schedule_selectors = (\<lambda>_ _. None), snapshot_functions = (\<lambda>_ _ _ _. 0), regionctx_table = [],
     callctx_table = [0, 0], stackvars_sizes = (\<lambda>_ _. 0) \<rparr>"

abbreviation demo_start :: "sched_item list \<Rightarrow> unit rt" where
  "demo_start its \<equiv> klee_ics_initialize (demo_schedule its)"

text \<open>Thread 0 creates thread 1, enters its first node, and completes it or not; then thread 1 runs.\<close>

definition demo_script :: "nat \<Rightarrow> nat \<Rightarrow> unit act list" where
  "demo_script m n = [Run 0, Run 0, Create 0 1, Call 0 (call_WaitForHbNode False @ [AdvanceClock])] @
     replicate m (Run 0) @ [Run 1, Run 1, Call 1 (call_WaitForHbNode False @ [AdvanceClock])] @ replicate n (Run 1)"

lemma initialize_region_start: "0 < N \<Longrightarrow> region_start N (klee_ics_initialize h)"
  by (auto simp: region_start_def klee_ics_initialize_def thread_start_def intro!: fresh_thread.initial split: if_splits)

lemma demo_frags_ok:
  assumes "CurrFragmentId s = 0" "CurrFragmentList s 0 = Some (demo_schedule its)"
    "\<forall>it \<in> set its. item_fits it \<and> edges_below 2 it"
  shows "frags_ok (demo_stream its) (\<lambda>_. 0) 2 s"
  using assms by (auto simp: frags_ok_def demo_schedule_def demo_stream_def less_2_cases_iff edges_below_def flag_constants(2))

text \<open>What is read off the result of a script: the events, the fragment, its schedule, and the next frames.\<close>

definition demo_view :: "(nat \<times> event) list \<times> 'k rt \<Rightarrow>
    (nat \<times> event) list \<times> nat \<times> HBSchedule option \<times> 'k frame list option list" where
  "demo_view r = (case r of (es, s) \<Rightarrow> (es, CurrFragmentId s, CurrFragmentList s 0,
     map (\<lambda>t. map_option (take 1 \<circ> frames) (threads s t)) [0, 1]))"

lemma demo_run:
  assumes "map_option demo_view (script env as s0) = Some (es, 0, Some h, [Some f0, Some f1])"
  shows "\<exists>s. region_run env s0 es s \<and> CurrFragmentId s = 0 \<and> CurrFragmentList s 0 = Some h \<and>
    (\<exists>l. threads s 0 = Some l \<and> take 1 (frames l) = f0) \<and> (\<exists>l. threads s 1 = Some l \<and> take 1 (frames l) = f1)"
  using assms script_region_run [of env as s0 _ _ s0 "[]"] by (auto simp: demo_view_def intro: region_run.nil)

subsection \<open>Closure under the edges of the schedule\<close>

lemma count_list_0: "x \<notin> set xs \<Longrightarrow> count_list xs x = 0"
  by (induction xs) auto

text \<open>C8. Whatever the program and the interleaving of its threads, at every point of a region the set of
  passed nodes is closed under the edges of the schedule: when thread \<^verbatim>\<open>t\<close> has passed its
  \<^verbatim>\<open>c\<close>-th node and that node has an edge from node \<^verbatim>\<open>ts\<close> of thread \<^verbatim>\<open>u\<close>, the clock of \<^verbatim>\<open>u\<close> has
  reached \<^verbatim>\<open>ts\<close>; and if \<^verbatim>\<open>u\<close> has no nodes to skip, \<^verbatim>\<open>u\<close> has completed \<^verbatim>\<open>ts\<close> operations.\<close>

theorem schedule_closed:
  assumes "region_run env s0 es s" "region_start N s0" "frags_ok stream trm N s" "spawn_ok stream N es" "length es < 2 ^ 32"
    and "c < passed es t" "items_upto stream t (Suc (CurrFragmentId s)) ! c = SyncNode ctx inp E" "(u, ts) \<in> set E"
  shows "c < length (items_upto stream t (Suc (CurrFragmentId s))) \<and> ts \<le> clocked es u \<and> unat (VectorClock s u) = clocked es u \<and>
    ((\<forall>k \<le> CurrFragmentId s. SkipNode \<notin> set (stream k u)) \<longrightarrow> ts \<le> count_list es (u, Advanced))"
proof -
  note G = G_inv_run [OF assms(1-5)]
  then have c: "c < length (items_upto stream t (Suc (CurrFragmentId s)))"
    "item_done (clocked es) (items_upto stream t (Suc (CurrFragmentId s)) ! c)" using assms(6) unfolding G_inv_def by blast+
  then have ts: "ts \<le> clocked es u" using assms(7,8) by (auto simp: item_done_def satisfied_def)
  have "clocked es u < 2 ^ 32" using clocked_le [of es u] assms(5) by simp
  then have "unat (VectorClock s u) = clocked es u" using G by (simp add: G_inv_def unat_of_nat)
  moreover have "count_list es (u, Skipped) = 0" if "\<forall>k \<le> CurrFragmentId s. SkipNode \<notin> set (stream k u)"
    using G that unfolding G_inv_def by (intro count_list_0) blast
  ultimately show ?thesis using c(1) ts by (auto simp: clocked_def)
qed

lemma demo_late: "map_option demo_view
    (script demo_env (demo_script 6 4) (demo_start [SyncNode 1 None []])) =
  Some ([(0, Tau), (0, Tau), (0, Spawned 1 0), (0, Tau), (0, Tau), (0, Tau), (0, Entered), (0, Tau), (0, Tau), (0, Advanced),
    (1, Tau), (1, Tau), (1, Tau), (1, Tau), (1, Tau), (1, Tau), (1, Entered)], 0, Some (demo_schedule [SyncNode 1 None []]), [Some [], Some [SkipLoop]])"
  by code_simp

theorem schedule_closed_witness:
  "\<exists>es (s :: unit rt). region_run demo_env (demo_start [SyncNode 1 None []]) es s \<and> passed es 1 = 1 \<and>
     1 \<le> count_list es (0, Advanced)"
proof -
  obtain es s where r: "region_run demo_env (demo_start [SyncNode 1 None []]) es s" "CurrFragmentId s = 0"
      "CurrFragmentList s 0 = Some (demo_schedule [SyncNode 1 None []])"
    and es: "es = [(0, Tau), (0, Tau), (0, Spawned 1 0), (0, Tau), (0, Tau), (0, Tau), (0, Entered), (0, Tau), (0, Tau), (0, Advanced),
      (1, Tau), (1, Tau), (1, Tau), (1, Tau), (1, Tau), (1, Tau), (1, Entered)]"
    using demo_run [OF demo_late] by blast
  have "region_start 2 (demo_start [SyncNode 1 None []])" by (rule initialize_region_start) simp
  moreover have "frags_ok (demo_stream [SyncNode 1 None []]) (\<lambda>_. 0) 2 s"
    using r by (intro demo_frags_ok) (auto simp: edges_below_def flag_constants(2))
  moreover have "spawn_ok (demo_stream [SyncNode 1 None []]) 2 es" by (auto simp: spawn_ok_def es)
  moreover have "length es < 2 ^ 32" "passed es 1 = 1" by (simp_all add: es passed_def)
  ultimately show ?thesis
    using r schedule_closed [of demo_env "demo_start [SyncNode 1 None []]" es s 2 "demo_stream [SyncNode 1 None []]" "\<lambda>_. 0" 0 1
        1 None "[(0, 1)]" 0 1]
    by (auto simp: items_upto_def demo_stream_def)
qed

subsection \<open>Nodes to skip release their successors early\<close>

lemma demo_early: "map_option demo_view
    (script demo_env (demo_script 4 4) (demo_start [SyncNode 1 None [], SkipNode])) =
  Some ([(0, Tau), (0, Tau), (0, Spawned 1 0), (0, Tau), (0, Tau), (0, Tau), (0, Entered), (0, Skipped),
    (1, Tau), (1, Tau), (1, Tau), (1, Tau), (1, Tau), (1, Tau), (1, Entered)], 0, Some (demo_schedule [SyncNode 1 None [], SkipNode]), [Some [SkipLoop], Some [SkipLoop]])"
  by code_simp


subsection \<open>Waiting for edges does not deadlock\<close>

definition waiting :: "('k, 'z) rt_scheme \<Rightarrow> nat \<Rightarrow> bool" where
  "waiting s t \<longleftrightarrow> (\<exists>l n fs. threads s t = Some l \<and> frames l = EdgeLoop n # fs)"

text \<open>A ranking of the nodes along the edges and the program order: node \<^verbatim>\<open>c\<close> of a thread has the time stamp
  \<^verbatim>\<open>Suc c\<close>. Every edge is from a node of the given fragments.\<close>

definition ranked :: "streams \<Rightarrow> nat \<Rightarrow> nat \<Rightarrow> (nat \<Rightarrow> nat \<Rightarrow> nat) \<Rightarrow> bool" where
  "ranked stream N fid rank \<longleftrightarrow> (\<forall>t < N. mono (rank t) \<and>
     (\<forall>c < length (items_upto stream t (Suc fid)). \<forall>ctx inp E. items_upto stream t (Suc fid) ! c = SyncNode ctx inp E \<longrightarrow>
        (\<forall>(u, ts) \<in> set E. ts \<le> length (items_upto stream u (Suc fid)) \<and> rank u ts < rank t (Suc c))))"

lemma in_edges_items:
  assumes "in_edges stream trm fid clk t l n c" "frags_ok stream trm N s" "fid = CurrFragmentId s" "t < N"
  shows "\<exists>ctx inp es1 es2. c < length (items_upto stream t (Suc fid)) \<and>
    items_upto stream t (Suc fid) ! c = SyncNode ctx inp (es1 @ es2) \<and> length es2 = n \<and>
    (\<forall>u ts es. es2 = (u, ts) # es \<longrightarrow> u < N \<and> ts < 2 ^ 16 \<and>
      sched_word 0 l = Some (int16 u) \<and> sched_word 1 l = Some (int16 ts))"
proof -
  let ?f = "MyThreadCurrScheduleFragment l"
  obtain m ctx inp es1 es2 where m: "?f \<le> fid" "m < length (stream ?f t)" "stream ?f t ! m = SyncNode ctx inp (es1 @ es2)"
      "length es2 = n" "c = before stream t ?f + m"
      "drop (MyThreadSchedulePtr l) (MyThreadSchedule l) = edge_enc es2 @ enc (drop (Suc m) (stream ?f t)) @ [trm ?f]"
    using assms(1) unfolding in_edges_def Let_def by blast
  have it: "item_fits (stream ?f t ! m)" "edges_below N (stream ?f t ! m)"
    using frag_at [OF assms(2) _ assms(4), of ?f] m(1,2) assms(3) by (metis nth_mem)+
  have "u < N \<and> ts < 2 ^ 16 \<and> sched_word 0 l = Some (int16 u) \<and> sched_word 1 l = Some (int16 ts)"
    if "es2 = (u, ts) # es" for u ts es
    unfolding sched_word_drop m(6) using it that m(3) by (auto simp: edge_enc_def edges_below_def)
  moreover have "c < length (items_upto stream t (Suc fid))" "items_upto stream t (Suc fid) ! c = SyncNode ctx inp (es1 @ es2)"
    using items_upto_nth [where stream = stream and t = t and f = ?f and m = m and n = "Suc fid"] m(1-3,5) by auto
  ultimately show ?thesis using m(4) by blast
qed

text \<open>The next edge is satisfied, or the thread it comes from has a node left that it must pass first.\<close>

lemma waiting_step:
  assumes G: "G_inv stream trm N es s" and F: "frags_ok stream trm N s" and "waiting s t" "N \<le> KLEE_MAX_THREADS" "length es < 2 ^ 32"
    and r: "ranked stream N (CurrFragmentId s) rank"
  shows "(\<exists>ev s'. rt_step env t s = Ok (ev, s')) \<or>
    (\<exists>u ts. u < N \<and> clocked es u < ts \<and> ts \<le> length (items_upto stream u (Suc (CurrFragmentId s))) \<and>
       rank u ts < rank t (Suc (passed es t)))"
proof -
  obtain l n fs where l: "threads s t = Some l" "frames l = EdgeLoop n # fs" using assms(3) by (auto simp: waiting_def)
  then have t: "t < N" "T_inv stream trm (CurrFragmentId s) (RegionTicker s) (clocked es) t l (passed es t)"
    using G by (auto simp: G_inv_def)
  have "in_edges stream trm (CurrFragmentId s) (clocked es) t l n (passed es t)" using t(2) by cases (auto simp: l)
  from in_edges_items [OF this F refl t(1)] obtain ctx inp es1 es2
    where e: "passed es t < length (items_upto stream t (Suc (CurrFragmentId s)))"
      "items_upto stream t (Suc (CurrFragmentId s)) ! passed es t = SyncNode ctx inp (es1 @ es2)" "length es2 = n"
      "\<And>u ts es. es2 = (u, ts) # es \<Longrightarrow> u < N \<and> ts < 2 ^ 16 \<and>
        sched_word 0 l = Some (int16 u) \<and> sched_word 1 l = Some (int16 ts)" by blast
  show ?thesis
  proof (cases es2)
    case Nil
    then show ?thesis using e(3) l by (auto simp: rt_step_def)
  next
    case (Cons p es')
    obtain u ts where p: "p = (u, ts)" by (cases p)
    have u: "u < N" "ts < 2 ^ 16" "sched_word 0 l = Some (int16 u)" "sched_word 1 l = Some (int16 ts)"
      using e(4) Cons p by auto
    have "u < 2 ^ 16" using u(1) assms(4) by (simp add: KLEE_MAX_THREADS_def)
    note n16 = unat_int16 [OF this] unat_int16 [OF u(2)]
    have "clocked es u < 2 ^ 32" using clocked_le [of es u] assms(5) by simp
    then have clk: "unat (VectorClock s u) = clocked es u" using G by (simp add: G_inv_def unat_of_nat)
    have L: "LogicalThreadMap s u = u" using G u(1) by (simp add: G_inv_def)
    have w: "unat (ucast (int16 ts) :: u32) = ts" using n16(2) u(2) by (simp add: unsigned_ucast_eq take_bit_nat_eq_self)
    show ?thesis
    proof (cases "ts \<le> clocked es u")
      case True
      then have "\<exists>l'. WaitForHbNode_edge s l (length es') fs = Ok l'"
        using u L w n16(1) assms(4) clk by (simp add: WaitForHbNode_edge_def word_le_nat_alt)
      then show ?thesis using e(3) l Cons by (auto simp: rt_step_def)
    next
      case False
      have "(u, ts) \<in> set (es1 @ es2)" using Cons p by simp
      then have "ts \<le> length (items_upto stream u (Suc (CurrFragmentId s)))" "rank u ts < rank t (Suc (passed es t))"
        using r [unfolded ranked_def, rule_format, OF t(1)] e(1,2) by blast+
      then show ?thesis using False u(1) by auto
    qed
  qed
qed


lemma demo_both: "map_option demo_view
    (script demo_env (demo_script 2 2) (demo_start [SyncNode 1 None []])) =
  Some ([(0, Tau), (0, Tau), (0, Spawned 1 0), (0, Tau), (0, Tau), (0, Tau), (1, Tau), (1, Tau), (1, Tau), (1, Tau), (1, Tau)],
    0, Some (demo_schedule [SyncNode 1 None []]), [Some [EdgeLoop 0], Some [EdgeLoop 1]])"
  by code_simp

lemma waitingI: "threads s t = Some l \<Longrightarrow> take 1 (frames l) = [EdgeLoop n] \<Longrightarrow> waiting s t"
  by (cases "frames l") (auto simp: waiting_def)

lemma demo_ranked: "ranked (demo_stream [SyncNode 1 None []]) 2 0 (\<lambda>t c. c + t)"
  by (auto simp: ranked_def mono_def items_upto_def demo_stream_def less_2_cases_iff)


subsection \<open>A thread that first appears in a later fragment\<close>

definition late_schedule :: "nat \<Rightarrow> HBSchedule" where
  "late_schedule k = (if k = 0
     then \<lparr> numThreads = 1, nextThreadLeaderId = 0, nextScheduleSelectorId = 1, exitsProgramFlag = 0,
       threadSchedules = [[EndFragmentSentinal]] \<rparr>
     else \<lparr> numThreads = 2, nextThreadLeaderId = 0, nextScheduleSelectorId = 0, exitsProgramFlag = 0,
       threadSchedules = [[0], enc [SkipNode] @ [0]] \<rparr>)"

definition late_env :: "(unit, unit) rtenv" where
  "late_env = demo_env\<lparr> schedule_selectors := (\<lambda>k _. Some (late_schedule k)) \<rparr>"

definition late_script :: "unit act list" where
  "late_script = [Run 0, Run 0, Create 0 1, Call 0 [FragLoop], Run 0] @ replicate 7 (Run 1)"

lemma late_run: "map_option (\<lambda>(es, s). (es, CurrFragmentId s, CurrFragmentList s 1, unat (VectorClock s 1)))
    (script late_env late_script (klee_ics_initialize (late_schedule 0))) =
  Some ([(0, Tau), (0, Tau), (0, Spawned 1 0), (0, Tau), (0, Tau), (1, Tau), (1, Tau), (1, Tau), (1, Skipped), (1, Tau), (1, Tau),
    (1, Skipped)], 1, Some (late_schedule 1), 2)"
  by code_simp


end
