(* ===== verification/Execution.thy ===== *)
theory Execution
  imports Runtime_Order
begin

text \<open>
  The encoder, the scheduling core and the happens-before graph together: a region whose fragments were
  emitted by \<^verbatim>\<open>DumpScheduleFragments\<close> from consecutive ranges of one graph. The nodes that the threads
  have passed are a consistent cut of the graph.
\<close>

subsection \<open>The fragments of a region\<close>

definition fragment_path ::
  "('i, 'o) instr \<Rightarrow> nat \<Rightarrow> (ThreadUid, 'i list, 'o) hbnode fstate \<Rightarrow> (nat \<Rightarrow> 'o ScheduleFragment) \<Rightarrow> ('k, 'z) rt_scheme \<Rightarrow> bool" where
  "fragment_path I g st frag s \<longleftrightarrow>
     (\<forall>k \<le> CurrFragmentId s. hbGraph (frag k) = g \<and>
        firstNodeId (frag k) = (if k = 0 then 1 else Suc (lastNodeId (frag (k - 1)))) \<and>
        firstNodeId (frag k) \<le> Suc (lastNodeId (frag k)) \<and>
        (\<exists>h. CurrFragmentList s k = Some h \<and> DumpScheduleFragment I (frag k) st = Some h))"

definition frag_stream ::
  "('i, 'o) instr \<Rightarrow> (nat \<Rightarrow> 'o ScheduleFragment) \<Rightarrow> (ThreadUid, 'i list, 'o) hbnode list \<Rightarrow> streams" where
  "frag_stream I frag ns k t = thread_items I (frag k) ns (ThreadUid t 2)"

definition frag_trm :: "(nat \<Rightarrow> 'o ScheduleFragment) \<Rightarrow> 'n list \<Rightarrow> nat \<Rightarrow> u16" where
  "frag_trm frag ns k = (if lastNodeId (frag k) = length ns then 0 else EndFragmentSentinal)"

lemma dump_threads_nth:
  "dump_threads I frag ts st = Some ws \<Longrightarrow> length ws = length ts \<and>
     (\<forall>i < length ts. DumpThreadSchedule I frag (ThreadUid (ts ! i) 2) st = Some (ws ! i))"
  by (induction ts arbitrary: ws) (auto simp: nth_Cons less_Suc_eq_0_disj)

lemma max_thread_spec:
  assumes "ft_inv st" "ft_abs st g = Some ns" "k \<le> length ns" "max_thread g k mx st = Some M"
  shows "mx \<le> M \<and> (\<forall>i < k. utid (tuid (ns ! i)) \<le> M \<and> upid (tuid (ns ! i)) = 2)"
  using assms(3,4)
proof (induction k arbitrary: mx)
  case (Suc k)
  then have "max_thread g k (max mx (utid (tuid (ns ! k)))) st = Some M" "upid (tuid (ns ! k)) = 2"
    by (auto simp: hb_getNode_spec [OF assms(1,2)] split: if_splits)
  with Suc.IH Suc.prems(1) show ?case by (fastforce simp: less_Suc_eq)
qed simp

lemma DumpScheduleFragment_spec:
  assumes "ft_inv st" "ft_abs st (hbGraph frag) = Some ns" "DumpScheduleFragment I frag st = Some h"
    "max_thread (hbGraph frag) (length ns) 0 st = Some M" "Suc M < 2 ^ 16" "t \<le> M"
  shows "t < unat (numThreads h) \<and> DumpThreadSchedule I frag (ThreadUid t 2) st = Some (threadSchedules h ! t)"
proof -
  obtain ts where ts: "dump_threads I frag [0..<M + 1] st = Some ts" "threadSchedules h = ts"
      "numThreads h = int16 (M + 1)"
    using assms(3,4) ft_abs_size [OF assms(1,2)] by (auto simp: DumpScheduleFragment_def split: if_splits)
  then show ?thesis
    using dump_threads_nth [OF ts(1)] unat_int16 [OF assms(5)] assms(6) by (auto simp: less_Suc_eq_le simp del: upt_Suc)
qed

lemma item_of_edges_below:
  assumes "graph_ok ns" "n \<in> set ns" "\<forall>i < length ns. utid (tuid (ns ! i)) \<le> M"
  shows "edges_below (Suc M) (item_of I frag ns n)"
proof -
  obtain i where i: "i < length ns" "n = ns ! i" using assms(2) by (auto simp: in_set_conv_nth)
  have "k - 1 < length ns" if "k \<in> set (incoming n)" for k
    using assms(1) i that by (fastforce simp: graph_ok_def edges_ok_def)
  then have "\<forall>(u, ts) \<in> set (edges_of ns n). u < Suc M"
    using assms(3) by (auto simp: edges_of_def less_Suc_eq_le)
  then show ?thesis by (auto simp: item_of_def edges_below_def Let_def split: option.splits)
qed

lemma path_range: "fragment_path I g st frag s \<Longrightarrow> k \<le> CurrFragmentId s \<Longrightarrow> 1 \<le> firstNodeId (frag k) \<and> firstNodeId (frag k) \<le> Suc (lastNodeId (frag k))"
  by (auto simp: fragment_path_def)

lemma path_mono:
  assumes "fragment_path I g st frag s" "j \<le> k" "k \<le> CurrFragmentId s"
  shows "lastNodeId (frag j) \<le> lastNodeId (frag k)"
  using assms(2,3)
proof (induction k)
  case (Suc k)
  have "firstNodeId (frag (Suc k)) = Suc (lastNodeId (frag k))" "firstNodeId (frag (Suc k)) \<le> Suc (lastNodeId (frag (Suc k)))"
    using assms(1) Suc.prems(2) by (auto simp: fragment_path_def)
  then show ?case using Suc by (auto simp: le_Suc_eq)
qed simp

text \<open>The emitted tables are what the scheduling core expects.\<close>

lemma path_frags_ok:
  assumes "ft_inv st" "ft_abs st g = Some ns" "graph_ok ns" "short_ok (ctxs I)"
    "max_thread g (length ns) 0 st = Some M" "Suc M < 2 ^ 16" "fragment_path I g st frag s"
    "\<forall>k \<le> CurrFragmentId s. inputs_ok (frag k)" "lastNodeId (frag (CurrFragmentId s)) \<le> length ns"
  shows "frags_ok (frag_stream I frag ns) (frag_trm frag ns) (Suc M) s"
  unfolding frags_ok_def
proof (intro allI impI)
  fix k assume k: "k \<le> CurrFragmentId s"
  obtain h where h: "CurrFragmentList s k = Some h" "DumpScheduleFragment I (frag k) st = Some h" and g: "hbGraph (frag k) = g"
    using assms(7) k by (auto simp: fragment_path_def)
  have r: "range_ok (frag k) ns"
    using path_range [OF assms(7) k] path_mono [OF assms(7) k] assms(9) by (simp add: range_ok_def)
  have "t < unat (numThreads h) \<and> threadSchedules h ! t = enc (frag_stream I frag ns k t) @ [frag_trm frag ns k] \<and>
      (\<forall>it \<in> set (frag_stream I frag ns k t). item_fits it \<and> edges_below (Suc M) it)" if "t < Suc M" for t
  proof -
    have d: "t < unat (numThreads h)" "DumpThreadSchedule I (frag k) (ThreadUid t 2) st = Some (threadSchedules h ! t)"
      using DumpScheduleFragment_spec [OF assms(1) _ h(2) _ assms(6)] assms(2,5) g that by auto
    have "edges_below (Suc M) it" if "it \<in> set (frag_stream I frag ns k t)" for it
      using that max_thread_spec [OF assms(1,2) order_refl assms(5)] item_of_edges_below [OF assms(3)]
      by (auto simp: frag_stream_def thread_items_def dest!: in_set_takeD in_set_dropD)
    then show ?thesis
      using d DumpThreadSchedule_encode [OF assms(1) _ assms(4) _ r d(2)] assms(2,8) g k
      by (simp add: frag_stream_def frag_trm_def enc_def)
  qed
  then show "frag_trm frag ns k \<in> {0, EndFragmentSentinal} \<and> (\<exists>h. CurrFragmentList s k = Some h \<and>
      (\<forall>t < Suc M. t < unat (numThreads h) \<and> threadSchedules h ! t = enc (frag_stream I frag ns k t) @ [frag_trm frag ns k] \<and>
         (\<forall>it \<in> set (frag_stream I frag ns k t). item_fits it \<and> edges_below (Suc M) it)))"
    using h(1) by (auto simp: frag_trm_def)
qed

subsection \<open>Nodes and items\<close>

lemma thread_count_filter: "thread_count u ns = length (filter (\<lambda>n. tuid n = u) ns)"
  by (induction ns) (auto simp: thread_count_def)

lemma length_frag_stream:
  "length (frag_stream I frag ns k t) =
     thread_count (ThreadUid t 2) (take (Suc (lastNodeId (frag k)) - firstNodeId (frag k)) (drop (firstNodeId (frag k) - 1) ns))"
  by (simp add: frag_stream_def thread_items_def thread_count_filter)

lemma thread_count_append [simp]: "thread_count u (xs @ ys) = thread_count u xs + thread_count u ys"
  by (simp add: thread_count_def)

lemma path_before:
  assumes "fragment_path I g st frag s" "k \<le> CurrFragmentId s"
  shows "before (frag_stream I frag ns) t k = thread_count (ThreadUid t 2) (take (firstNodeId (frag k) - 1) ns)"
  using assms(2)
proof (induction k)
  case 0
  have "firstNodeId (frag 0) = 1" using assms(1) by (simp add: fragment_path_def)
  then show ?case by (simp add: thread_count_def)
next
  case (Suc k)
  have f: "firstNodeId (frag (Suc k)) = Suc (lastNodeId (frag k))" using assms(1) Suc.prems by (simp add: fragment_path_def)
  have r: "1 \<le> firstNodeId (frag k)" "firstNodeId (frag k) \<le> Suc (lastNodeId (frag k))" using path_range [OF assms(1)] Suc.prems by auto
  have "take (lastNodeId (frag k)) ns = take (firstNodeId (frag k) - 1) ns @
      take (Suc (lastNodeId (frag k)) - firstNodeId (frag k)) (drop (firstNodeId (frag k) - 1) ns)"
    using r take_add [of "firstNodeId (frag k) - 1" "Suc (lastNodeId (frag k)) - firstNodeId (frag k)" ns] by simp
  then show ?case using Suc by (simp add: before_Suc length_frag_stream f)
qed

lemma path_find:
  assumes "fragment_path I g st frag s" "K \<le> CurrFragmentId s" "i < lastNodeId (frag K)"
  shows "\<exists>k \<le> K. firstNodeId (frag k) \<le> Suc i \<and> i < lastNodeId (frag k)"
  using assms(2,3)
proof (induction K)
  case 0
  then show ?case using assms(1) by (auto simp: fragment_path_def)
next
  case (Suc K)
  have f: "firstNodeId (frag (Suc K)) = Suc (lastNodeId (frag K))" using assms(1) Suc.prems by (simp add: fragment_path_def)
  show ?case
  proof (cases "i < lastNodeId (frag K)")
    case True
    then show ?thesis using Suc le_SucI by (meson Suc_leD)
  next
    case False
    then show ?thesis using f Suc.prems(2) by (intro exI [of _ "Suc K"]) simp
  qed
qed

lemma filter_nth_count:
  "j < length xs \<Longrightarrow> tuid (xs ! j) = u \<Longrightarrow>
     filter (\<lambda>n. tuid n = u) xs ! thread_count u (take j xs) = xs ! j \<and> thread_count u (take j xs) < thread_count u xs"
proof (induction xs arbitrary: j)
  case (Cons x xs)
  then show ?case by (cases j) (auto simp: thread_count_def)
qed simp

text \<open>The item of a node stands at the place that its order in its thread says.\<close>

lemma path_item:
  assumes path: "fragment_path I g st frag s" and "lastNodeId (frag (CurrFragmentId s)) \<le> length ns"
    and ord: "orders_ok ns" and i: "i < lastNodeId (frag (CurrFragmentId s))" "tuid (ns ! i) = ThreadUid t 2"
  shows "\<exists>k \<le> CurrFragmentId s. firstNodeId (frag k) \<le> Suc i \<and> i < lastNodeId (frag k) \<and> 1 \<le> threadOrder (ns ! i) \<and>
    items_upto (frag_stream I frag ns) t (Suc (CurrFragmentId s)) ! (threadOrder (ns ! i) - 1) = item_of I (frag k) ns (ns ! i)"
proof -
  let ?u = "ThreadUid t 2"
  obtain k where k: "k \<le> CurrFragmentId s" "firstNodeId (frag k) \<le> Suc i" "i < lastNodeId (frag k)"
    using path_find [OF path order_refl i(1)] by blast
  let ?p = "firstNodeId (frag k) - 1"
  define xs where "xs = take (Suc (lastNodeId (frag k)) - firstNodeId (frag k)) (drop ?p ns)"
  define m where "m = thread_count ?u (take (i - ?p) xs)"
  have r: "1 \<le> firstNodeId (frag k)" using path_range [OF path k(1)] by simp
  have last: "lastNodeId (frag k) \<le> length ns" using path_mono [OF path k(1) order_refl] assms(2) by simp
  have xs: "i - ?p < length xs" "xs ! (i - ?p) = ns ! i" "take (i - ?p) xs = take (i - ?p) (drop ?p ns)"
    using k r last by (auto simp: nth_take nth_drop xs_def)
  have "take i ns = take ?p ns @ take (i - ?p) (drop ?p ns)" using k(2) r take_add [of ?p "i - ?p" ns] by simp
  then have c: "thread_count ?u (take i ns) = before (frag_stream I frag ns) t k + m"
    using xs(3) path_before [OF path k(1)] by (simp add: m_def)
  have f: "frag_stream I frag ns k t = map (item_of I (frag k) ns) (filter (\<lambda>n. tuid n = ?u) xs)"
    by (simp add: frag_stream_def thread_items_def xs_def)
  have "filter (\<lambda>n. tuid n = ?u) xs ! m = ns ! i" "m < length (filter (\<lambda>n. tuid n = ?u) xs)"
    using filter_nth_count [OF xs(1), of ?u] xs(2) i(2) by (auto simp: m_def thread_count_filter [symmetric])
  then have m: "m < length (frag_stream I frag ns k t)" "frag_stream I frag ns k t ! m = item_of I (frag k) ns (ns ! i)"
    by (simp_all add: f)
  have "threadOrder (ns ! i) = Suc (thread_count ?u (take i ns))"
    using ord i last k(3) by (simp add: orders_ok_def take_Suc_conv_app_nth thread_count_def)
  then show ?thesis
    using k c items_upto_nth [where stream = "frag_stream I frag ns" and f = k and t = t and m = m and n = "Suc (CurrFragmentId s)"] m
    by auto
qed

text \<open>What the assertions of \<^verbatim>\<open>DumpThreadSchedule\<close> establish: a predecessor in the same thread is earlier, and
  an ignored input has no other predecessors.\<close>

lemma dump_node_preds:
  assumes "ft_inv st" "ft_abs st (hbGraph frag) = Some ns"
    and "dump_node I frag (lastNodeId frag = length ns) n st = Some ws" "e \<in> set (incoming n)"
  shows "(tuid (ns ! (e - 1)) = tuid n \<longrightarrow> threadOrder (ns ! (e - 1)) < threadOrder n) \<and>
    (item_of I frag ns n = SkipNode \<longrightarrow> tuid (ns ! (e - 1)) = tuid n)"
proof -
  have p: "ns ! (e - 1) \<in> set ps" if "pred_nodes (hbGraph frag) (incoming n) st = Some ps" for ps
    using pred_nodes_spec [OF assms(1,2) that] assms(4) by auto
  show ?thesis
    using assms(3) p by (auto simp: dump_node_def emit_node_def item_of_def Let_def split: option.splits if_splits)
qed

lemma dump_nodes_each: "dump_nodes I frag b ns st = Some ws \<Longrightarrow> n \<in> set ns \<Longrightarrow> \<exists>v. dump_node I frag b n st = Some v"
  by (induction ns arbitrary: ws) auto

lemma DumpThreadSchedule_preds:
  assumes "ft_inv st" "ft_abs st (hbGraph frag) = Some ns" "range_ok frag ns" "DumpThreadSchedule I frag u st = Some ws"
    and i: "firstNodeId frag \<le> Suc i" "i < lastNodeId frag" "tuid (ns ! i) = u" "e \<in> set (incoming (ns ! i))"
  shows "(tuid (ns ! (e - 1)) = u \<longrightarrow> threadOrder (ns ! (e - 1)) < threadOrder (ns ! i)) \<and>
    (item_of I frag ns (ns ! i) = SkipNode \<longrightarrow> tuid (ns ! (e - 1)) = u)"
proof -
  obtain tr where tr: "traces st (hbGraph frag) = Some tr" "ns = contents tr st"
    using assms(2) by (auto simp: ft_abs_Some)
  let ?xs = "take (Suc (lastNodeId frag) - firstNodeId frag) (drop (firstNodeId frag - 1) ns)"
  have "threadOrderRange u (firstNodeId frag) (lastNodeId frag) (segments tr st) = Some (filter (\<lambda>n. tuid n = u) ?xs)"
    using assms(3) concat_segments [OF assms(1) tr(1)] tr(2)
    by (subst threadOrderRange_spec) (auto simp: range_ok_def)
  then have d: "\<exists>ws. dump_nodes I frag (lastNodeId frag = length ns) (filter (\<lambda>n. tuid n = u) ?xs) st = Some ws"
    using assms(4) tr(1) ft_abs_size [OF assms(1,2)] by (auto simp: DumpThreadSchedule_def Let_def)
  have "i - (firstNodeId frag - 1) < length ?xs" "?xs ! (i - (firstNodeId frag - 1)) = ns ! i"
    using assms(3) i by (auto simp: range_ok_def nth_take nth_drop)
  then have "ns ! i \<in> set ?xs" by (metis nth_mem)
  then have "ns ! i \<in> set (filter (\<lambda>n. tuid n = u) ?xs)" using i(3) by simp
  then obtain v where "dump_node I frag (lastNodeId frag = length ns) (ns ! i) st = Some v" using d dump_nodes_each by blast
  from dump_node_preds [OF assms(1,2) this i(4)] show ?thesis using i(3) by simp
qed

subsection \<open>Consistent cuts\<close>

definition passed_node :: "(nat \<times> event) list \<Rightarrow> (ThreadUid, 'c, 'o) hbnode list \<Rightarrow> nat \<Rightarrow> bool" where
  "passed_node es ns i \<longleftrightarrow> threadOrder (ns ! i) \<le> passed es (utid (tuid (ns ! i)))"

text \<open>A region run over the tables emitted for the graph \<^verbatim>\<open>g\<close> with the nodes \<^verbatim>\<open>ns\<close> and the threads up to \<^verbatim>\<open>M\<close>.\<close>

definition graph_run :: "('i, 'o) instr \<Rightarrow> nat \<Rightarrow> (ThreadUid, 'i list, 'o) hbnode fstate \<Rightarrow> (ThreadUid, 'i list, 'o) hbnode list \<Rightarrow>
    nat \<Rightarrow> (nat \<Rightarrow> 'o ScheduleFragment) \<Rightarrow> ('k, 'z) rtenv \<Rightarrow> ('k, 'z) rt_scheme \<Rightarrow> (nat \<times> event) list \<Rightarrow> ('k, 'z) rt_scheme \<Rightarrow> bool" where
  "graph_run I g st ns M frag env s0 es s \<longleftrightarrow>
     ft_inv st \<and> ft_abs st g = Some ns \<and> graph_ok ns \<and> short_ok (ctxs I) \<and>
     max_thread g (length ns) 0 st = Some M \<and> Suc M < 2 ^ 16 \<and>
     fragment_path I g st frag s \<and> (\<forall>k \<le> CurrFragmentId s. inputs_ok (frag k)) \<and>
     lastNodeId (frag (CurrFragmentId s)) \<le> length ns \<and>
     region_start (Suc M) s0 \<and> region_run env s0 es s \<and> spawn_ok (frag_stream I frag ns) (Suc M) es \<and> length es < 2 ^ 32"

lemma graph_run_inv:
  assumes "graph_run I g st ns M frag env s0 es s"
  shows "G_inv (frag_stream I frag ns) (frag_trm frag ns) (Suc M) es s"
  using assms path_frags_ok [of st g ns I M frag s] by (intro G_inv_run [of env s0]) (auto simp: graph_run_def)

text \<open>The nodes passed lie in the ranges of the fragments selected so far.\<close>

lemma passed_in_path:
  assumes "graph_run I g st ns M frag env s0 es s" "i < length ns" "passed_node es ns i"
  shows "i < lastNodeId (frag (CurrFragmentId s))"
proof (rule ccontr)
  let ?K = "CurrFragmentId s" let ?t = "utid (tuid (ns ! i))"
  assume "\<not> i < lastNodeId (frag ?K)"
  then have le: "lastNodeId (frag ?K) \<le> i" by simp
  have path: "fragment_path I g st frag s" and ord: "orders_ok ns" using assms(1) by (auto simp: graph_run_def graph_ok_def)
  have u: "tuid (ns ! i) = ThreadUid ?t 2"
    using max_thread_spec [of st g ns "length ns" 0 M] assms(1,2) by (auto simp: graph_run_def intro: ThreadUid.expand)
  have o: "threadOrder (ns ! i) = Suc (thread_count (ThreadUid ?t 2) (take i ns))"
    using ord assms(2) u by (simp add: orders_ok_def take_Suc_conv_app_nth thread_count_def)
  then have "thread_count (ThreadUid ?t 2) (take i ns) < length (items_upto (frag_stream I frag ns) ?t (Suc ?K))"
    using graph_run_inv [OF assms(1)] assms(3) unfolding G_inv_def passed_node_def by auto
  also have "\<dots> = before (frag_stream I frag ns) ?t (Suc ?K)" by (simp add: before_def)
  also have "\<dots> = thread_count (ThreadUid ?t 2) (take (lastNodeId (frag ?K)) ns)"
  proof -
    have r: "1 \<le> firstNodeId (frag ?K)" "firstNodeId (frag ?K) \<le> Suc (lastNodeId (frag ?K))"
      using path_range [OF path order_refl] by auto
    then show ?thesis
      using take_add [of "firstNodeId (frag ?K) - 1" "Suc (lastNodeId (frag ?K)) - firstNodeId (frag ?K)" ns]
      by (simp add: before_Suc path_before [OF path order_refl] length_frag_stream)
  qed
  also have "\<dots> \<le> thread_count (ThreadUid ?t 2) (take i ns)"
    using le take_add [of "lastNodeId (frag ?K)" "i - lastNodeId (frag ?K)" ns] by simp
  finally show False by simp
qed

lemma pred_passed:
  assumes run: "graph_run I g st ns M frag env s0 es s" and i: "i < length ns" "passed_node es ns i" "e \<in> set (incoming (ns ! i))"
  shows "if tuid (ns ! (e - 1)) = tuid (ns ! i) then threadOrder (ns ! (e - 1)) < threadOrder (ns ! i)
    else threadOrder (ns ! (e - 1)) \<le> clocked es (utid (tuid (ns ! (e - 1))))"
proof -
  let ?t = "utid (tuid (ns ! i))" let ?items = "items_upto (frag_stream I frag ns) ?t (Suc (CurrFragmentId s))"
  have st: "ft_inv st" "ft_abs st g = Some ns" and path: "fragment_path I g st frag s" and ord: "orders_ok ns"
    and mx: "max_thread g (length ns) 0 st = Some M" "Suc M < 2 ^ 16" and len: "lastNodeId (frag (CurrFragmentId s)) \<le> length ns"
    using run by (auto simp: graph_run_def graph_ok_def)
  have u: "tuid (ns ! i) = ThreadUid ?t 2" "?t \<le> M"
    using max_thread_spec [OF st order_refl mx(1)] i(1) by (auto intro: ThreadUid.expand)
  obtain k where k: "k \<le> CurrFragmentId s" "firstNodeId (frag k) \<le> Suc i" "i < lastNodeId (frag k)" "1 \<le> threadOrder (ns ! i)"
      "?items ! (threadOrder (ns ! i) - 1) = item_of I (frag k) ns (ns ! i)"
    using path_item [OF path len ord passed_in_path [OF run i(1,2)] u(1)] by blast
  obtain h where h: "DumpScheduleFragment I (frag k) st = Some h" "hbGraph (frag k) = g" using path k(1) by (auto simp: fragment_path_def)
  have r: "range_ok (frag k) ns" using path_range [OF path k(1)] path_mono [OF path k(1)] len by (simp add: range_ok_def)
  have d: "DumpThreadSchedule I (frag k) (ThreadUid ?t 2) st = Some (threadSchedules h ! ?t)"
    using DumpScheduleFragment_spec [OF st(1) _ h(1) _ mx(2) u(2)] st(2) mx(1) h(2) by simp
  note p = DumpThreadSchedule_preds [OF st(1) _ r d k(2,3) u(1) i(3)]
  have "threadOrder (ns ! i) - 1 < passed es ?t" using i(2) k(4) by (simp add: passed_node_def)
  then have dn: "item_done (clocked es) (item_of I (frag k) ns (ns ! i))"
    using graph_run_inv [OF run] k(5) unfolding G_inv_def by metis
  show ?thesis
  proof (cases "tuid (ns ! (e - 1)) = tuid (ns ! i)")
    case True
    then show ?thesis using p st(2) h(2) u(1) by simp
  next
    case False
    then obtain ctx inp where "item_of I (frag k) ns (ns ! i) = SyncNode ctx inp (edges_of ns (ns ! i))"
      using p st(2) h(2) u(1) by (auto simp: item_of_def Let_def split: option.splits if_splits)
    moreover have "(utid (tuid (ns ! (e - 1))), threadOrder (ns ! (e - 1))) \<in> set (edges_of ns (ns ! i))"
      using False i(3) by (auto simp: edges_of_def)
    ultimately show ?thesis using dn False by (auto simp: item_done_def satisfied_def)
  qed
qed


subsection \<open>An execution\<close>

text \<open>The graph with two threads of \<^verbatim>\<open>Schedule_Table\<close>, its schedule, and a run of it.\<close>

definition exec_schedule :: HBSchedule where
  "exec_schedule = \<lparr> numThreads = 2, nextThreadLeaderId = 0, nextScheduleSelectorId = 0, exitsProgramFlag = 0,
     threadSchedules = [[1, 0, 0], [2, 1, 0, 1, 0xfffe, 0]] \<rparr>"

definition exec_env :: "(unit, unit) rtenv" where
  "exec_env = Runtime_Order.demo_env\<lparr> callctx_table := [0, 0, 0] \<rparr>"

lemma exec_node:
  "hb_getNode 0 k demo_store = (if k \<noteq> 0 \<and> k \<le> 3 then Some (demo_nodes ! (k - 1)) else None)"
  using hb_getNode_spec [OF demo_facts(1,2), of k] by (simp add: demo_frag_def demo_nodes_def)

lemma exec_dump:
  "max_thread 0 3 0 demo_store = Some 1" "DumpScheduleFragment demo_instr demo_frag demo_store = Some exec_schedule"
proof -
  show m: "max_thread 0 3 0 demo_store = Some 1"
    by (simp add: eval_nat_numeral exec_node) (simp add: demo_nodes_def)
  have "hb_size 0 demo_store = Some 3" by (simp add: hb_size_def demo_store_def store_of_def demo_nodes_def)
  moreover have "hbGraph demo_frag = 0" by (simp add: demo_frag_def)
  ultimately show "DumpScheduleFragment demo_instr demo_frag demo_store = Some exec_schedule"
    using m demo_dump exec_node [of 3]
    by (simp add: DumpScheduleFragment_def exec_schedule_def)
      (simp add: demo_frag_def int16_def)
qed

lemma exec_script: "map_option demo_view (script exec_env (demo_script 6 4) (klee_ics_initialize exec_schedule)) =
  Some ([(0, Tau), (0, Tau), (0, Spawned 1 0), (0, Tau), (0, Tau), (0, Tau), (0, Entered), (0, Tau), (0, Tau), (0, Advanced),
    (1, Tau), (1, Tau), (1, Tau), (1, Tau), (1, Tau), (1, Tau), (1, Entered)], 0, Some exec_schedule, [Some [], Some [SkipLoop]])"
  by code_simp

lemma exec_graph_ok: "graph_ok demo_nodes"
  by (auto simp: graph_ok_def orders_ok_def chain_ok_def edges_ok_def demo_nodes_def thread_count_def last_of_def
      nth_Cons' less_Suc_eq numeral_3_eq_3 split: if_splits)


end
