(* ===== verification/Runtime_Sync.thy ===== *)
theory Runtime_Sync
  imports Runtime_Safety
begin

text \<open>
  The pthreads interface of the constrained execution runtime
  (\<^verbatim>\<open>runtime/ConstrainedExec/lib.cpp\<close>): inputs, the stack variable log, threads, mutexes, condition
  variables, barriers and semaphores, and the spin locks used by uClibc.

  An operation is a list of frames that its caller pushes; between two waiting points its code is one
  step (\<^verbatim>\<open>client_step\<close>), which the source justifies with the absence of data races. A frame
  \<^verbatim>\<open>User\<close> stands for code of the program that an operation calls (an initialiser, a cleanup
  handler); it may use the interface itself.
\<close>

subsection \<open>Objects\<close>

record mutex =
  m_owner :: nat
  m_queued :: u32
  m_taken :: bool

record cond =
  c_mutex :: nat
  c_queued :: u32

record barrier =
  b_init_count :: u32
  b_left :: u32

record thread_data =
  td_initial_fragment_id :: nat
  td_wait_slot :: u32
  td_return_value :: int
  td_cleanup_stack :: "nat list"
  td_allocated :: bool
  td_terminated :: bool
  td_joinable :: bool
  td_hasjoiner :: bool

definition zero_thread_data :: thread_data where
  "zero_thread_data = \<lparr> td_initial_fragment_id = 0, td_wait_slot = 0, td_return_value = 0, td_cleanup_stack = [],
     td_allocated = False, td_terminated = False, td_joinable = False, td_hasjoiner = False \<rparr>"

definition zero_mutex :: mutex where
  "zero_mutex = \<lparr> m_owner = 0, m_queued = 0, m_taken = False \<rparr>"

text \<open>Return values.\<close>

definition EPERM :: int where "EPERM = 1"
definition ESRCH :: int where "ESRCH = 3"
definition EAGAIN :: int where "EAGAIN = 11"
definition EBUSY :: int where "EBUSY = 16"
definition EINVAL :: int where "EINVAL = 22"
definition EDEADLK :: int where "EDEADLK = 35"
definition PTHREAD_BARRIER_SERIAL_THREAD :: int where "PTHREAD_BARRIER_SERIAL_THREAD = -1"
definition SEM_VALUE_MAX :: nat where "SEM_VALUE_MAX = 32000"

text \<open>Points of the interface functions at which a thread continues. Objects are named by their
  addresses.\<close>

datatype pk =
    User | Dead | Return int | TakeSlot
  | LockEntry nat bool | LockTake nat | UnlockStart nat
  | MutexInit nat | CondInit nat | CondWait nat nat | Notify nat bool
  | BarrierInit nat u32 | BarrierWait nat | BarrierCheck nat "u16 list" nat | BarrierEnd int
  | SemInit nat nat | SemDown nat bool | SemUp nat
  | CreateSlot | CreateInit nat | CreateSpawn nat
  | ExitCleanup int | ExitPop int "nat list" | ExitMark int | ExitDone
  | JoinCheck nat | JoinDone nat
  | JoinAllFirst | JoinAllLoop | JoinAllExit | JoinAllNext | JoinAllSpin
  | DetachStart nat | DetachCheck nat
  | OnceCheck nat | OnceDone nat
  | CleanupPush nat | CleanupPop bool "nat list" | CleanupSet "nat list"
  | InputNode "8 word list" | InputLog "8 word list"
  | BeginCheck | InitialSync | InitialDone
  | LogStackvar nat nat u64 nat

record sync = "pk rt" +
  mutexes :: "nat \<Rightarrow> mutex"
  conds :: "nat \<Rightarrow> cond"
  barriers :: "nat \<Rightarrow> barrier"
  sems :: "nat \<Rightarrow> u32"
  onces :: "nat \<Rightarrow> int"
  tdata :: "nat \<Rightarrow> thread_data"
  live_threads :: u32
  results :: "nat \<Rightarrow> int"

type_synonym sync_env = "(pk, unit sync_ext) rtenv"

subsection \<open>Small operations on the state\<close>

definition set_mutex :: "nat \<Rightarrow> mutex \<Rightarrow> sync \<Rightarrow> sync" where
  "set_mutex a m s = s\<lparr> mutexes := (mutexes s)(a := m) \<rparr>"

definition set_tdata :: "nat \<Rightarrow> thread_data \<Rightarrow> sync \<Rightarrow> sync" where
  "set_tdata k d s = s\<lparr> tdata := (tdata s)(k := d) \<rparr>"

definition set_result :: "nat \<Rightarrow> int \<Rightarrow> sync \<Rightarrow> sync" where
  "set_result t r s = s\<lparr> results := (results s)(t := r) \<rparr>"

definition TakeNextWaitSlot :: "nat \<Rightarrow> sync \<Rightarrow> sync" where
  "TakeNextWaitSlot t s =
     (set_tdata t ((tdata s t)\<lparr> td_wait_slot := NextWaitSlot s \<rparr>) s)\<lparr> NextWaitSlot := NextWaitSlot s + 1 \<rparr>"

text \<open>The part of \<^verbatim>\<open>dounlock\<close> before its synchronisation node; None if the caller does not hold
  the mutex.\<close>

definition dounlock :: "nat \<Rightarrow> nat \<Rightarrow> sync \<Rightarrow> sync option" where
  "dounlock t a s =
     (let m = mutexes s a in
      if \<not> m_taken m \<or> m_owner m \<noteq> t then None
      else Some (set_mutex a (m\<lparr> m_taken := False, m_queued := (if m_queued m > 0 then m_queued m - 1 else m_queued m) \<rparr>) s))"

definition free_slot :: "sync \<Rightarrow> nat option" where
  "free_slot s = List.find (\<lambda>i. \<not> td_allocated (tdata s i)) [0..<KLEE_MAX_THREADS]"

definition lookupvar :: "nat \<Rightarrow> nat \<Rightarrow> nat \<Rightarrow> ('k, 'z) rt_scheme \<Rightarrow> nat" where
  "lookupvar bits logical_tid oid s = stackvars s bits (LogReadIndex s) (LogicalThreadMap s logical_tid) oid"

definition logvar :: "nat \<Rightarrow> nat \<Rightarrow> nat \<Rightarrow> nat \<Rightarrow> ('k, 'z) rt_scheme \<Rightarrow> ('k, 'z) rt_scheme" where
  "logvar bits t oid val s =
     s\<lparr> stackvars := (stackvars s)(bits := (stackvars s bits)(LogCurrIndex :=
         (stackvars s bits LogCurrIndex)(t := (stackvars s bits LogCurrIndex t)(oid := val)))) \<rparr>"

subsection \<open>The interface functions as frames\<close>

abbreviation must_exist :: "'k frame list" where
  "must_exist \<equiv> call_WaitForHbNodeMustExist False False"

abbreviation sync_op :: "bool \<Rightarrow> 'k frame list" where
  "sync_op canSleep \<equiv> call_DoOneSyncOpMustExist canSleep False"

definition dolock :: "nat \<Rightarrow> bool \<Rightarrow> pk frame list" where
  "dolock a istry = must_exist @ [Client (LockEntry a istry)]"

datatype api =
    pthread_mutex_init nat | pthread_mutex_lock nat | pthread_mutex_trylock nat | pthread_mutex_unlock nat
  | pthread_cond_init nat | pthread_cond_wait nat nat | pthread_cond_broadcast nat | pthread_cond_signal nat
  | pthread_barrier_init nat u32 | pthread_barrier_wait nat
  | sem_init nat nat | sem_wait nat | sem_trywait nat | sem_post nat
  | pthread_create | pthread_exit int | pthread_join nat | pthread_joinall | pthread_detach nat
  | pthread_once nat | cleanup_push nat | cleanup_pop bool "nat list"
  | klee_read_symbolic_input "8 word list" | klee_ics_do_initial_syncop | klee_ics_begin | klee_ics_region_marker
  | klee_ics_log_stackvar nat nat u64 nat

fun api_frames :: "api \<Rightarrow> pk frame list" where
  "api_frames (pthread_mutex_init a) = [Client (MutexInit a)]"
| "api_frames (pthread_mutex_lock a) = dolock a False"
| "api_frames (pthread_mutex_trylock a) = dolock a True"
| "api_frames (pthread_mutex_unlock a) = [Client (UnlockStart a)]"
| "api_frames (pthread_cond_init c) = [Client (CondInit c)]"
| "api_frames (pthread_cond_wait c a) = [Client (CondWait c a)]"
| "api_frames (pthread_cond_broadcast c) = must_exist @ [Client (Notify c True)]"
| "api_frames (pthread_cond_signal c) = must_exist @ [Client (Notify c False)]"
| "api_frames (pthread_barrier_init b n) = [Client (BarrierInit b n)]"
| "api_frames (pthread_barrier_wait b) = [Client (BarrierWait b)]"
| "api_frames (sem_init x n) = [Client (SemInit x n)]"
| "api_frames (sem_wait x) = must_exist @ [Client (SemDown x False)]"
| "api_frames (sem_trywait x) = must_exist @ [Client (SemDown x True)]"
| "api_frames (sem_post x) = must_exist @ [Client (SemUp x)]"
| "api_frames pthread_create = must_exist @ [Client CreateSlot]"
| "api_frames (pthread_exit r) = [Client (ExitCleanup r)]"
| "api_frames (pthread_join k) = must_exist @ [Client (JoinCheck k)]"
| "api_frames pthread_joinall = call_WaitForHbNode False @ [Client JoinAllFirst]"
| "api_frames (pthread_detach k) = [Client (DetachStart k)]"
| "api_frames (pthread_once c) = must_exist @ [Client (OnceCheck c)]"
| "api_frames (cleanup_push f) = [Client (CleanupPush f)]"
| "api_frames (cleanup_pop execute prev) = [Client (CleanupPop execute prev)]"
| "api_frames (klee_read_symbolic_input buf) = call_WaitForHbNode True @ [Client (InputNode buf)]"
| "api_frames klee_ics_do_initial_syncop = [Client InitialSync]"
| "api_frames klee_ics_begin = [Client BeginCheck]"
| "api_frames klee_ics_region_marker = call_region_marker"
| "api_frames (klee_ics_log_stackvar bits oid ctx val) = [Client (LogStackvar bits oid ctx val)]"

subsection \<open>Steps of the interface functions\<close>

text \<open>In the steps below, \<^verbatim>\<open>goto gs s\<close> continues with the frames \<^verbatim>\<open>gs\<close> and \<^verbatim>\<open>ret r s\<close> returns to the
  caller. A group of functions aborts at the points of the others, so that \<^verbatim>\<open>or_abort\<close> joins the groups.\<close>

type_synonym api_step =
  "pk \<Rightarrow> nat \<Rightarrow> pk tls \<Rightarrow> (pk frame list \<Rightarrow> sync \<Rightarrow> sync res) \<Rightarrow> (int \<Rightarrow> sync \<Rightarrow> sync res) \<Rightarrow> sync \<Rightarrow> sync res"

definition or_abort :: "'a res \<Rightarrow> 'a res \<Rightarrow> 'a res" where
  "or_abort x y = (case x of Abort \<Rightarrow> y | r \<Rightarrow> r)"

text \<open>Mutexes.\<close>

fun mutex_step :: api_step where
  "mutex_step (MutexInit a) t l goto ret s = ret 0 (set_mutex a zero_mutex s)"
| "mutex_step (LockEntry a istry) t l goto ret s =
     (let m = mutexes s a in
      if m_taken m \<or> m_queued m > 0 then
        if istry then goto [AdvanceClock, Client (Return EBUSY)] s
        else goto ([AdvanceClock, Client TakeSlot] @ sync_op True @ [Client (LockTake a)])
               (set_mutex a (m\<lparr> m_queued := m_queued m + 1 \<rparr>) s)
      else goto [AdvanceClock, Client (LockTake a)] s)"
| "mutex_step (LockTake a) t l goto ret s =
     ret 0 (set_mutex a ((mutexes s a)\<lparr> m_taken := True, m_owner := t \<rparr>) s)"
| "mutex_step (UnlockStart a) t l goto ret s =
     (case dounlock t a s of
        None \<Rightarrow> ret EPERM s
      | Some s \<Rightarrow> goto (sync_op False @ [Client (Return 0)]) s)"
| "mutex_step _ t l goto ret s = Abort"

text \<open>Condition variables.\<close>

fun cond_step :: api_step where
  "cond_step (CondInit c) t l goto ret s = ret 0 (s\<lparr> conds := (conds s)(c := \<lparr> c_mutex = 0, c_queued = 0 \<rparr>) \<rparr>)"
| "cond_step (CondWait c a) t l goto ret s =
     (let v = conds s c in
      if c_queued v > 0 \<and> c_mutex v \<noteq> a then Abort
      else let v = v\<lparr> c_mutex := a \<rparr> in
        case dounlock t a s of
          None \<Rightarrow> ret EPERM (s\<lparr> conds := (conds s)(c := v) \<rparr>)
        | Some s \<Rightarrow> goto (sync_op False @ [Client TakeSlot] @ sync_op True @ dolock a False)
            (s\<lparr> conds := (conds s)(c := v\<lparr> c_queued := c_queued v + 1 \<rparr>) \<rparr>))"
| "cond_step (Notify c all) t l goto ret s =
     (let v = conds s c; q = c_queued v in
      goto [AdvanceClock, Client (Return 0)]
        (s\<lparr> conds := (conds s)(c := v\<lparr> c_queued := (if all then 0 else if q > 0 then q - 1 else q) \<rparr>) \<rparr>))"
| "cond_step _ t l goto ret s = Abort"

text \<open>Barriers.\<close>

fun barrier_step :: api_step where
  "barrier_step (BarrierInit b n) t l goto ret s =
     ret 0 (s\<lparr> barriers := (barriers s)(b := \<lparr> b_init_count = n, b_left = n \<rparr>) \<rparr>)"
| "barrier_step (BarrierWait b) t l goto ret s =
     (let v = barriers s b in
      if b_init_count v = 0 then ret EINVAL s
      else goto (call_WaitForHbNodeMustExist True False @
               [Client (BarrierCheck b (MyThreadSchedule l) (MyThreadSchedulePtr l + 1))])
             (s\<lparr> barriers := (barriers s)(b := v\<lparr> b_left := b_left v - 1 \<rparr>) \<rparr>))"
| "barrier_step (BarrierCheck b arr i) t l goto ret s =
     (if i \<ge> length arr then Abort
      else let v = barriers s b in
        if ucast (arr ! i) = b_init_count v - 1
        then goto [AdvanceClock, Client (BarrierEnd PTHREAD_BARRIER_SERIAL_THREAD)]
               (s\<lparr> barriers := (barriers s)(b := v\<lparr> b_left := b_init_count v \<rparr>) \<rparr>)
        else if arr ! i \<noteq> 0 then Abort
        else goto ([AdvanceClock] @ sync_op True @ [Client (BarrierEnd 0)]) s)"
| "barrier_step (BarrierEnd r) t l goto ret s = goto [ExitLoop, Client (Return r)] s"
| "barrier_step _ t l goto ret s = Abort"

text \<open>Semaphores.\<close>

fun sem_step :: api_step where
  "sem_step (SemInit x n) t l goto ret s =
     (if n > SEM_VALUE_MAX then ret (-1) s else ret 0 (s\<lparr> sems := (sems s)(x := word_of_nat n) \<rparr>))"
| "sem_step (SemDown x istry) t l goto ret s =
     (if sems s x = 0 then
        if istry then goto [AdvanceClock, Client (Return (-1))] s
        else goto ([AdvanceClock, Client TakeSlot] @ call_WaitForHbNodeMustExist True False @ [Client (SemDown x istry)]) s
      else goto [AdvanceClock, Client (Return 0)] (s\<lparr> sems := (sems s)(x := sems s x - 1) \<rparr>))"
| "sem_step (SemUp x) t l goto ret s =
     goto [AdvanceClock, Client (Return 0)] (s\<lparr> sems := (sems s)(x := sems s x + 1) \<rparr>)"
| "sem_step _ t l goto ret s = Abort"

text \<open>Creating a thread. The two counters of running threads are 32-bit.\<close>

fun create_step :: api_step where
  "create_step CreateSlot t l goto ret s =
     (case free_slot s of
        None \<Rightarrow> goto [AdvanceClock, Client (Return EAGAIN)] s
      | Some i \<Rightarrow> goto [AdvanceClock, Client (CreateInit i)]
          ((set_tdata i (zero_thread_data\<lparr> td_allocated := True \<rparr>) s)\<lparr> live_threads := live_threads s + 1 \<rparr>))"
| "create_step (CreateInit i) t l goto ret s =
     goto (sync_op False @ [Client (CreateSpawn i), Client (Return 0)])
       ((set_tdata i ((tdata s i)\<lparr> td_initial_fragment_id := MyThreadCurrScheduleFragment l, td_joinable := True \<rparr>) s)
          \<lparr> NumThreadsRunningInRegion := NumThreadsRunningInRegion s + 1, NumThreadsTotal := NumThreadsTotal s + 1 \<rparr>)"
| "create_step _ t l goto ret s = Abort"

text \<open>Leaving a thread, which is then marked by the frame \<^verbatim>\<open>Dead\<close>.\<close>

fun exit_step :: api_step where
  "exit_step (ExitCleanup r) t l goto ret s =
     (case td_cleanup_stack (tdata s t) of
        b # prev \<Rightarrow> goto [Client User, Client (ExitPop r prev)] s
      | [] \<Rightarrow> goto (must_exist @ [Client (ExitMark r)]) s)"
| "exit_step (ExitPop r prev) t l goto ret s =
     goto [Client (ExitCleanup r)] (set_tdata t ((tdata s t)\<lparr> td_cleanup_stack := prev \<rparr>) s)"
| "exit_step (ExitMark r) t l goto ret s =
     (let d = tdata s t in
      goto [AdvanceClock, Client ExitDone]
        ((set_tdata t (if td_joinable d then d\<lparr> td_terminated := True, td_return_value := r \<rparr> else d\<lparr> td_allocated := False \<rparr>) s)
           \<lparr> live_threads := live_threads s - 1, NumThreadsRunningInRegion := NumThreadsRunningInRegion s - 1,
             NumThreadsTotal := NumThreadsTotal s - 1 \<rparr>))"
| "exit_step ExitDone t l goto ret s =
     (if IsScheduleComplete l = Some True
      then goto [Client Dead] (s\<lparr> ThreadContexts := (ThreadContexts s)(t := False) \<rparr>) else Abort)"
| "exit_step _ t l goto ret s = Abort"

text \<open>Joining a thread.\<close>

fun join_step :: api_step where
  "join_step (JoinCheck k) t l goto ret s =
     (let err = (\<lambda>e. goto [AdvanceClock, Client (Return e)] s); d = tdata s k in
      if k \<ge> KLEE_MAX_THREADS then err ESRCH
      else if k = t then err EDEADLK
      else if \<not> td_allocated d then err ESRCH
      else if \<not> td_joinable d then err EINVAL
      else if td_hasjoiner d then err EINVAL
      else goto ([AdvanceClock] @ sync_op True @ [Client (JoinDone k)]) (set_tdata k (d\<lparr> td_hasjoiner := True \<rparr>) s))"
| "join_step (JoinDone k) t l goto ret s =
     (if td_terminated (tdata s k) then ret 0 (set_tdata k ((tdata s k)\<lparr> td_allocated := False \<rparr>) s) else Abort)"
| "join_step _ t l goto ret s = Abort"

text \<open>Detaching a thread.\<close>

fun detach_step :: api_step where
  "detach_step (DetachStart k) t l goto ret s =
     (if k \<ge> KLEE_MAX_THREADS then ret ESRCH s else goto (must_exist @ [Client (DetachCheck k)]) s)"
| "detach_step (DetachCheck k) t l goto ret s =
     (let d = tdata s k in
      if \<not> td_allocated d then goto [AdvanceClock, Client (Return ESRCH)] s
      else if \<not> td_joinable d then goto [AdvanceClock, Client (Return EINVAL)] s
      else goto [AdvanceClock, Client (Return 0)]
             (set_tdata k (d\<lparr> td_joinable := False, td_allocated := (td_allocated d \<and> \<not> td_terminated d) \<rparr>) s))"
| "detach_step _ t l goto ret s = Abort"

text \<open>Waiting for all threads.\<close>

fun joinall_step :: api_step where
  "joinall_step JoinAllFirst t l goto ret s =
     goto (if retval l then [AdvanceClock, Client JoinAllLoop] else [Client JoinAllSpin]) s"
| "joinall_step JoinAllLoop t l goto ret s =
     goto (if live_threads s > 1 then [ExitLoop, Client JoinAllExit] else [Client JoinAllSpin]) s"
| "joinall_step JoinAllExit t l goto ret s =
     goto (if retval l then [Client JoinAllSpin] else call_WaitForHbNode False @ [Client JoinAllNext]) s"
| "joinall_step JoinAllNext t l goto ret s =
     goto (if retval l then [AdvanceClock, Client JoinAllLoop] else [Client JoinAllLoop]) s"
| "joinall_step JoinAllSpin t l goto ret s = (if live_threads s > 1 then Spin else ret 0 s)"
| "joinall_step _ t l goto ret s = Abort"

text \<open>Initialisers.\<close>

fun once_step :: api_step where
  "once_step (OnceCheck c) t l goto ret s =
     goto (if onces s c = 0 then [Client User, Client (OnceDone c)] else [AdvanceClock, Client (Return 0)]) s"
| "once_step (OnceDone c) t l goto ret s = goto [AdvanceClock, Client (Return 0)] (s\<lparr> onces := (onces s)(c := 1) \<rparr>)"
| "once_step _ t l goto ret s = Abort"

text \<open>Cleanup handlers.\<close>

fun cleanup_step :: api_step where
  "cleanup_step (CleanupPush f) t l goto ret s =
     ret 0 (set_tdata t ((tdata s t)\<lparr> td_cleanup_stack := f # td_cleanup_stack (tdata s t) \<rparr>) s)"
| "cleanup_step (CleanupPop execute prev) t l goto ret s =
     goto ((if execute then [Client User] else []) @ [Client (CleanupSet prev)]) s"
| "cleanup_step (CleanupSet prev) t l goto ret s =
     ret 0 (set_tdata t ((tdata s t)\<lparr> td_cleanup_stack := prev \<rparr>) s)"
| "cleanup_step _ t l goto ret s = Abort"

definition object_step :: api_step where
  "object_step k t l goto ret s =
     or_abort (mutex_step k t l goto ret s) (or_abort (cond_step k t l goto ret s)
       (or_abort (barrier_step k t l goto ret s) (sem_step k t l goto ret s)))"

definition thread_step :: api_step where
  "thread_step k t l goto ret s =
     or_abort (create_step k t l goto ret s) (or_abort (exit_step k t l goto ret s) (or_abort (join_step k t l goto ret s)
       (or_abort (joinall_step k t l goto ret s) (or_abort (detach_step k t l goto ret s)
         (or_abort (once_step k t l goto ret s) (cleanup_step k t l goto ret s))))))"

text \<open>One step of a thread that is inside an interface function.\<close>

definition client_step :: "sync_env \<Rightarrow> nat \<Rightarrow> sync \<Rightarrow> sync res" where
  "client_step env t s =
     (case threads s t of
        None \<Rightarrow> Abort
      | Some l \<Rightarrow>
        (case frames l of
           Client k # fs \<Rightarrow>
             (let goto = (\<lambda>gs s. Ok (set_tls t (l\<lparr> frames := gs @ fs \<rparr>) s));
                  ret = (\<lambda>r s. goto [] (set_result t r s))
              in case k of
                Return r \<Rightarrow> ret r s
              | User \<Rightarrow> goto [] s
              | TakeSlot \<Rightarrow> goto [] (TakeNextWaitSlot t s)
              | InputNode buf \<Rightarrow> goto (if retval l then [AdvanceClock, Client (InputLog buf)] else []) s
              | InputLog buf \<Rightarrow>
                  if inputVal l = 0 then Abort
                  else goto [FragLoop] (s\<lparr> snapshotBuffer := snapshot_functions env (inputVal l) buf s \<rparr>)
              | BeginCheck \<Rightarrow> if NumThreadsTotal s = 1 \<and> t = 0 then goto (sync_op False) s else Abort
              | InitialSync \<Rightarrow> goto (if MyThreadJustStarted l then sync_op False @ [Client InitialDone] else []) s
              | InitialDone \<Rightarrow> Ok (set_tls t (l\<lparr> MyThreadJustStarted := False, frames := fs \<rparr>) s)
              | LogStackvar bits oid ctx val \<Rightarrow>
                  if ctx = 0 then goto [] (logvar bits t oid val s)
                  else (case IsMyCurrentContextLongId ctx (callstk l) of
                          None \<Rightarrow> Abort
                        | Some here \<Rightarrow> goto [] (if here then logvar bits t oid val s else s))
              | _ \<Rightarrow>
                  or_abort (object_step k t l goto ret s) (thread_step k t l goto ret s))
         | _ \<Rightarrow> Abort))"

subsection \<open>Programs\<close>

text \<open>A program calls interface functions and enters and leaves functions; it runs when no frame is left
  or a frame \<^verbatim>\<open>User\<close> is on top.\<close>

definition at_user :: "pk tls \<Rightarrow> bool" where
  "at_user l \<longleftrightarrow> frames l = [] \<or> hd (frames l) = Client User"

inductive pstep :: "sync_env \<Rightarrow> sync \<Rightarrow> nat \<times> event \<Rightarrow> sync \<Rightarrow> bool" for env where
  run: "rt_step env t s = Ok (ev, s') \<Longrightarrow> pstep env s (t, ev) s'"
| client: "client_step env t s = Ok s' \<Longrightarrow> pstep env s (t, Tau) s'"
| call: "threads s t = Some l \<Longrightarrow> at_user l \<Longrightarrow>
     pstep env s (t, Tau) (set_tls t (l\<lparr> frames := api_frames op @ frames l \<rparr>) s)"
| push: "threads s t = Some l \<Longrightarrow> at_user l \<Longrightarrow> klee_ics_callstack_push cs (callstk l) = Some k \<Longrightarrow>
     pstep env s (t, Tau) (set_tls t (l\<lparr> callstk := k \<rparr>) s)"
| pop: "threads s t = Some l \<Longrightarrow> at_user l \<Longrightarrow> klee_ics_callstack_pop (callstk l) = Some k \<Longrightarrow>
     pstep env s (t, Tau) (set_tls t (l\<lparr> callstk := k \<rparr>) s)"
| register: "threads s t = Some l \<Longrightarrow> frames l = [] \<Longrightarrow>
     pstep env s (t, Tau) (s\<lparr> ThreadContexts := (ThreadContexts s)(t := True) \<rparr>)"
| spawn: "threads s t = Some l \<Longrightarrow> frames l = Client (CreateSpawn i) # fs \<Longrightarrow> threads s i = None \<Longrightarrow>
     f = td_initial_fragment_id (tdata s i) \<Longrightarrow> f \<le> CurrFragmentId s \<Longrightarrow> CurrFragmentList s f = Some h \<Longrightarrow>
     i < unat (numThreads h) \<Longrightarrow>
     pstep env s (t, Spawned i f) (set_tls i (thread_start f) (set_tls t (l\<lparr> frames := fs \<rparr>) s))"

inductive_cases pstepE: "pstep env s e s'"

inductive prun :: "sync_env \<Rightarrow> sync \<Rightarrow> (nat \<times> event) list \<Rightarrow> sync \<Rightarrow> bool" for env s0 where
  nil: "prun env s0 [] s0"
| snoc: "prun env s0 es s \<Longrightarrow> pstep env s e s' \<Longrightarrow> RegionTicker s' = RegionTicker s \<Longrightarrow> prun env s0 (es @ [e]) s'"

subsection \<open>Programs are clients of the scheduling core\<close>

named_theorems sync_simps

lemmas call_defs [sync_simps] = call_WaitForHbNode_def call_WaitForHbNodeMustExist_def call_DoOneSyncOpMustExist_def
  call_region_marker_def dolock_def

lemma same_sched_upds [sync_simps]:
  "same_sched s s" "same_sched s (set_tls t l s') = same_sched s s'" "same_sched s (set_mutex a m s') = same_sched s s'"
  "same_sched s (set_tdata k d s') = same_sched s s'" "same_sched s (set_result k r s') = same_sched s s'"
  by (simp_all add: same_sched_def set_tls_def set_mutex_def set_tdata_def set_result_def)

lemma threads_upds [sync_simps]:
  "threads (set_mutex a m s') = threads s'" "threads (set_tdata k d s') = threads s'" "threads (set_result k r s') = threads s'"
  by (simp_all add: set_mutex_def set_tdata_def set_result_def)

subsection \<open>Entered nodes are advanced once\<close>

text \<open>How many entered nodes a frame will advance, given the return value it sees.\<close>

definition cdelta :: "pk \<Rightarrow> bool \<Rightarrow> nat" where
  "cdelta k r =
     (case k of
        LockEntry a b \<Rightarrow> 1 | Notify c b \<Rightarrow> 1 | BarrierCheck b arr i \<Rightarrow> 1 | SemDown x b \<Rightarrow> 1 | SemUp x \<Rightarrow> 1
      | CreateSlot \<Rightarrow> 1 | ExitMark v \<Rightarrow> 1 | JoinCheck j \<Rightarrow> 1 | DetachCheck j \<Rightarrow> 1 | OnceCheck c \<Rightarrow> 1 | OnceDone c \<Rightarrow> 1
      | JoinAllFirst \<Rightarrow> of_bool r | JoinAllNext \<Rightarrow> of_bool r | InputNode buf \<Rightarrow> of_bool r | _ \<Rightarrow> 0)"

text \<open>The frames of a thread that has entered and not yet advanced \<^verbatim>\<open>n\<close> nodes, with return value
  \<^verbatim>\<open>r\<close>: they will advance exactly these.\<close>

fun owes :: "bool \<Rightarrow> nat \<Rightarrow> pk frame list \<Rightarrow> bool" where
  "owes r n [] \<longleftrightarrow> n = 0"
| "owes r n (f # fs) \<longleftrightarrow>
     (case f of
        AdvanceClock \<Rightarrow> n \<noteq> 0 \<and> owes r (n - 1) fs
      | AssertOk \<Rightarrow> r \<longrightarrow> owes r n fs
      | Ret b \<Rightarrow> owes b n fs
      | NodeBody e \<Rightarrow> owes False n fs \<and> owes True (Suc n) fs
      | EdgeLoop k \<Rightarrow> owes True (Suc n) fs
      | ExitLoop \<Rightarrow> owes True n fs \<and> owes False n fs
      | Client k \<Rightarrow> cdelta k r \<le> n \<and> owes True (n - cdelta k r) fs \<and> owes False (n - cdelta k r) fs
      | _ \<Rightarrow> owes r n fs)"

lemma owes_any: "owes True n fs \<Longrightarrow> owes False n fs \<Longrightarrow> owes r n fs"
  by (cases r) auto

definition quiet :: "sync \<Rightarrow> sync \<Rightarrow> bool" where
  "quiet s s' \<longleftrightarrow> same_sched s s' \<and> threads s' = threads s \<and> LogReadIndex s' = LogReadIndex s \<and>
     (\<forall>bits. stackvars s' bits LogSnapshotIndex = stackvars s bits LogSnapshotIndex)"

definition emits :: "pk \<Rightarrow> bool \<Rightarrow> pk frame list \<Rightarrow> bool" where
  "emits k r gs \<longleftrightarrow> calls gs \<and>
     (\<forall>n fs. owes True n fs \<longrightarrow> owes False n fs \<longrightarrow> owes r (n + cdelta k r) (gs @ fs))"

lemma quiet_upds [sync_simps]:
  "quiet s (set_mutex a m s') = quiet s s'" "quiet s (set_tdata k d s') = quiet s s'" "quiet s (set_result k v s') = quiet s s'"
  "quiet s (s'\<lparr> conds := c \<rparr>) = quiet s s'" "quiet s (s'\<lparr> barriers := b \<rparr>) = quiet s s'" "quiet s (s'\<lparr> sems := x \<rparr>) = quiet s s'"
  "quiet s (s'\<lparr> onces := y \<rparr>) = quiet s s'" "quiet s (s'\<lparr> live_threads := w \<rparr>) = quiet s s'"
  "quiet s (s'\<lparr> NumThreadsTotal := w \<rparr>) = quiet s s'" "quiet s (s'\<lparr> NumThreadsRunningInRegion := w \<rparr>) = quiet s s'"
  "quiet s (s'\<lparr> ThreadContexts := z \<rparr>) = quiet s s'" "quiet s (s'\<lparr> NextWaitSlot := w \<rparr>) = quiet s s'"
  "quiet s (s'\<lparr> snapshotBuffer := q \<rparr>) = quiet s s'" "quiet s s"
  by (auto simp: quiet_def same_sched_def set_mutex_def set_tdata_def set_result_def)

text \<open>The outcome of a step: it stops, or continues with frames that advance what they must.\<close>

definition outcome :: "pk \<Rightarrow> bool \<Rightarrow> (pk frame list \<Rightarrow> sync \<Rightarrow> sync res) \<Rightarrow> (int \<Rightarrow> sync \<Rightarrow> sync res) \<Rightarrow> sync \<Rightarrow> sync res \<Rightarrow> bool" where
  "outcome k r goto ret s x \<longleftrightarrow> x = Abort \<or> x = Spin \<or>
     (\<exists>gs s1. x = goto gs s1 \<and> quiet s s1 \<and> emits k r gs) \<or> (\<exists>v s1. x = ret v s1 \<and> quiet s s1 \<and> emits k r [])"

lemma outcome_goto: "quiet s s1 \<Longrightarrow> emits k r gs \<Longrightarrow> outcome k r goto ret s (goto gs s1)"
  by (auto simp: outcome_def)

lemma outcome_ret: "quiet s s1 \<Longrightarrow> emits k r [] \<Longrightarrow> outcome k r goto ret s (ret v s1)"
  by (auto simp: outcome_def)

lemma outcome_stop [simp]: "outcome k r goto ret s Abort" "outcome k r goto ret s Spin"
  by (auto simp: outcome_def)

lemma dounlock_quiet: "dounlock t a s = Some s' \<Longrightarrow> quiet s s'"
  by (auto simp: dounlock_def Let_def sync_simps split: if_splits)

lemma outcome_or: "outcome k r goto ret s x \<Longrightarrow> outcome k r goto ret s y \<Longrightarrow> outcome k r goto ret s (or_abort x y)"
  by (cases x) (auto simp: or_abort_def)

lemma mutex_outcome: "outcome k (retval l) goto ret s (mutex_step k t l goto ret s)"
  by (cases k) (auto simp: Let_def emits_def cdelta_def sync_simps dounlock_quiet split: option.splits
      intro!: outcome_goto outcome_ret owes_any)

lemma cond_outcome: "outcome k (retval l) goto ret s (cond_step k t l goto ret s)"
  by (cases k) (auto simp: Let_def emits_def cdelta_def sync_simps dounlock_quiet split: option.splits
      intro!: outcome_goto outcome_ret owes_any)

lemma barrier_outcome: "outcome k (retval l) goto ret s (barrier_step k t l goto ret s)"
  by (cases k) (auto simp: Let_def emits_def cdelta_def sync_simps intro!: outcome_goto outcome_ret owes_any)

lemma sem_outcome: "outcome k (retval l) goto ret s (sem_step k t l goto ret s)"
  by (cases k) (auto simp: Let_def emits_def cdelta_def sync_simps intro!: outcome_goto outcome_ret owes_any)

lemma create_outcome: "outcome k (retval l) goto ret s (create_step k t l goto ret s)"
  by (cases k) (auto simp: emits_def cdelta_def sync_simps split: option.splits intro!: outcome_goto outcome_ret owes_any)

lemma exit_outcome: "outcome k (retval l) goto ret s (exit_step k t l goto ret s)"
  by (cases k) (auto simp: Let_def emits_def cdelta_def sync_simps split: list.splits intro!: outcome_goto outcome_ret owes_any)

lemma join_outcome: "outcome k (retval l) goto ret s (join_step k t l goto ret s)"
  by (cases k) (auto simp: Let_def emits_def cdelta_def sync_simps intro!: outcome_goto outcome_ret owes_any)

lemma joinall_outcome: "outcome k (retval l) goto ret s (joinall_step k t l goto ret s)"
  by (cases k) (auto simp: emits_def cdelta_def sync_simps intro!: outcome_goto outcome_ret owes_any)

lemma once_outcome: "outcome k (retval l) goto ret s (once_step k t l goto ret s)"
  by (cases k) (auto simp: emits_def cdelta_def sync_simps intro!: outcome_goto outcome_ret owes_any)

lemma detach_outcome: "outcome k (retval l) goto ret s (detach_step k t l goto ret s)"
  by (cases k) (auto simp: Let_def emits_def cdelta_def sync_simps intro!: outcome_goto outcome_ret owes_any)

lemma cleanup_outcome: "outcome k (retval l) goto ret s (cleanup_step k t l goto ret s)"
  by (cases k) (auto simp: emits_def cdelta_def sync_simps intro!: outcome_goto outcome_ret owes_any)

lemma object_outcome: "outcome k (retval l) goto ret s (object_step k t l goto ret s)"
  unfolding object_step_def by (intro outcome_or mutex_outcome cond_outcome barrier_outcome sem_outcome)

lemma thread_outcome: "outcome k (retval l) goto ret s (thread_step k t l goto ret s)"
  unfolding thread_step_def by (intro outcome_or create_outcome exit_outcome join_outcome joinall_outcome detach_outcome once_outcome cleanup_outcome)

lemma client_step_ok:
  assumes "client_step env t s = Ok s'"
  shows "\<exists>l k fs gs b s1. threads s t = Some l \<and> frames l = Client k # fs \<and> quiet s s1 \<and> emits k (retval l) gs \<and>
    s' = set_tls t (l\<lparr> MyThreadJustStarted := b, frames := gs @ fs \<rparr>) s1"
proof -
  obtain l k fs where l: "threads s t = Some l" "frames l = Client k # fs"
    using assms by (auto simp: client_step_def split: option.splits list.splits frame.splits)
  let ?goto = "\<lambda>gs s. Ok (set_tls t (l\<lparr> frames := gs @ fs \<rparr>) s)"
  let ?ret = "\<lambda>r s. ?goto [] (set_result t r s)"
  have goto: ?thesis if "quiet s s1" "emits k (retval l) gs" "s' = set_tls t (l\<lparr> frames := gs @ fs \<rparr>) s1" for gs s1
  proof -
    have "s' = set_tls t (l\<lparr> MyThreadJustStarted := MyThreadJustStarted l, frames := gs @ fs \<rparr>) s1" using that(3) by simp
    then show ?thesis using that(1,2) l by blast
  qed
  have out: ?thesis if "outcome k (retval l) ?goto ?ret s (Ok s')"
  proof -
    consider gs s1 where "s' = set_tls t (l\<lparr> frames := gs @ fs \<rparr>) s1" "quiet s s1" "emits k (retval l) gs"
      | v s1 where "s' = set_tls t (l\<lparr> frames := [] @ fs \<rparr>) (set_result t v s1)" "quiet s s1" "emits k (retval l) []"
      using \<open>outcome k (retval l) ?goto ?ret s (Ok s')\<close> by (auto simp: outcome_def)
    then show ?thesis
    proof cases
      case 1
      then show ?thesis by (intro goto)
    next
      case 2
      then show ?thesis by (intro goto [of "set_result t v s1" "[]"]) (simp_all add: sync_simps)
    qed
  qed
  have log: "quiet s (logvar bits t oid val s)" for bits oid val
    by (simp add: quiet_def logvar_def same_sched_def LogCurrIndex_def LogSnapshotIndex_def)
  have direct: ?thesis if "s' = set_tls t (l\<lparr> frames := gs @ fs \<rparr>) s1" "quiet s s1" "emits k (retval l) gs" for gs s1
    using goto [OF that(2,3,1)] .
  have rest: ?thesis if "or_abort (object_step k t l ?goto ?ret s) (thread_step k t l ?goto ?ret s) = Ok s'"
    using outcome_or [OF object_outcome [of k l ?goto ?ret s t] thread_outcome [of k l ?goto ?ret s t]] that by (intro out) simp
  have nil: "emits k (retval l) []" if "cdelta k (retval l) = 0" using that by (auto simp: emits_def intro: owes_any)
  show ?thesis
  proof (cases k)
    case InitialDone
    have "s' = set_tls t (l\<lparr> MyThreadJustStarted := False, frames := [] @ fs \<rparr>) s" "emits k (retval l) []"
      using assms l InitialDone by (auto simp: client_step_def emits_def cdelta_def intro: owes_any)
    then show ?thesis using l quiet_upds(14) by blast
  next
    case (LogStackvar bits oid ctx val)
    then have "s' = set_tls t (l\<lparr> frames := [] @ fs \<rparr>) (logvar bits t oid val s) \<or> s' = set_tls t (l\<lparr> frames := [] @ fs \<rparr>) s"
      using assms l by (auto simp: client_step_def split: if_splits option.splits)
    moreover have "emits k (retval l) []" using nil LogStackvar by (simp add: cdelta_def)
    ultimately show ?thesis using direct [of "[]"] log quiet_upds(14) by blast
  next
    case (Return r)
    then show ?thesis using assms l by (intro direct [of "[]" "set_result t r s"] nil) (simp_all add: client_step_def sync_simps cdelta_def)
  next
    case User
    then show ?thesis using assms l by (intro direct [of "[]" s] nil) (simp_all add: client_step_def sync_simps cdelta_def)
  next
    case TakeSlot
    then show ?thesis
      using assms l by (intro direct [of "[]" "TakeNextWaitSlot t s"] nil) (simp_all add: client_step_def sync_simps cdelta_def TakeNextWaitSlot_def)
  next
    case (InputNode buf)
    then show ?thesis
      using assms l
      by (intro direct [of "if retval l then [AdvanceClock, Client (InputLog buf)] else []" s])
        (auto simp: client_step_def sync_simps cdelta_def emits_def)
  next
    case (InputLog buf)
    then show ?thesis
      using assms l
      by (intro direct [of "[FragLoop]" "s\<lparr> snapshotBuffer := snapshot_functions env (inputVal l) buf s \<rparr>"])
        (auto simp: client_step_def sync_simps cdelta_def emits_def intro: owes_any split: if_splits)
  next
    case BeginCheck
    then show ?thesis
      using assms l
      by (intro direct [of "sync_op False" s]) (auto simp: client_step_def sync_simps cdelta_def emits_def intro: owes_any split: if_splits)
  next
    case InitialSync
    then show ?thesis
      using assms l
      by (intro direct [of "if MyThreadJustStarted l then sync_op False @ [Client InitialDone] else []" s])
        (auto simp: client_step_def sync_simps cdelta_def emits_def intro: owes_any)
  qed ((rule rest, (use assms l in \<open>auto simp: client_step_def Let_def\<close>)[1])+)
qed

lemma body_frames:
  "WaitForHbNode_body env e l fs = Some l' \<Longrightarrow> retval l' = retval l \<and> (frames l' = Ret False # fs \<or> (\<exists>k. frames l' = EdgeLoop k # fs))"
  by (auto simp: WaitForHbNode_body_def Let_def split: if_splits)

lemma edge_frames:
  "WaitForHbNode_edge s l k fs = Ok l' \<Longrightarrow> retval l' = retval l \<and> frames l' = EdgeLoop k # fs"
  by (auto simp: WaitForHbNode_edge_def split: option.splits if_splits)

lemma RegionBarrier_owes:
  assumes "RegionBarrier env t fs s = Some s'" "RegionTicker s' = RegionTicker s" "threads s t = Some l" "owes (retval l) n fs"
  shows "\<exists>l'. threads s' t = Some l' \<and> owes (retval l') n (frames l')"
  using RegionBarrier_same [OF assms(1-3)] assms(4) by simp

lemma AdvanceToNextFragment_owes:
  assumes "AdvanceToNextFragment env t fs s = Some s'" "threads s t = Some l" "owes (retval l) n fs"
  shows "\<exists>l'. threads s' t = Some l' \<and> owes (retval l') n (frames l')"
  using AdvanceToNextFragment_spec [OF assms(1,2)] assms(3) by auto

lemma InitializeMyThreadSchedulePtr_owes:
  assumes "InitializeMyThreadSchedulePtr env t fs s = Some s'" "RegionTicker s' = RegionTicker s" "threads s t = Some l"
    "owes (retval l) n fs"
  shows "\<exists>l'. threads s' t = Some l' \<and> owes (retval l') n (frames l')"
proof -
  have o: "owes (retval l) n (InitPtr # fs)" using assms(4) by simp
  obtain h where h: "MyThreadCurrSchedule l s = Some h" using assms(1,3) by (auto simp: InitializeMyThreadSchedulePtr_def)
  show ?thesis
  proof (cases "t \<ge> unat (numThreads h)")
    case False
    then have "s' = set_tls t (l\<lparr> MyThreadSchedule := threadSchedules h ! t, MyThreadSchedulePtr := 0, frames := SkipLoop # fs \<rparr>) s"
      using assms(1,3) h by (simp add: InitializeMyThreadSchedulePtr_def split: if_splits)
    then show ?thesis using assms(4) by simp
  next
    case True
    then have "AdvanceToNextFragment env t (InitPtr # fs) s = Some s' \<or> RegionBarrier env t (InitPtr # fs) s = Some s'"
      using assms(1,3) h by (simp add: InitializeMyThreadSchedulePtr_def split: if_splits)
    then show ?thesis using AdvanceToNextFragment_owes [OF _ assms(3) o] RegionBarrier_owes [OF _ assms(2,3) o] by blast
  qed
qed

lemma rt_step_owes:
  assumes step: "rt_step env t s = Ok (ev, s')" and tick: "RegionTicker s' = RegionTicker s"
    and l: "threads s t = Some l" "owes (retval l) n (frames l)"
  shows "\<exists>l' n'. threads s' t = Some l' \<and> owes (retval l') n' (frames l') \<and> n' + of_bool (ev = Advanced) = n + of_bool (ev = Entered)"
proof -
  obtain f fs where f: "frames l = f # fs" using step l(1) by (auto simp: rt_step_def split: list.splits)
  have same: ?thesis if "\<exists>l'. threads s' t = Some l' \<and> owes (retval l') n (frames l')" "ev = Tau \<or> ev = Skipped" using that by auto
  note bar = RegionBarrier_owes [OF _ tick l(1)] and adv = AdvanceToNextFragment_owes [OF _ l(1)]
    and ini = InitializeMyThreadSchedulePtr_owes [OF _ tick l(1)]
  show ?thesis
  proof (cases f)
    case InitPtr
    then show ?thesis using step l f ini by (intro same) (auto simp: rt_step_def)
  next
    case FragLoop
    then show ?thesis
      using step l f adv [of env "FragLoop # fs"] by (intro same) (auto simp: rt_step_def split: option.splits if_splits)
  next
    case (NodeBody e)
    then obtain l' where "WaitForHbNode_body env e l fs = Some l'" "ev = Tau" "s' = set_tls t l' s"
      using step l(1) f by (auto simp: rt_step_def)
    then show ?thesis using body_frames [of env e l fs l'] l(2) f NodeBody by (intro same) auto
  next
    case (EdgeLoop k)
    show ?thesis
    proof (cases k)
      case 0
      then have "ev = Entered" "s' = set_tls t (l\<lparr> frames := SkipLoop # Ret True # fs \<rparr>) s"
        using step l f EdgeLoop by (auto simp: rt_step_def)
      then show ?thesis using l(2) f EdgeLoop by auto
    next
      case (Suc j)
      then obtain l' where "WaitForHbNode_edge s l j fs = Ok l'" "ev = Tau" "s' = set_tls t l' s"
        using step l(1) f EdgeLoop by (auto simp: rt_step_def split: res.splits)
      then show ?thesis using edge_frames [of s l j fs l'] l(2) f EdgeLoop by (intro same) auto
    qed
  next
    case SleepLoop
    then show ?thesis
      using step l f bar [of env "SleepLoop # fs"] by (intro same) (auto simp: rt_step_def split: option.splits if_splits)
  next
    case MarkerTail
    then show ?thesis using step l f bar [of env fs] by (intro same) (auto simp: rt_step_def split: option.splits if_splits)
  next
    case ExitLoop
    then show ?thesis
      using step l f bar [of env "ExitLoop # fs"] by (intro same) (auto simp: rt_step_def intro: owes_any split: option.splits if_splits)
  next
    case AdvanceClock
    then show ?thesis using step l f by (auto simp: rt_step_def AdvanceHbNode_def intro!: exI [of _ "n - 1"])
  next
    case SkipLoop
    then show ?thesis using step l f by (intro same) (auto simp: rt_step_def AdvanceHbNode_def Let_def split: option.splits if_splits)
  qed (use step l f same in \<open>auto simp: rt_step_def split: option.splits if_splits\<close>)
qed

subsection \<open>Runs of programs\<close>

lemma api_emits: "calls (api_frames op) \<and> (\<forall>n fs r. owes True n fs \<longrightarrow> owes False n fs \<longrightarrow> owes r n (api_frames op @ fs))"
  by (cases op) (auto simp: sync_simps cdelta_def intro: owes_any)

lemma at_user_client: "at_user l \<Longrightarrow> at_client l"
  by (auto simp: at_user_def at_client_def split: list.splits)

text \<open>A step of the program itself, with the frames \<^verbatim>\<open>gs\<close> of a call or none.\<close>

lemma user_rstep:
  assumes "threads s t = Some l" "at_user l" "calls gs" "same_sched s s'"
    "threads s' = (threads s)(t \<mapsto> l\<lparr> callstk := k, frames := gs @ frames l \<rparr>)"
  shows "rstep env s (t, Tau) s'"
proof -
  obtain us where us: "us @ tl (frames l) = frames l" "calls us"
  proof (cases "frames l")
    case Nil
    then show ?thesis using that [of "[]"] by simp
  next
    case (Cons f fs)
    then show ?thesis using that [of "[f]"] assms(2) by (simp add: at_user_def)
  qed
  have "gs @ frames l = (gs @ us) @ tl (frames l)" using us(1) by simp
  moreover have "calls (gs @ us)" using assms(3) us(2) by (rule calls_append)
  ultimately show ?thesis
    using assms(1,4,5) at_user_client [OF assms(2)]
    by (intro rstep.client [where l = l and gs = "gs @ us" and b = "MyThreadJustStarted l" and stk = k]) auto
qed

lemma pstep_rstep:
  assumes "pstep env s e s'"
  shows "rstep env s e s'"
  using assms
proof cases
  case (run t ev)
  then show ?thesis by (simp add: rstep.run)
next
  case (client t)
  then obtain l k fs gs b s1 where l: "threads s t = Some l" "frames l = Client k # fs" "quiet s s1" "calls gs"
      "s' = set_tls t (l\<lparr> MyThreadJustStarted := b, frames := gs @ fs \<rparr>) s1"
    using client_step_ok [OF client(2)] by (auto simp: emits_def)
  show ?thesis
    unfolding client(1) using l
    by (intro rstep.client [where l = l and gs = gs and b = b and stk = "callstk l"]) (auto simp: quiet_def at_client_def sync_simps)
next
  case (call t l op)
  then show ?thesis using api_emits by (auto intro!: user_rstep [where l = l and gs = "api_frames op" and k = "callstk l"] simp: sync_simps)
next
  case (push t l cs k)
  then show ?thesis by (auto intro!: user_rstep [where l = l and gs = "[]" and k = k] simp: sync_simps)
next
  case (pop t l k)
  then show ?thesis by (auto intro!: user_rstep [where l = l and gs = "[]" and k = k] simp: sync_simps)
next
  case (register t l)
  have "threads s = (threads s)(t \<mapsto> l\<lparr> callstk := callstk l, frames := [] @ frames l \<rparr>)" using register by auto
  then show ?thesis
    using register by (auto intro!: user_rstep [where l = l and gs = "[]" and k = "callstk l"] simp: at_user_def same_sched_def)
next
  case (spawn t l i fs f h)
  then show ?thesis
    by (auto intro!: rstep.spawn [where l = l] simp: at_client_def sync_simps set_tls_def same_sched_def)
qed

lemma prun_region_run: "prun env s0 es s \<Longrightarrow> region_run env s0 es s"
  by (induction rule: prun.induct) (auto intro: region_run.intros pstep_rstep)

text \<open>Every thread has entered the nodes that its frames will advance, and no others.\<close>

definition owes_at :: "sync \<Rightarrow> nat \<Rightarrow> nat \<Rightarrow> bool" where
  "owes_at s t n = (case threads s t of None \<Rightarrow> n = 0 | Some l \<Rightarrow> owes (retval l) n (frames l))"

definition D_inv :: "(nat \<times> event) list \<Rightarrow> sync \<Rightarrow> bool" where
  "D_inv es s \<longleftrightarrow> (\<forall>t. \<exists>n. passed es t = clocked es t + n \<and> owes_at s t n)"

definition clean_start :: "sync \<Rightarrow> bool" where
  "clean_start s \<longleftrightarrow> (\<forall>t. owes_at s t 0)"

lemma D_inv_quiet:
  assumes "D_inv es s" "counts ev = 0" "ev \<noteq> Advanced" "\<And>u n. owes_at s u n \<Longrightarrow> owes_at s' u n"
  shows "D_inv (es @ [(t, ev)]) s'"
proof -
  have "passed (es @ [(t, ev)]) u = passed es u" "clocked (es @ [(t, ev)]) u = clocked es u" for u
    using assms(2,3) by (auto simp: passed_snoc clocked_snoc counts_def)
  then show ?thesis using assms(1,4) unfolding D_inv_def by metis
qed

lemma D_inv_run:
  assumes D: "D_inv es s" and step: "rt_step env t s = Ok (ev, s')" and tick: "RegionTicker s' = RegionTicker s"
  shows "D_inv (es @ [(t, ev)]) s'"
  unfolding D_inv_def
proof
  fix u
  obtain n where n: "passed es u = clocked es u + n" "owes_at s u n" using D by (auto simp: D_inv_def)
  obtain l where l: "threads s t = Some l" using step by (auto simp: rt_step_def split: option.splits)
  show "\<exists>n. passed (es @ [(t, ev)]) u = clocked (es @ [(t, ev)]) u + n \<and> owes_at s' u n"
  proof (cases "u = t")
    case True
    then obtain l' n' where l': "threads s' t = Some l'" "owes (retval l') n' (frames l')"
        "n' + of_bool (ev = Advanced) = n + of_bool (ev = Entered)"
      using rt_step_owes [OF step tick l, of n] n(2) l by (auto simp: owes_at_def)
    then show ?thesis
      using n(1) True by (intro exI [of _ n']) (auto simp: owes_at_def passed_snoc clocked_snoc counts_def split: event.splits)
  next
    case False
    then have "threads s' u = threads s u" using rt_step_extends [OF step tick] by (simp add: extends_def)
    then show ?thesis using n False by (auto simp: owes_at_def passed_snoc clocked_snoc)
  qed
qed

lemma owes_at_set_tls [simp]: "owes_at (set_tls t l s) u n = (if u = t then owes (retval l) n (frames l) else owes_at s u n)"
  by (simp add: owes_at_def)

lemma owes_client:
  assumes "owes r n (Client k # fs)" "emits k r gs"
  shows "owes r n (gs @ fs)"
proof -
  have "cdelta k r \<le> n" "owes True (n - cdelta k r) fs" "owes False (n - cdelta k r) fs" using assms(1) by simp_all
  moreover from this have "owes r (n - cdelta k r + cdelta k r) (gs @ fs)" using assms(2) unfolding emits_def by blast
  ultimately show ?thesis by simp
qed

lemma owes_user:
  assumes "at_user l" "owes r n (frames l)"
  shows "owes r n (api_frames op @ frames l)"
proof -
  have "owes True n (frames l)" "owes False n (frames l)"
    using assms by (cases "frames l"; auto simp: at_user_def cdelta_def)+
  then show ?thesis using api_emits by blast
qed

lemma D_inv_pstep:
  assumes D: "D_inv es s" and step: "pstep env s e s'" and tick: "RegionTicker s' = RegionTicker s"
  shows "D_inv (es @ [e]) s'"
  using step
proof cases
  case (run t ev)
  then show ?thesis using D_inv_run [OF D run(2) tick] by simp
next
  case (client t)
  then obtain l k fs gs b s1 where l: "threads s t = Some l" "frames l = Client k # fs" "quiet s s1" "emits k (retval l) gs"
      "s' = set_tls t (l\<lparr> MyThreadJustStarted := b, frames := gs @ fs \<rparr>) s1"
    using client_step_ok [OF client(2)] by blast
  have "owes_at s1 u n = owes_at s u n" for u n using l(3) by (simp add: owes_at_def quiet_def)
  then show ?thesis
    unfolding client(1) using l owes_client [of "retval l" _ k fs gs]
    by (intro D_inv_quiet [OF D]) (auto simp: counts_def owes_at_def split: if_splits)
next
  case (call t l op)
  then show ?thesis
    unfolding call(1,2) using owes_user [of l "retval l" _ op]
    by (intro D_inv_quiet [OF D]) (auto simp: counts_def owes_at_def split: if_splits)
next
  case (spawn t l i fs f h)
  then show ?thesis
    unfolding spawn(1,2)
    by (intro D_inv_quiet [OF D]) (auto simp: counts_def owes_at_def cdelta_def thread_start_def intro: owes_any split: if_splits)
qed (auto simp: counts_def owes_at_def intro!: D_inv_quiet [OF D] split: if_splits)

lemma D_inv_prun:
  assumes "prun env s0 es s" "clean_start s0"
  shows "D_inv es s"
  using assms
proof (induction rule: prun.induct)
  case nil
  then show ?case by (auto simp: D_inv_def clean_start_def passed_def clocked_def)
qed (blast intro: D_inv_pstep)

subsection \<open>The log that selectors read\<close>

lemma RegionBarrier_log:
  assumes "RegionBarrier env t fs s = Some s'" "RegionTicker s' = RegionTicker s"
  shows "stackvars s' = stackvars s \<and> LogReadIndex s' = LogReadIndex s"
proof -
  have "RegionTicker s'' \<noteq> RegionTicker s" if "StartNextRegion env (s\<lparr> NumThreadsRunningInRegion := n \<rparr>) = Some s''" for s'' n
    using StartNextRegion_ticker [OF that] by simp
  then show ?thesis using assms by (fastforce simp: RegionBarrier_def set_tls_def Let_def split: if_splits)
qed

lemma AdvanceToNextFragment_log:
  "AdvanceToNextFragment env t fs s = Some s' \<Longrightarrow> stackvars s' = stackvars s \<and> LogReadIndex s' = LogReadIndex s"
  by (auto simp: AdvanceToNextFragment_def set_tls_def Let_def split: if_splits)

lemma rt_step_log:
  assumes "rt_step env t s = Ok (ev, s')" "RegionTicker s' = RegionTicker s"
  shows "stackvars s' = stackvars s \<and> LogReadIndex s' = LogReadIndex s"
proof -
  obtain l f fs where l: "threads s t = Some l" "frames l = f # fs"
    using assms(1) by (auto simp: rt_step_def split: option.splits list.splits)
  note bar = RegionBarrier_log [OF _ assms(2)] and adv = AdvanceToNextFragment_log [where s = s and s' = s']
  have ini: "stackvars s' = stackvars s \<and> LogReadIndex s' = LogReadIndex s" if "InitializeMyThreadSchedulePtr env t gs s = Some s'" for gs
    using that l(1) bar adv by (auto simp: InitializeMyThreadSchedulePtr_def set_tls_def split: if_splits)
  have upd: "stackvars (set_tls t k s) = stackvars s \<and> LogReadIndex (set_tls t k s) = LogReadIndex s" for k
    by (simp add: set_tls_def)
  show ?thesis
  proof (cases f)
    case (EdgeLoop n)
    then show ?thesis using assms(1) l by (auto simp: rt_step_def upd split: nat.splits res.splits)
  qed (use assms(1) l bar adv ini in \<open>auto simp: rt_step_def AdvanceHbNode_def upd Let_def split: if_splits option.splits\<close>)
qed

lemma pstep_lookup:
  assumes "pstep env s e s'" "RegionTicker s' = RegionTicker s"
  shows "LogReadIndex s' = LogReadIndex s \<and> LogicalThreadMap s' = LogicalThreadMap s \<and>
    (\<forall>bits. stackvars s' bits LogSnapshotIndex = stackvars s bits LogSnapshotIndex)"
  using assms(1)
proof cases
  case (run t ev)
  then show ?thesis using rt_step_log [OF run(2) assms(2)] rt_step_extends [OF run(2) assms(2)] by (simp add: extends_def)
next
  case (client t)
  then obtain l s1 where "quiet s s1" "s' = set_tls t l s1" using client_step_ok [OF client(2)] by blast
  then show ?thesis by (simp add: quiet_def same_sched_def set_tls_def)
qed (auto simp: set_tls_def)

lemma prun_lookup:
  assumes "prun env s0 es s"
  shows "LogReadIndex s = LogReadIndex s0 \<and> LogicalThreadMap s = LogicalThreadMap s0 \<and>
    (\<forall>bits. stackvars s bits LogSnapshotIndex = stackvars s0 bits LogSnapshotIndex)"
  using assms by (induction rule: prun.induct) (auto dest: pstep_lookup)

subsection \<open>Concrete runs\<close>

datatype pact = Runs nat | Steps nat | Calls nat api

definition pact_step :: "sync_env \<Rightarrow> pact \<Rightarrow> sync \<Rightarrow> ((nat \<times> event) \<times> sync) option" where
  "pact_step env a s =
     (case a of
        Runs t \<Rightarrow> (case rt_step env t s of Ok (ev, s') \<Rightarrow> Some ((t, ev), s') | _ \<Rightarrow> None)
      | Steps t \<Rightarrow> (case client_step env t s of Ok s' \<Rightarrow> Some ((t, Tau), s') | _ \<Rightarrow> None)
      | Calls t op \<Rightarrow> do {
          l \<leftarrow> threads s t;
          assert_opt (at_user l);
          Some ((t, Tau), set_tls t (l\<lparr> frames := api_frames op @ frames l \<rparr>) s)
        })"

fun pscript :: "sync_env \<Rightarrow> pact list \<Rightarrow> sync \<Rightarrow> ((nat \<times> event) list \<times> sync) option" where
  "pscript env [] s = Some ([], s)"
| "pscript env (a # as) s = do {
     (e, s') \<leftarrow> pact_step env a s;
     assert_opt (RegionTicker s' = RegionTicker s);
     (es, s'') \<leftarrow> pscript env as s';
     Some (e # es, s'')
   }"

lemma pact_step_pstep: "pact_step env a s = Some (e, s') \<Longrightarrow> pstep env s e s'"
  by (auto simp: pact_step_def split: pact.splits res.splits if_splits intro: pstep.intros)

lemma pscript_prun:
  assumes "pscript env as s = Some (es, s')" "prun env s0 es0 s"
  shows "prun env s0 (es0 @ es) s'"
  using assms
proof (induction as arbitrary: s es0 es)
  case (Cons a as)
  then obtain e s1 es1 where a: "pact_step env a s = Some (e, s1)" "RegionTicker s1 = RegionTicker s"
      "pscript env as s1 = Some (es1, s')" "es = e # es1"
    by (auto split: if_splits)
  have "prun env s0 (es0 @ [e]) s1" using Cons.prems(2) pact_step_pstep [OF a(1)] a(2) by (blast intro: prun.snoc)
  from Cons.IH [OF a(3) this] show ?case by (simp add: a(4))
qed simp

definition sync_initialize :: "HBSchedule \<Rightarrow> sync" where
  "sync_initialize h = rt.extend (klee_ics_initialize h)
     (sync.fields (\<lambda>_. zero_mutex) (\<lambda>_. \<lparr> c_mutex = 0, c_queued = 0 \<rparr>) (\<lambda>_. \<lparr> b_init_count = 0, b_left = 0 \<rparr>) (\<lambda>_. 0) (\<lambda>_. 0)
        (\<lambda>k. zero_thread_data\<lparr> td_allocated := (k = 0), td_joinable := (k = 0) \<rparr>) 1 (\<lambda>_. 0))"

lemma sync_initialize_clean: "clean_start (sync_initialize h)"
  by (simp add: clean_start_def owes_at_def sync_initialize_def rt.extend_def sync.fields_def klee_ics_initialize_def thread_start_def)

text \<open>One thread whose schedule has one node: it writes a stack variable, then locks a mutex.\<close>

definition sync_demo_env :: sync_env where
  "sync_demo_env = \<lparr> schedule_selectors = (\<lambda>_ _. None), snapshot_functions = (\<lambda>_ _ _ _. 0), regionctx_table = [],
     callctx_table = [0, 0], stackvars_sizes = (\<lambda>_ _. 0) \<rparr>"

definition sync_demo_start :: sync where
  "sync_demo_start = sync_initialize \<lparr> numThreads = 1, nextThreadLeaderId = 0, nextScheduleSelectorId = 0, exitsProgramFlag = 0,
     threadSchedules = [enc [SyncNode 1 None []] @ [0]] \<rparr>"

definition sync_demo_script :: "pact list" where
  "sync_demo_script = [Runs 0, Runs 0, Calls 0 (klee_ics_log_stackvar 8 3 0 7), Steps 0, Calls 0 (pthread_mutex_lock 5)] @
     replicate 6 (Runs 0) @ [Steps 0, Runs 0, Steps 0]"

lemma sync_demo_run:
  obtains es s l where "prun sync_demo_env sync_demo_start es s" "threads s 0 = Some l" "frames l = []"
    "m_taken (mutexes s 5)" "stackvars s 8 LogCurrIndex 0 3 = 7" "passed es 0 = 1"
proof -
  have "map_option (\<lambda>(es, s). (es, map_option frames (threads s 0), m_taken (mutexes s 5), stackvars s 8 LogCurrIndex 0 3))
     (pscript sync_demo_env sync_demo_script sync_demo_start) =
     Some (replicate 7 (0, Tau) @ [(0, Entered)] @ replicate 4 (0, Tau) @ [(0, Advanced), (0, Tau)], Some [], True, 7)"
    by code_simp
  then obtain es s l where r: "pscript sync_demo_env sync_demo_script sync_demo_start = Some (es, s)" "threads s 0 = Some l"
      "frames l = []" "m_taken (mutexes s 5)" "stackvars s 8 LogCurrIndex 0 3 = 7"
      "es = replicate 7 (0, Tau) @ [(0, Entered)] @ replicate 4 (0, Tau) @ [(0, Advanced), (0, Tau)]"
    by auto
  from pscript_prun [OF r(1) prun.nil] have "prun sync_demo_env sync_demo_start es s" by simp
  then show ?thesis using that r by (simp add: passed_def)
qed

subsection \<open>Properties\<close>

text \<open>C10. The interface functions advance the vector clock exactly once for every schedule node they have
  entered: whatever the program, a thread never advances more nodes than it has passed, and a thread
  that is outside the runtime has advanced all of them.\<close>

theorem clock_discipline:
  assumes "prun env s0 es s" "clean_start s0"
  shows "clocked es t \<le> passed es t \<and>
    (\<forall>l. threads s t = Some l \<longrightarrow> frames l = [] \<longrightarrow> clocked es t = passed es t)"
proof -
  obtain n where n: "passed es t = clocked es t + n" "owes_at s t n"
    using D_inv_prun [OF assms] unfolding D_inv_def by blast
  then show ?thesis by (auto simp: owes_at_def)
qed

theorem clock_discipline_witness:
  "\<exists>es s. prun sync_demo_env sync_demo_start es s \<and> clocked es 0 = 1 \<and> m_taken (mutexes s 5)"
proof -
  obtain es s l where r: "prun sync_demo_env sync_demo_start es s" "threads s 0 = Some l" "frames l = []"
    "m_taken (mutexes s 5)" "passed es 0 = 1"
    by (rule sync_demo_run)
  have "clocked es 0 = passed es 0"
    using clock_discipline [OF r(1), of 0] r(2,3) by (simp add: sync_demo_start_def sync_initialize_clean)
  then show ?thesis using r by auto
qed



subsection \<open>The spin locks of uClibc\<close>

text \<open>\<^verbatim>\<open>__sync_lock_test_and_set\<close> sets the flag and returns its old value. The waiting loop repeats
  it until it returns true, which the first repetition does: the flag was set by the call before it. The
  function is one step here, as no other thread runs in between.\<close>

definition test_and_set :: "mutex \<Rightarrow> bool \<times> mutex" where
  "test_and_set m = (m_taken m, m\<lparr> m_taken := True \<rparr>)"

definition spinlock_lock :: "nat \<Rightarrow> bool \<Rightarrow> mutex \<Rightarrow> int \<times> mutex" where
  "spinlock_lock t istry m =
     (let (success, m) = test_and_set m in
      if \<not> success \<and> m_owner m = t then (0, m\<lparr> m_queued := m_queued m + 1 \<rparr>)
      else if \<not> success \<and> istry then (EBUSY, m)
      else (0, m\<lparr> m_owner := t, m_queued := 1 \<rparr>))"

definition spinlock_unlock :: "nat \<Rightarrow> mutex \<Rightarrow> int \<times> mutex" where
  "spinlock_unlock t m =
     (if \<not> m_taken m \<or> m_owner m \<noteq> t then (EPERM, m)
      else let m = (if m_queued m > 0 then m\<lparr> m_queued := m_queued m - 1 \<rparr> else m) in
        if m_queued m \<noteq> 0 then (0, m) else (0, m\<lparr> m_taken := False \<rparr>))"


end
