(* ===== verification/Expr.thy ===== *)
theory Expr
  imports Prelude "HOL-Library.Signed_Division"
begin

text \<open>
  Symbolic expressions (\<^verbatim>\<open>include/klee/Expr.h\<close>, \<^verbatim>\<open>lib/Expr/Expr.cpp\<close>): the
  expression classes, constant folding, and the simplifying constructors \<^verbatim>\<open>create\<close> of the binary
  operators.

  The constructors of the binary operators call each other. Every function below that takes part in
  this recursion has the recursive call as its first argument, \<^verbatim>\<open>rec k l r\<close> for
  \<^verbatim>\<open>k##Expr::create(l, r)\<close>; \<^verbatim>\<open>create n\<close> unfolds it \<^verbatim>\<open>n\<close> times, and
  \<^verbatim>\<open>Expr_Term\<close> shows how many times are enough. None is an assertion failure, or no result
  within \<^verbatim>\<open>n\<close> calls.

  Expressions are compared structurally, as \<^verbatim>\<open>Expr::compare\<close> does when equal expressions have
  equal hash values.
\<close>

unbundle bit_operations_syntax

subsection \<open>Expressions\<close>

datatype Kind =
    Add | Sub | Mul | UDiv | SDiv | URem | SRem
  | And | Or | Xor | Shl | LShr | AShr
  | Eq | Ne | Ult | Ule | Ugt | Uge | Slt | Sle | Sgt | Sge
  | Implies

text \<open>An array with its updates is the identity \<^verbatim>\<open>'u\<close>; a constant has a width and an unsigned
  value.\<close>

datatype 'u expr =
    ConstantExpr nat int
  | NotOptimizedExpr "'u expr"
  | ReadExpr 'u "'u expr"
  | SelectExpr "'u expr" "'u expr" "'u expr"
  | ConcatExpr "'u expr" "'u expr"
  | ExtractExpr "'u expr" nat nat
  | ZExtExpr "'u expr" nat
  | SExtExpr "'u expr" nat
  | NotExpr "'u expr"
  | BinaryExpr Kind "'u expr" "'u expr"
  | QVarExpr string nat
  | ForallExpr string nat "'u expr"

abbreviation "TrueE \<equiv> ConstantExpr 1 1"

abbreviation "FalseE \<equiv> ConstantExpr 1 0"

definition is_cmp :: "Kind \<Rightarrow> bool" where
  "is_cmp k \<longleftrightarrow> k \<in> {Eq, Ne, Ult, Ule, Ugt, Uge, Slt, Sle, Sgt, Sge}"

lemma is_cmp_simps [simp]:
  "is_cmp Eq" "is_cmp Ne" "is_cmp Ult" "is_cmp Ule" "is_cmp Ugt" "is_cmp Uge" "is_cmp Slt" "is_cmp Sle" "is_cmp Sgt" "is_cmp Sge"
  "\<not> is_cmp Add" "\<not> is_cmp Sub" "\<not> is_cmp Mul" "\<not> is_cmp UDiv" "\<not> is_cmp SDiv" "\<not> is_cmp URem" "\<not> is_cmp SRem"
  "\<not> is_cmp And" "\<not> is_cmp Or" "\<not> is_cmp Xor" "\<not> is_cmp Shl" "\<not> is_cmp LShr" "\<not> is_cmp AShr" "\<not> is_cmp Implies"
  by (simp_all add: is_cmp_def)

fun getWidth :: "'u expr \<Rightarrow> nat" where
  "getWidth (ConstantExpr w v) = w"
| "getWidth (NotOptimizedExpr e) = getWidth e"
| "getWidth (ReadExpr u i) = 8"
| "getWidth (SelectExpr c t f) = getWidth t"
| "getWidth (ConcatExpr l r) = getWidth l + getWidth r"
| "getWidth (ExtractExpr e off w) = w"
| "getWidth (ZExtExpr e w) = w"
| "getWidth (SExtExpr e w) = w"
| "getWidth (NotExpr e) = getWidth e"
| "getWidth (BinaryExpr k l r) = (if is_cmp k then 1 else getWidth l)"
| "getWidth (QVarExpr x w) = w"
| "getWidth (ForallExpr x w e) = 1"

text \<open>\<^verbatim>\<open>ExprNaryIterator\<close>: the terms of a chain that is unbalanced to the right.\<close>

fun nary :: "Kind \<Rightarrow> 'u expr \<Rightarrow> 'u expr list" where
  "nary k (BinaryExpr k' a b) = (if k' = k then a # nary k b else [BinaryExpr k' a b])"
| "nary k e = [e]"

subsection \<open>Constants\<close>

text \<open>The operations of \<^verbatim>\<open>APInt\<close> that the constants use, on values below \<^verbatim>\<open>2 ^ w\<close>. A shift by the
  width or more shifts everything out; division by zero is an assertion failure.\<close>

definition as_signed :: "nat \<Rightarrow> int \<Rightarrow> int" where
  "as_signed w v = signed_take_bit (w - 1) v"

definition ap_shift :: "nat \<Rightarrow> int \<Rightarrow> nat" where
  "ap_shift w b = nat (min b (int w))"

fun ap_op :: "Kind \<Rightarrow> nat \<Rightarrow> int \<Rightarrow> int \<Rightarrow> int option" where
  "ap_op Add w a b = Some (take_bit w (a + b))"
| "ap_op Sub w a b = Some (take_bit w (a - b))"
| "ap_op Mul w a b = Some (take_bit w (a * b))"
| "ap_op UDiv w a b = (if b = 0 then None else Some (a div b))"
| "ap_op SDiv w a b = (if b = 0 then None else Some (take_bit w (as_signed w a sdiv as_signed w b)))"
| "ap_op URem w a b = (if b = 0 then None else Some (a mod b))"
| "ap_op SRem w a b = (if b = 0 then None else Some (take_bit w (as_signed w a smod as_signed w b)))"
| "ap_op And w a b = Some (a AND b)"
| "ap_op Or w a b = Some (a OR b)"
| "ap_op Xor w a b = Some (a XOR b)"
| "ap_op Shl w a b = Some (take_bit w (push_bit (ap_shift w b) a))"
| "ap_op LShr w a b = Some (drop_bit (ap_shift w b) a)"
| "ap_op AShr w a b = Some (take_bit w (drop_bit (ap_shift w b) (as_signed w a)))"
| "ap_op Eq w a b = Some (of_bool (a = b))"
| "ap_op Ne w a b = Some (of_bool (a \<noteq> b))"
| "ap_op Ult w a b = Some (of_bool (a < b))"
| "ap_op Ule w a b = Some (of_bool (a \<le> b))"
| "ap_op Ugt w a b = Some (of_bool (a > b))"
| "ap_op Uge w a b = Some (of_bool (a \<ge> b))"
| "ap_op Slt w a b = Some (of_bool (as_signed w a < as_signed w b))"
| "ap_op Sle w a b = Some (of_bool (as_signed w a \<le> as_signed w b))"
| "ap_op Sgt w a b = Some (of_bool (as_signed w a > as_signed w b))"
| "ap_op Sge w a b = Some (of_bool (as_signed w a \<ge> as_signed w b))"
| "ap_op Implies w a b = Some (of_bool (a = 1 \<longrightarrow> b = 1))"

definition ap_ZExt :: "nat \<Rightarrow> int \<Rightarrow> int" where
  "ap_ZExt w v = take_bit w v"

definition ap_SExt :: "nat \<Rightarrow> nat \<Rightarrow> int \<Rightarrow> int" where
  "ap_SExt from w v = take_bit w (as_signed from v)"

definition ap_Extract :: "nat \<Rightarrow> nat \<Rightarrow> nat \<Rightarrow> int \<Rightarrow> int" where
  "ap_Extract from off w v = take_bit w (drop_bit off (as_signed from v))"

definition ap_Concat :: "nat \<Rightarrow> int \<Rightarrow> int \<Rightarrow> int" where
  "ap_Concat wr a b = push_bit wr a OR b"

definition ap_Not :: "nat \<Rightarrow> int \<Rightarrow> int" where
  "ap_Not w v = take_bit w (NOT v)"

definition isAllOnes :: "nat \<Rightarrow> int \<Rightarrow> bool" where
  "isAllOnes w v \<longleftrightarrow> v = mask w"

text \<open>\<^verbatim>\<open>ConstantExpr::Add\<close> and the other operations on two constants.\<close>

definition fold_op :: "Kind \<Rightarrow> nat \<Rightarrow> int \<Rightarrow> int \<Rightarrow> 'u expr option" where
  "fold_op k w a b = map_option (ConstantExpr (if is_cmp k then 1 else w)) (ap_op k w a b)"

subsection \<open>Equality, conjunction and disjunction\<close>

type_synonym 'u creates = "Kind \<Rightarrow> 'u expr \<Rightarrow> 'u expr \<Rightarrow> 'u expr option"

definition createIsZero :: "'u creates \<Rightarrow> 'u expr \<Rightarrow> 'u expr option" where
  "createIsZero rec e = rec Eq e (ConstantExpr (getWidth e) 0)"

definition isNegation_Partial :: "'u expr \<Rightarrow> 'u expr \<Rightarrow> bool" where
  "isNegation_Partial l r \<longleftrightarrow> (case l of BinaryExpr Eq a b \<Rightarrow> a = FalseE \<and> b = r | _ \<Rightarrow> False)"

definition isNegation :: "'u expr \<Rightarrow> 'u expr \<Rightarrow> bool" where
  "isNegation l r \<longleftrightarrow> isNegation_Partial l r \<or> isNegation_Partial r l"

definition AndExpr_createPartial :: "'u expr \<Rightarrow> nat \<Rightarrow> int \<Rightarrow> 'u expr option" where
  "AndExpr_createPartial l w c =
     Some (if isAllOnes w c then l else if c = 0 then ConstantExpr w c else BinaryExpr And l (ConstantExpr w c))"

definition OrExpr_createPartial :: "'u expr \<Rightarrow> nat \<Rightarrow> int \<Rightarrow> 'u expr option" where
  "OrExpr_createPartial l w c =
     Some (if isAllOnes w c then ConstantExpr w c else if c = 0 then l else BinaryExpr Or l (ConstantExpr w c))"

text \<open>The loop over the terms \<^verbatim>\<open>ts\<close> of \<^verbatim>\<open>r\<close>: \<^verbatim>\<open>stop\<close> is the result when one of them is the negation
  of \<^verbatim>\<open>l\<close>.\<close>

fun scan_terms :: "'u expr \<Rightarrow> 'u expr \<Rightarrow> 'u expr \<Rightarrow> 'u expr list \<Rightarrow> 'u expr option" where
  "scan_terms l r stop [] = None"
| "scan_terms l r stop (t # ts) =
     (if l = t then Some r else if isNegation l t then Some stop else scan_terms l r stop ts)"

definition AndExpr_create :: "'u creates \<Rightarrow> 'u expr \<Rightarrow> 'u expr \<Rightarrow> 'u expr option" where
  "AndExpr_create rec l r =
     (case l of
        BinaryExpr And a b \<Rightarrow> do { x \<leftarrow> rec And b r; rec And a x }
      | _ \<Rightarrow>
        (case (if getWidth l = 1 then scan_terms l r FalseE (nary And r) else None) of
           Some e \<Rightarrow> Some e
         | None \<Rightarrow> Some (BinaryExpr And l r)))"

definition OrExpr_create :: "'u creates \<Rightarrow> 'u expr \<Rightarrow> 'u expr \<Rightarrow> 'u expr option" where
  "OrExpr_create rec l r =
     (case l of
        BinaryExpr Or a b \<Rightarrow> do { x \<leftarrow> rec Or b r; rec Or a x }
      | _ \<Rightarrow>
        (case (if getWidth l = 1 then scan_terms l r TrueE (nary Or r) else None) of
           Some e \<Rightarrow> Some e
         | None \<Rightarrow> Some (BinaryExpr Or l r)))"

definition EqExpr_isNeq :: "'u expr \<Rightarrow> 'u expr \<Rightarrow> bool" where
  "EqExpr_isNeq l r \<longleftrightarrow> (case l of BinaryExpr Add (ConstantExpr w c) b \<Rightarrow> b = r | _ \<Rightarrow> False)"

definition EqExpr_create :: "'u expr \<Rightarrow> 'u expr \<Rightarrow> 'u expr" where
  "EqExpr_create l r =
     (if l = r then TrueE
      else if EqExpr_isNeq l r \<or> EqExpr_isNeq r l then FalseE
      else BinaryExpr Eq l r)"

text \<open>The cast of the folded difference to a constant cannot fail: both operands are constants.\<close>

fun EqExpr_createPartialR :: "'u creates \<Rightarrow> nat \<Rightarrow> int \<Rightarrow> 'u expr \<Rightarrow> 'u expr option" where
  "EqExpr_createPartialR rec w c r =
     (if w = 1 then
        if c = 1 then Some r
        else (case r of
            BinaryExpr Eq (ConstantExpr w' c') b \<Rightarrow>
              if w' = 1 \<and> c' = 0 then Some b else Some (EqExpr_create (ConstantExpr w c) r)
          | BinaryExpr Or a b \<Rightarrow> do { x \<leftarrow> createIsZero rec a; y \<leftarrow> createIsZero rec b; rec And x y }
          | _ \<Rightarrow> Some (EqExpr_create (ConstantExpr w c) r))
      else (case r of
          SExtExpr src w' \<Rightarrow>
            let from = getWidth src; trunc = ap_ZExt from c in
            if c = ap_SExt from w trunc then rec Eq src (ConstantExpr from trunc) else Some FalseE
        | ZExtExpr src w' \<Rightarrow>
            let from = getWidth src; trunc = ap_ZExt from c in
            if c = ap_ZExt w trunc then rec Eq src (ConstantExpr from trunc) else Some FalseE
        | BinaryExpr Add (ConstantExpr w' k) b \<Rightarrow>
            if w = w' then EqExpr_createPartialR rec w (take_bit w (c - k)) b else None
        | BinaryExpr Sub (ConstantExpr w' k) b \<Rightarrow>
            if w = w' then EqExpr_createPartialR rec w (take_bit w (k - c)) b else None
        | _ \<Rightarrow> Some (EqExpr_create (ConstantExpr w c) r)))"

declare EqExpr_createPartialR.simps [simp del]

subsection \<open>Arithmetic\<close>

definition XorExpr_createPartialR :: "'u creates \<Rightarrow> nat \<Rightarrow> int \<Rightarrow> 'u expr \<Rightarrow> 'u expr option" where
  "XorExpr_createPartialR rec w c r =
     (if c = 0 then Some r
      else if w = 1 then EqExpr_createPartialR rec 1 0 r
      else Some (BinaryExpr Xor (ConstantExpr w c) r))"

definition AddExpr_createPartialR :: "'u creates \<Rightarrow> nat \<Rightarrow> int \<Rightarrow> 'u expr \<Rightarrow> 'u expr option" where
  "AddExpr_createPartialR rec w c r =
     (if w = 1 then XorExpr_createPartialR rec w c r
      else if c = 0 then Some r
      else (case r of
          BinaryExpr Add (ConstantExpr w' b) x \<Rightarrow> do { k \<leftarrow> rec Add (ConstantExpr w c) (ConstantExpr w' b); rec Add k x }
        | BinaryExpr Sub (ConstantExpr w' b) x \<Rightarrow> do { k \<leftarrow> rec Add (ConstantExpr w c) (ConstantExpr w' b); rec Sub k x }
        | _ \<Rightarrow> Some (BinaryExpr Add (ConstantExpr w c) r)))"

definition AddExpr_create :: "'u creates \<Rightarrow> 'u expr \<Rightarrow> 'u expr \<Rightarrow> 'u expr option" where
  "AddExpr_create rec l r =
     (if getWidth l = 1 then Some (BinaryExpr Xor l r)
      else (case l of
          BinaryExpr Add (ConstantExpr w k) a \<Rightarrow> do { x \<leftarrow> rec Add a r; rec Add (ConstantExpr w k) x }
        | BinaryExpr Sub (ConstantExpr w k) a \<Rightarrow> do { x \<leftarrow> rec Sub r a; rec Add (ConstantExpr w k) x }
        | _ \<Rightarrow> (case r of
            BinaryExpr Add (ConstantExpr w k) b \<Rightarrow> do { x \<leftarrow> rec Add l b; rec Add (ConstantExpr w k) x }
          | BinaryExpr Sub (ConstantExpr w k) b \<Rightarrow> do { x \<leftarrow> rec Sub l b; rec Add (ConstantExpr w k) x }
          | _ \<Rightarrow> Some (BinaryExpr Add l r))))"

definition SubExpr_createPartialR :: "'u creates \<Rightarrow> nat \<Rightarrow> int \<Rightarrow> 'u expr \<Rightarrow> 'u expr option" where
  "SubExpr_createPartialR rec w c r =
     (if w = 1 then XorExpr_createPartialR rec w c r
      else (case r of
          BinaryExpr Add (ConstantExpr w' b) x \<Rightarrow> do { k \<leftarrow> rec Sub (ConstantExpr w c) (ConstantExpr w' b); rec Sub k x }
        | BinaryExpr Sub (ConstantExpr w' b) x \<Rightarrow> do { k \<leftarrow> rec Sub (ConstantExpr w c) (ConstantExpr w' b); rec Add k x }
        | _ \<Rightarrow> Some (BinaryExpr Sub (ConstantExpr w c) r)))"

definition SubExpr_createPartial :: "'u creates \<Rightarrow> 'u expr \<Rightarrow> nat \<Rightarrow> int \<Rightarrow> 'u expr option" where
  "SubExpr_createPartial rec l w c = AddExpr_createPartialR rec w (take_bit w (0 - c)) l"

definition SubExpr_create :: "'u creates \<Rightarrow> 'u expr \<Rightarrow> 'u expr \<Rightarrow> 'u expr option" where
  "SubExpr_create rec l r =
     (if getWidth l = 1 then Some (BinaryExpr Xor l r)
      else if l = r then Some (ConstantExpr (getWidth l) 0)
      else (case l of
          BinaryExpr Add (ConstantExpr w k) a \<Rightarrow> do { x \<leftarrow> rec Sub a r; rec Add (ConstantExpr w k) x }
        | BinaryExpr Sub (ConstantExpr w k) a \<Rightarrow> do { x \<leftarrow> rec Add a r; rec Sub (ConstantExpr w k) x }
        | _ \<Rightarrow> (case r of
            BinaryExpr Add (ConstantExpr w k) b \<Rightarrow> do { x \<leftarrow> rec Sub l b; rec Sub x (ConstantExpr w k) }
          | BinaryExpr Sub (ConstantExpr w k) b \<Rightarrow> do { x \<leftarrow> rec Add l b; rec Sub x (ConstantExpr w k) }
          | _ \<Rightarrow> Some (BinaryExpr Sub l r))))"

definition MulExpr_createPartialR :: "nat \<Rightarrow> int \<Rightarrow> 'u expr \<Rightarrow> 'u expr option" where
  "MulExpr_createPartialR w c r =
     (if w = 1 then AndExpr_createPartial r w c
      else Some (if c = 1 then r else if c = 0 then ConstantExpr w c else BinaryExpr Mul (ConstantExpr w c) r))"

definition MulExpr_create :: "'u expr \<Rightarrow> 'u expr \<Rightarrow> 'u expr option" where
  "MulExpr_create l r = Some (BinaryExpr (if getWidth l = 1 then And else Mul) l r)"

text \<open>The operators whose operands are not both constant, and that treat a constant operand like any
  other. At width 1 the divisor is taken to be 1.\<close>

definition other_create :: "'u creates \<Rightarrow> Kind \<Rightarrow> 'u expr \<Rightarrow> 'u expr \<Rightarrow> 'u expr option" where
  "other_create rec k l r =
     (if getWidth l = 1 then
        (case k of
           UDiv \<Rightarrow> Some l | SDiv \<Rightarrow> Some l
         | URem \<Rightarrow> Some FalseE | SRem \<Rightarrow> Some FalseE
         | Shl \<Rightarrow> do { z \<leftarrow> createIsZero rec r; rec And l z }
         | LShr \<Rightarrow> do { z \<leftarrow> createIsZero rec r; rec And l z }
         | AShr \<Rightarrow> Some l
         | Ult \<Rightarrow> do { z \<leftarrow> createIsZero rec l; rec And z r }
         | Ule \<Rightarrow> do { z \<leftarrow> createIsZero rec l; rec Or z r }
         | Slt \<Rightarrow> do { z \<leftarrow> createIsZero rec r; rec And l z }
         | Sle \<Rightarrow> do { z \<leftarrow> createIsZero rec r; rec Or l z }
         | _ \<Rightarrow> None)
      else Some (BinaryExpr k l r))"

definition ImpliesExpr_create :: "'u creates \<Rightarrow> 'u expr \<Rightarrow> 'u expr \<Rightarrow> 'u expr option" where
  "ImpliesExpr_create rec hyp conc =
     (if getWidth hyp \<noteq> 1 \<or> getWidth conc \<noteq> 1 then None
      else (case hyp of
          ConstantExpr w c \<Rightarrow> Some (if c = 1 then conc else TrueE)
        | _ \<Rightarrow> (case conc of
            ConstantExpr w c \<Rightarrow> if c = 1 then Some TrueE else createIsZero rec hyp
          | _ \<Rightarrow> Some (BinaryExpr Implies hyp conc))))"

subsection \<open>The constructors\<close>

text \<open>Dispatch of the macros \<^verbatim>\<open>BCREATE\<close>, \<^verbatim>\<open>BCREATE_R\<close>, \<^verbatim>\<open>CMPCREATE\<close> and \<^verbatim>\<open>CMPCREATE_T\<close>: both
  operands constant, one of them, or none.\<close>

definition partialR :: "'u creates \<Rightarrow> Kind \<Rightarrow> nat \<Rightarrow> int \<Rightarrow> 'u expr \<Rightarrow> 'u expr option" where
  "partialR rec k w c r =
     (case k of
        Add \<Rightarrow> AddExpr_createPartialR rec w c r
      | Sub \<Rightarrow> SubExpr_createPartialR rec w c r
      | Mul \<Rightarrow> MulExpr_createPartialR w c r
      | And \<Rightarrow> AndExpr_createPartial r w c
      | Or \<Rightarrow> OrExpr_createPartial r w c
      | Xor \<Rightarrow> XorExpr_createPartialR rec w c r
      | Eq \<Rightarrow> EqExpr_createPartialR rec w c r
      | _ \<Rightarrow> other_create rec k (ConstantExpr w c) r)"

definition partialL :: "'u creates \<Rightarrow> Kind \<Rightarrow> 'u expr \<Rightarrow> nat \<Rightarrow> int \<Rightarrow> 'u expr option" where
  "partialL rec k l w c =
     (case k of
        Add \<Rightarrow> AddExpr_createPartialR rec w c l
      | Sub \<Rightarrow> SubExpr_createPartial rec l w c
      | Mul \<Rightarrow> MulExpr_createPartialR w c l
      | And \<Rightarrow> AndExpr_createPartial l w c
      | Or \<Rightarrow> OrExpr_createPartial l w c
      | Xor \<Rightarrow> XorExpr_createPartialR rec w c l
      | Eq \<Rightarrow> EqExpr_createPartialR rec w c l
      | _ \<Rightarrow> other_create rec k l (ConstantExpr w c))"

definition general :: "'u creates \<Rightarrow> Kind \<Rightarrow> 'u expr \<Rightarrow> 'u expr \<Rightarrow> 'u expr option" where
  "general rec k l r =
     (case k of
        Add \<Rightarrow> AddExpr_create rec l r
      | Sub \<Rightarrow> SubExpr_create rec l r
      | Mul \<Rightarrow> MulExpr_create l r
      | And \<Rightarrow> AndExpr_create rec l r
      | Or \<Rightarrow> OrExpr_create rec l r
      | Xor \<Rightarrow> Some (BinaryExpr Xor l r)
      | Eq \<Rightarrow> Some (EqExpr_create l r)
      | _ \<Rightarrow> other_create rec k l r)"

definition create_body :: "'u creates \<Rightarrow> 'u creates" where
  "create_body rec k l r =
     (case k of
        Ne \<Rightarrow> do { x \<leftarrow> rec Eq l r; rec Eq FalseE x }
      | Ugt \<Rightarrow> rec Ult r l
      | Uge \<Rightarrow> rec Ule r l
      | Sgt \<Rightarrow> rec Slt r l
      | Sge \<Rightarrow> rec Sle r l
      | Implies \<Rightarrow> ImpliesExpr_create rec l r
      | _ \<Rightarrow>
        if getWidth l \<noteq> getWidth r then None
        else (case l of
            ConstantExpr w a \<Rightarrow> (case r of ConstantExpr w' b \<Rightarrow> fold_op k w a b | _ \<Rightarrow> partialR rec k w a r)
          | _ \<Rightarrow> (case r of ConstantExpr w b \<Rightarrow> partialL rec k l w b | _ \<Rightarrow> general rec k l r)))"

primrec create :: "nat \<Rightarrow> 'u creates" where
  "create 0 = (\<lambda>k l r. None)"
| "create (Suc n) = create_body (create n)"

end
