(* ===== verification/Expr_Sound.thy ===== *)
theory Expr_Sound
  imports Expr
begin

text \<open>
  Meaning of expressions, and the proof that the simplifying constructors preserve it. A value is
  unsigned and below \<^verbatim>\<open>2 ^ w\<close>; None is a division by zero.
\<close>

subsection \<open>Well-formed expressions and their values\<close>

text \<open>Widths agree, and the canonical form is respected where the simplifications rely on it: a
  constant summand is not zero (\<^verbatim>\<open>EqExpr_isNeq\<close>), and nothing is extracted from a concatenation.\<close>

fun wfe :: "'u expr \<Rightarrow> bool" where
  "wfe (ConstantExpr w v) \<longleftrightarrow> 0 < w \<and> take_bit w v = v"
| "wfe (NotOptimizedExpr e) \<longleftrightarrow> wfe e"
| "wfe (ReadExpr u i) \<longleftrightarrow> wfe i \<and> getWidth i = 32"
| "wfe (SelectExpr c t f) \<longleftrightarrow> wfe c \<and> wfe t \<and> wfe f \<and> getWidth c = 1 \<and> getWidth t = getWidth f"
| "wfe (ConcatExpr l r) \<longleftrightarrow> wfe l \<and> wfe r"
| "wfe (ExtractExpr e off w) \<longleftrightarrow> wfe e \<and> 0 < w \<and> off + w \<le> getWidth e \<and> (case e of ConcatExpr _ _ \<Rightarrow> False | _ \<Rightarrow> True)"
| "wfe (ZExtExpr e w) \<longleftrightarrow> wfe e \<and> getWidth e \<le> w"
| "wfe (SExtExpr e w) \<longleftrightarrow> wfe e \<and> getWidth e \<le> w"
| "wfe (NotExpr e) \<longleftrightarrow> wfe e"
| "wfe (BinaryExpr k l r) \<longleftrightarrow> wfe l \<and> wfe r \<and> getWidth l = getWidth r \<and> (k = Implies \<longrightarrow> getWidth l = 1) \<and>
     (case l of ConstantExpr w c \<Rightarrow> k = Add \<longrightarrow> c \<noteq> 0 | _ \<Rightarrow> True)"
| "wfe (QVarExpr x w) \<longleftrightarrow> 0 < w"
| "wfe (ForallExpr x w e) \<longleftrightarrow> wfe e \<and> getWidth e = 1"

fun eval :: "('u \<Rightarrow> int \<Rightarrow> int) \<Rightarrow> (string \<Rightarrow> int) \<Rightarrow> 'u expr \<Rightarrow> int option" where
  "eval rd q (ConstantExpr w v) = Some v"
| "eval rd q (NotOptimizedExpr e) = eval rd q e"
| "eval rd q (ReadExpr u i) = do { a \<leftarrow> eval rd q i; Some (take_bit 8 (rd u a)) }"
| "eval rd q (SelectExpr c t f) = do { a \<leftarrow> eval rd q c; x \<leftarrow> eval rd q t; y \<leftarrow> eval rd q f; Some (if a = 1 then x else y) }"
| "eval rd q (ConcatExpr l r) = do { a \<leftarrow> eval rd q l; b \<leftarrow> eval rd q r; Some (push_bit (getWidth r) a + b) }"
| "eval rd q (ExtractExpr e off w) = do { a \<leftarrow> eval rd q e; Some (take_bit w (drop_bit off a)) }"
| "eval rd q (ZExtExpr e w) = eval rd q e"
| "eval rd q (SExtExpr e w) = do { a \<leftarrow> eval rd q e; Some (take_bit w (as_signed (getWidth e) a)) }"
| "eval rd q (NotExpr e) = do { a \<leftarrow> eval rd q e; Some (mask (getWidth e) - a) }"
| "eval rd q (BinaryExpr k l r) = do { a \<leftarrow> eval rd q l; b \<leftarrow> eval rd q r; ap_op k (getWidth l) a b }"
| "eval rd q (QVarExpr x w) = Some (take_bit w (q x))"
| "eval rd q (ForallExpr x w e) = Some (of_bool (\<forall>v \<in> {0..<2 ^ w}. eval rd (q(x := v)) e = Some 1))"

lemma wfe_width: "wfe e \<Longrightarrow> 0 < getWidth e"
  by (induction e) auto

abbreviation fits :: "nat \<Rightarrow> int \<Rightarrow> bool" where
  "fits w v \<equiv> take_bit w v = v"

lemma fits_iff: "fits w v \<longleftrightarrow> 0 \<le> v \<and> v < 2 ^ w"
  by (rule take_bit_int_eq_self_iff)

lemma fits_bit: "fits w v \<Longrightarrow> bit v n \<Longrightarrow> n < w"
  by (metis bit_take_bit_iff)

lemma fits_1: "fits 1 v \<longleftrightarrow> v = 0 \<or> v = 1"
  unfolding fits_iff by auto

lemma fits_mono: "fits w v \<Longrightarrow> w \<le> w' \<Longrightarrow> fits w' v"
  by (metis min.absorb2 take_bit_take_bit)

lemma fits_of_bool [simp]: "0 < w \<Longrightarrow> fits w (of_bool b)"
  by (cases b) (auto simp: fits_iff)

lemma fits_div:
  assumes "fits w a" "fits w b" "b \<noteq> 0"
  shows "fits w (a div b)" "fits w (a mod b)"
proof -
  have b: "0 < b" "0 \<le> a" using assms by (auto simp: fits_iff)
  then have "a div b \<le> a" using zdiv_mono2 [of a 1 b] by simp
  then show "fits w (a div b)" using b assms by (auto simp: fits_iff pos_imp_zdiv_nonneg_iff)
  show "fits w (a mod b)" using b assms less_trans [OF pos_mod_bound [OF b(1), of a]] by (auto simp: fits_iff)
qed

lemma fits_drop: "fits w a \<Longrightarrow> fits w (drop_bit n a)"
  by (rule bit_eqI) (auto simp: bit_simps dest: fits_bit)

lemma ap_op_fits:
  assumes "ap_op k w a b = Some v" "fits w a" "fits w b" "0 < w"
  shows "fits (if is_cmp k then 1 else w) v"
  using assms by (cases k) (auto simp: is_cmp_def fits_div fits_drop split: if_splits)

lemma eval_fits:
  assumes "wfe e" "eval rd q e = Some v"
  shows "fits (getWidth e) v"
  using assms
proof (induction e arbitrary: v q)
  case (BinaryExpr k l r)
  then show ?case using ap_op_fits [of k "getWidth l"] wfe_width [of l] by fastforce
next
  case (ConcatExpr l r)
  then obtain a b where "fits (getWidth l) a" "fits (getWidth r) b" "v = a * 2 ^ getWidth r + b"
    by (fastforce simp: push_bit_eq_mult)
  moreover have "a * 2 ^ getWidth r + b < 2 ^ getWidth l * 2 ^ getWidth r" if "a < 2 ^ getWidth l" "b < 2 ^ getWidth r"
    using that mult_right_mono [of "a + 1" "2 ^ getWidth l" "2 ^ getWidth r"] by (simp add: algebra_simps)
  ultimately show ?case by (simp add: fits_iff power_add)
next
  case (ZExtExpr e w)
  then show ?case using fits_mono by fastforce
next
  case (NotExpr e)
  then obtain a where "fits (getWidth e) a" "v = mask (getWidth e) - a" by auto
  then show ?case by (simp add: fits_iff mask_eq_exp_minus_1)
qed (auto split: if_splits)

subsection \<open>What a constructor promises\<close>

definition op_width :: "Kind \<Rightarrow> 'u expr \<Rightarrow> nat" where
  "op_width k l = (if is_cmp k then 1 else getWidth l)"

definition implements :: "Kind \<Rightarrow> 'u expr \<Rightarrow> 'u expr \<Rightarrow> 'u expr \<Rightarrow> bool" where
  "implements k l r e \<longleftrightarrow> wfe e \<and> getWidth e = op_width k l \<and>
     (\<forall>rd q v. eval rd q (BinaryExpr k l r) = Some v \<longrightarrow> eval rd q e = Some v)"

definition typed :: "Kind \<Rightarrow> 'u expr \<Rightarrow> 'u expr \<Rightarrow> bool" where
  "typed k l r \<longleftrightarrow> wfe l \<and> wfe r \<and> getWidth l = getWidth r \<and> (k = Implies \<longrightarrow> getWidth l = 1)"

lemma implementsI:
  assumes "typed k l r" "wfe e" "getWidth e = op_width k l"
    "\<And>rd q a b v. eval rd q l = Some a \<Longrightarrow> eval rd q r = Some b \<Longrightarrow> fits (getWidth l) a \<Longrightarrow> fits (getWidth l) b \<Longrightarrow>
       ap_op k (getWidth l) a b = Some v \<Longrightarrow> eval rd q e = Some v"
  shows "implements k l r e"
  unfolding implements_def
proof (intro conjI allI impI assms(2,3))
  fix rd q v
  assume "eval rd q (BinaryExpr k l r) = Some v"
  then obtain a b where ab: "eval rd q l = Some a" "eval rd q r = Some b" "ap_op k (getWidth l) a b = Some v" by auto
  then show "eval rd q e = Some v"
    using assms(1) eval_fits [of l rd q a] eval_fits [of r rd q b] by (intro assms(4) [OF ab(1,2)]) (auto simp: typed_def)
qed

lemma implementsD:
  assumes "implements k l r e"
  shows "wfe e" "getWidth e = op_width k l"
    "eval rd q l = Some a \<Longrightarrow> eval rd q r = Some b \<Longrightarrow> ap_op k (getWidth l) a b = Some v \<Longrightarrow> eval rd q e = Some v"
  using assms by (auto simp: implements_def)

subsection \<open>Constants and chains\<close>

named_theorems expr_simps

lemma wfe_bools [simp]: "wfe (ConstantExpr (Suc 0) 0)" "wfe (ConstantExpr (Suc 0) 1)"
  by (simp_all add: fits_iff)

lemma mask_and: "fits w a \<Longrightarrow> a AND mask w = a" "fits w a \<Longrightarrow> mask w AND a = a"
  by (metis take_bit_eq_mask, metis and.commute take_bit_eq_mask)

lemma mask_or: "fits w a \<Longrightarrow> a OR mask w = mask w" "fits w a \<Longrightarrow> mask w OR a = mask w"
  by (auto intro!: bit_eqI simp: bit_simps dest: fits_bit)

lemma fold_op_implements:
  assumes "typed k (ConstantExpr w a) (ConstantExpr w b)" "fold_op k w a b = Some e"
  shows "implements k (ConstantExpr w a) (ConstantExpr w b) e"
proof -
  obtain v where v: "ap_op k w a b = Some v" "e = ConstantExpr (if is_cmp k then 1 else w) v"
    using assms(2) by (auto simp: fold_op_def)
  then show ?thesis
    using assms(1) ap_op_fits [OF v(1)] by (intro implementsI) (auto simp: typed_def op_width_def)
qed

lemma AndExpr_createPartial_implements:
  assumes "typed And l (ConstantExpr w c)" "AndExpr_createPartial l w c = Some e"
  shows "implements And l (ConstantExpr w c) e" "implements And (ConstantExpr w c) l e"
  using assms
  by (auto simp: AndExpr_createPartial_def typed_def op_width_def isAllOnes_def mask_and and.commute
      intro!: implementsI split: if_splits expr.splits)

lemma OrExpr_createPartial_implements:
  assumes "typed Or l (ConstantExpr w c)" "OrExpr_createPartial l w c = Some e"
  shows "implements Or l (ConstantExpr w c) e" "implements Or (ConstantExpr w c) l e"
  using assms
  by (auto simp: OrExpr_createPartial_def typed_def op_width_def isAllOnes_def mask_or or.commute
      intro!: implementsI split: if_splits expr.splits)

lemma isNegation_Partial_iff: "isNegation_Partial l r \<longleftrightarrow> l = BinaryExpr Eq FalseE r"
proof (cases l)
  case (BinaryExpr k a b)
  then show ?thesis by (cases k) (auto simp: isNegation_Partial_def)
qed (auto simp: isNegation_Partial_def)

lemma isNegation_eval:
  assumes "isNegation l r" "eval rd q l = Some a" "eval rd q r = Some b"
  shows "a = of_bool (b = 0) \<or> b = of_bool (a = 0)"
  using assms by (auto simp: isNegation_def isNegation_Partial_iff)

lemma nary_wfe: "wfe e \<Longrightarrow> x \<in> set (nary k e) \<Longrightarrow> wfe x"
  by (induction k e rule: nary.induct) (auto split: if_splits)

lemma nary_defined: "eval rd q e = Some v \<Longrightarrow> x \<in> set (nary k e) \<Longrightarrow> \<exists>a. eval rd q x = Some a"
proof (induction k e arbitrary: v rule: nary.induct)
  case (1 k k' a b)
  then show ?case by (cases "k' = k") auto
qed auto

lemma nary_And:
  assumes "eval rd q e = Some v" "x \<in> set (nary And e)" "eval rd q x = Some a"
  shows "v AND a = v"
  using assms
proof (induction And e arbitrary: v rule: nary.induct)
  case (1 k' l r)
  show ?case
  proof (cases "k' = And")
    case True
    then obtain b c where v: "eval rd q l = Some b" "eval rd q r = Some c" "v = b AND c" using 1 by auto
    have "x = l \<or> x \<in> set (nary And r)" using 1 True by auto
    then show ?thesis
    proof
      assume "x \<in> set (nary And r)"
      then have "c AND a = c" using 1 True v(2) by auto
      then show ?thesis using v(3) by (simp add: and.assoc)
    qed (use 1 v in \<open>auto simp: and.commute and.left_commute\<close>)
  qed (use 1 in auto)
qed auto

lemma nary_Or:
  assumes "eval rd q e = Some v" "x \<in> set (nary Or e)" "eval rd q x = Some a"
  shows "v OR a = v"
  using assms
proof (induction Or e arbitrary: v rule: nary.induct)
  case (1 k' l r)
  show ?case
  proof (cases "k' = Or")
    case True
    then obtain b c where v: "eval rd q l = Some b" "eval rd q r = Some c" "v = b OR c" using 1 by auto
    have "x = l \<or> x \<in> set (nary Or r)" using 1 True by auto
    then show ?thesis
    proof
      assume "x \<in> set (nary Or r)"
      then have "c OR a = c" using 1 True v(2) by auto
      then show ?thesis using v(3) by (simp add: or.assoc)
    qed (use 1 v in \<open>auto simp: or.commute or.left_commute\<close>)
  qed (use 1 in auto)
qed auto

lemma scan_terms_cases:
  assumes "scan_terms l r stop ts = Some e"
  obtains "l \<in> set ts" "e = r" | t where "t \<in> set ts" "isNegation l t" "e = stop"
  using assms by (induction ts) (auto split: if_splits)

lemma scan_And:
  assumes "typed And l r" "getWidth l = 1" "scan_terms l r FalseE (nary And r) = Some e"
  shows "implements And l r e"
  using assms(3)
proof (cases rule: scan_terms_cases)
  case 1
  have "a AND b = b" if "eval rd q l = Some a" "eval rd q r = Some b" for rd q a b
    using nary_And [OF that(2) 1(1) that(1)] by (simp add: and.commute)
  then show ?thesis using assms(1,2) 1(2) by (intro implementsI) (auto simp: typed_def op_width_def)
next
  case (2 t)
  have val: "a AND b = 0" if e: "eval rd q l = Some a" "eval rd q r = Some b" "fits (getWidth l) a" "fits (getWidth l) b" for rd q a b
  proof -
    obtain c where c: "eval rd q t = Some c" using nary_defined e(2) 2(1) by blast
    have "b AND c = b" using nary_And e(2) 2(1) c by blast
    then show ?thesis using isNegation_eval [OF 2(2) e(1) c] e(3,4) fits_1 assms(2) by auto
  qed
  show ?thesis
  proof (rule implementsI [OF assms(1)])
    show "wfe e" "getWidth e = op_width And l" using 2(3) assms(2) by (simp_all add: op_width_def)
  qed (use val 2(3) in auto)
qed

lemma scan_Or:
  assumes "typed Or l r" "getWidth l = 1" "scan_terms l r TrueE (nary Or r) = Some e"
  shows "implements Or l r e"
  using assms(3)
proof (cases rule: scan_terms_cases)
  case 1
  have "a OR b = b" if "eval rd q l = Some a" "eval rd q r = Some b" for rd q a b
    using nary_Or [OF that(2) 1(1) that(1)] by (simp add: or.commute)
  then show ?thesis using assms(1,2) 1(2) by (intro implementsI) (auto simp: typed_def op_width_def)
next
  case (2 t)
  have val: "a OR b = 1" if e: "eval rd q l = Some a" "eval rd q r = Some b" "fits (getWidth l) a" "fits (getWidth l) b" for rd q a b
  proof -
    obtain c where c: "eval rd q t = Some c" using nary_defined e(2) 2(1) by blast
    have "b OR c = b" using nary_Or e(2) 2(1) c by blast
    then show ?thesis using isNegation_eval [OF 2(2) e(1) c] e(3,4) fits_1 assms(2) by auto
  qed
  show ?thesis
  proof (rule implementsI [OF assms(1)])
    show "wfe e" "getWidth e = op_width Or l" using 2(3) assms(2) by (simp_all add: op_width_def)
  qed (use val 2(3) in auto)
qed

lemma implements_eval:
  "implements k l r e \<Longrightarrow> eval rd q (BinaryExpr k l r) \<noteq> None \<Longrightarrow> eval rd q e = eval rd q (BinaryExpr k l r)"
  by (auto simp: implements_def)

lemma implements_alloc: "typed k l r \<Longrightarrow> (case l of ConstantExpr w c \<Rightarrow> k = Add \<longrightarrow> c \<noteq> 0 | _ \<Rightarrow> True) \<Longrightarrow> implements k l r (BinaryExpr k l r)"
  by (auto simp: implements_def typed_def op_width_def)

lemma implements_wfe: "implements k l r e \<Longrightarrow> wfe e" "implements k l r e \<Longrightarrow> getWidth e = op_width k l"
  by (auto simp: implements_def)

lemmas bv_simps = take_bit_eq_mod mod_simps algebra_simps

subsection \<open>Equality\<close>

lemma EqExpr_isNeq_iff: "EqExpr_isNeq l r \<longleftrightarrow> (\<exists>w c. l = BinaryExpr Add (ConstantExpr w c) r)"
proof (cases l)
  case (BinaryExpr k a b)
  then show ?thesis by (cases k; cases a) (auto simp: EqExpr_isNeq_def)
qed (auto simp: EqExpr_isNeq_def)

lemma shifted_neq:
  assumes "fits w c" "c \<noteq> 0" "fits w b"
  shows "take_bit w (c + b) \<noteq> b"
proof
  assume "take_bit w (c + b) = b"
  then have "take_bit w (c + b - b) = take_bit w (b - b)" by (metis assms(3) take_bit_diff)
  then show False using assms(1,2) by simp
qed

lemma isNeq_eval:
  assumes "EqExpr_isNeq l r" "wfe l" "eval rd q l = Some a" "eval rd q r = Some b" "fits (getWidth l) b"
  shows "a \<noteq> b"
  using assms shifted_neq by (auto simp: EqExpr_isNeq_iff)

lemma EqExpr_create_sound:
  assumes "typed Eq l r"
  shows "implements Eq l r (EqExpr_create l r)"
proof -
  have "a \<noteq> b" if "EqExpr_isNeq l r \<or> EqExpr_isNeq r l" "eval rd q l = Some a" "eval rd q r = Some b"
    "fits (getWidth l) a" "fits (getWidth l) b" for rd q a b
    using that assms isNeq_eval [of l r rd q a b] isNeq_eval [of r l rd q b a] by (auto simp: typed_def)
  then show ?thesis
    using assms by (intro implementsI) (auto simp: EqExpr_create_def typed_def op_width_def split: expr.splits)
qed

lemma ext_constant:
  assumes "\<And>s. fits n s \<Longrightarrow> take_bit n (ext s) = s" "fits n s"
  shows "c = ext (take_bit n c) \<Longrightarrow> s = take_bit n c \<longleftrightarrow> c = ext s"
    and "c \<noteq> ext (take_bit n c) \<Longrightarrow> c \<noteq> ext s"
  using assms by metis+

lemma sext_inverse: "0 < n \<Longrightarrow> n \<le> w \<Longrightarrow> fits n s \<Longrightarrow> take_bit n (take_bit w (as_signed n s)) = s"
  by (simp add: as_signed_def take_bit_signed_take_bit)

lemma take_bit_sub: "take_bit w (take_bit w x - y) = take_bit w (x - y)" "take_bit w (x - take_bit w y) = take_bit w (x - y)"
  "take_bit w (take_bit w x + y) = take_bit w (x + y)" "take_bit w (x + take_bit w y) = take_bit w (x + y)" for x y :: int
  by (simp_all add: take_bit_eq_mod mod_simps)

lemma sub_eq_iff:
  assumes "fits w c" "fits w a"
  shows "c = take_bit w (k + a) \<longleftrightarrow> take_bit w (c - k) = a"
proof
  assume "c = take_bit w (k + a)"
  then show "take_bit w (c - k) = a" using assms(2) by (simp add: take_bit_sub)
next
  assume "take_bit w (c - k) = a"
  then have "take_bit w (k + a) = take_bit w (k + (c - k))" by (metis take_bit_sub(4))
  then show "c = take_bit w (k + a)" using assms(1) by simp
qed

lemma rsub_eq_iff:
  assumes "fits w c" "fits w a"
  shows "c = take_bit w (k - a) \<longleftrightarrow> take_bit w (k - c) = a"
proof
  assume "c = take_bit w (k - a)"
  then show "take_bit w (k - c) = a" using assms(2) by (simp add: take_bit_sub)
next
  assume "take_bit w (k - c) = a"
  then have "take_bit w (k - a) = take_bit w (k - (k - c))" by (metis take_bit_sub(2))
  then show "c = take_bit w (k - a)" using assms(1) by simp
qed

lemma typed_bool: "typed k (ConstantExpr 1 c) r \<Longrightarrow> c = 0 \<or> c = 1"
  unfolding typed_def wfe.simps fits_1 by blast

lemma typed_kind: "typed k l r \<Longrightarrow> k' \<noteq> Implies \<Longrightarrow> typed k' l r"
  by (simp add: typed_def)

lemma eval_bool: "wfe e \<Longrightarrow> getWidth e = 1 \<Longrightarrow> eval rd q e = Some v \<Longrightarrow> v = 0 \<or> v = 1"
  using eval_fits [of e rd q v] fits_1 by simp

definition is_const :: "'u expr \<Rightarrow> bool" where
  "is_const e \<longleftrightarrow> (case e of ConstantExpr w c \<Rightarrow> True | _ \<Rightarrow> False)"

lemma is_const_simps [simp]: "is_const (ConstantExpr w c)" "\<not> is_const (BinaryExpr k l r)"
  by (simp_all add: is_const_def)

lemma is_const_iff: "is_const e \<longleftrightarrow> (\<exists>w c. e = ConstantExpr w c)"
  by (auto simp: is_const_def split: expr.splits)

lemma case_const [simp]: "\<not> is_const e \<Longrightarrow> (case e of ConstantExpr w c \<Rightarrow> A w c | _ \<Rightarrow> C) = C"
  by (cases e) auto

lemma const_cases:
  obtains (both) wl a wr b where "l = ConstantExpr wl a" "r = ConstantExpr wr b"
  | (left) wl a where "l = ConstantExpr wl a" "\<not> is_const r"
  | (right) wr b where "\<not> is_const l" "r = ConstantExpr wr b"
  | (none) "\<not> is_const l" "\<not> is_const r"
  by (metis is_const_iff)

text \<open>The operators that are not expressed by another one.\<close>

lemma create_body_dispatch:
  assumes "k \<notin> {Ne, Ugt, Uge, Sgt, Sge, Implies}"
  shows "create_body f k l r = (if getWidth l \<noteq> getWidth r then None else case l of
      ConstantExpr w a \<Rightarrow> (case r of ConstantExpr w' b \<Rightarrow> fold_op k w a b | _ \<Rightarrow> partialR f k w a r)
    | _ \<Rightarrow> (case r of ConstantExpr w b \<Rightarrow> partialL f k l w b | _ \<Rightarrow> general f k l r))"
  using assms by (cases k) (auto simp: create_body_def)

lemma lin_cases:
  fixes e :: "'u expr"
  obtains (Add) w c x where "e = BinaryExpr Add (ConstantExpr w c) x" | (Sub) w c x where "e = BinaryExpr Sub (ConstantExpr w c) x"
    | (other) "\<And>A B C. (case e of BinaryExpr Add (ConstantExpr w c) x \<Rightarrow> A w c x | BinaryExpr Sub (ConstantExpr w c) x \<Rightarrow> B w c x | _ \<Rightarrow> C) = (C :: 'u expr option)"
proof (cases e)
  case (BinaryExpr k l r)
  show ?thesis
  proof (cases "k = Add \<or> k = Sub")
    case True
    then show ?thesis using that BinaryExpr by (cases l) auto
  next
    case False
    then show ?thesis using that(3) BinaryExpr by (cases k) auto
  qed
qed (use that(3) in auto)

lemma as_signed_bool: "as_signed 1 0 = 0" "as_signed 1 1 = -1"
  by (simp_all add: as_signed_def)

lemma ap_shift_bool: "ap_shift 1 0 = 0" "ap_shift 1 1 = 1"
  by (simp_all add: ap_shift_def)

lemma smod_bool: "(1 :: int) smod 1 = 0"
  by (simp add: signed_modulo_int_def)

lemmas bool_simps = as_signed_bool [simplified] ap_shift_bool [simplified] smod_bool

lemma MulExpr_createPartialR_sound:
  assumes "typed Mul (ConstantExpr w c) r" "MulExpr_createPartialR w c r = Some e"
  shows "implements Mul (ConstantExpr w c) r e" "implements Mul r (ConstantExpr w c) e"
proof -
  have "implements Mul (ConstantExpr w c) r e \<and> implements Mul r (ConstantExpr w c) e"
  proof (cases "w = 1")
    case True
    have e: "implements And r (ConstantExpr w c) e"
      using AndExpr_createPartial_implements(1) [of r w c e] assms True by (simp add: typed_def MulExpr_createPartialR_def)
    have v: "take_bit w (c * b) = c AND b" "take_bit w (b * c) = b AND c" if "eval rd q r = Some b" for rd q b
    proof -
      have "b = 0 \<or> b = 1" using eval_bool [OF _ _ that] assms(1) True by (simp add: typed_def)
      moreover have "c = 0 \<or> c = 1" using typed_bool assms(1) True by blast
      ultimately show "take_bit w (c * b) = c AND b" "take_bit w (b * c) = b AND c" using True by auto
    qed
    have w: "wfe r" "getWidth r = w" "wfe e" "getWidth e = w" using assms(1) implements_wfe [OF e] by (auto simp: typed_def op_width_def)
    have "implements Mul r (ConstantExpr w c) e" using assms(1) w
      by (intro implementsI) (auto simp: typed_def op_width_def implements_eval [OF e] v [folded w(2)])
    moreover have "implements Mul (ConstantExpr w c) r e" using assms(1) w
      by (intro implementsI) (auto simp: typed_def op_width_def implements_eval [OF e] v [folded w(2)] and.commute)
    ultimately show ?thesis by simp
  next
    case False
    then show ?thesis
      using assms
      by (auto simp: typed_def op_width_def MulExpr_createPartialR_def mult.commute split: if_splits intro!: implementsI)
  qed
  then show "implements Mul (ConstantExpr w c) r e" "implements Mul r (ConstantExpr w c) e" by auto
qed

lemma MulExpr_create_sound:
  assumes "typed Mul l r" "MulExpr_create l r = Some e"
  shows "implements Mul l r e"
proof -
  have "take_bit (Suc 0) (a * b) = a AND b" if "eval rd q l = Some a" "eval rd q r = Some b" "getWidth l = 1" for rd q a b
  proof -
    have "a = 0 \<or> a = 1" "b = 0 \<or> b = 1"
      using eval_bool [OF _ _ that(1)] eval_bool [OF _ _ that(2)] assms(1) that(3) by (auto simp: typed_def)
    then show ?thesis by auto
  qed
  then show ?thesis
    using assms by (intro implementsI) (auto simp: MulExpr_create_def typed_def op_width_def split: expr.splits if_splits)
qed

subsection \<open>The constructors that call each other\<close>

locale sound_creates =
  fixes rec :: "'u creates"
  assumes rec_sound: "rec k l r = Some e \<Longrightarrow> typed k l r \<Longrightarrow> implements k l r e"
begin

lemma chain_And:
  assumes "typed And (BinaryExpr And a b) r" "rec And b r = Some x" "rec And a x = Some e"
  shows "implements And (BinaryExpr And a b) r e"
proof -
  have x: "implements And b r x" using assms(1) by (intro rec_sound [OF assms(2)]) (auto simp: typed_def)
  have e: "implements And a x e"
    using assms(1) implements_wfe [OF x] by (intro rec_sound [OF assms(3)]) (auto simp: typed_def op_width_def)
  show ?thesis
    using assms(1) implements_wfe [OF e]
    by (intro implementsI) (auto simp: op_width_def implements_eval [OF e] implements_eval [OF x] and.assoc)
qed

lemma chain_Or:
  assumes "typed Or (BinaryExpr Or a b) r" "rec Or b r = Some x" "rec Or a x = Some e"
  shows "implements Or (BinaryExpr Or a b) r e"
proof -
  have x: "implements Or b r x" using assms(1) by (intro rec_sound [OF assms(2)]) (auto simp: typed_def)
  have e: "implements Or a x e"
    using assms(1) implements_wfe [OF x] by (intro rec_sound [OF assms(3)]) (auto simp: typed_def op_width_def)
  show ?thesis
    using assms(1) implements_wfe [OF e]
    by (intro implementsI) (auto simp: op_width_def implements_eval [OF e] implements_eval [OF x] or.assoc)
qed

lemma AndExpr_create_sound:
  assumes "typed And l r" "AndExpr_create rec l r = Some e"
  shows "implements And l r e"
proof -
  have other: ?thesis if "(case (if getWidth l = 1 then scan_terms l r FalseE (nary And r) else None) of
      Some e \<Rightarrow> Some e | None \<Rightarrow> Some (BinaryExpr And l r)) = Some e"
    using that assms(1) scan_And [OF assms(1)] implements_alloc [OF assms(1)] by (auto split: option.splits if_splits expr.splits)
  show ?thesis
  proof (cases l)
    case (BinaryExpr k a b)
    then show ?thesis using assms other chain_And by (cases k) (auto simp: AndExpr_create_def)
  qed (use assms(2) other in \<open>auto simp: AndExpr_create_def\<close>)
qed

lemma OrExpr_create_sound:
  assumes "typed Or l r" "OrExpr_create rec l r = Some e"
  shows "implements Or l r e"
proof -
  have other: ?thesis if "(case (if getWidth l = 1 then scan_terms l r TrueE (nary Or r) else None) of
      Some e \<Rightarrow> Some e | None \<Rightarrow> Some (BinaryExpr Or l r)) = Some e"
    using that assms(1) scan_Or [OF assms(1)] implements_alloc [OF assms(1)] by (auto split: option.splits if_splits expr.splits)
  show ?thesis
  proof (cases l)
    case (BinaryExpr k a b)
    then show ?thesis using assms other chain_Or by (cases k) (auto simp: OrExpr_create_def)
  qed (use assms(2) other in \<open>auto simp: OrExpr_create_def\<close>)
qed

lemma createIsZero_sound:
  assumes "createIsZero rec e = Some x" "wfe e"
  shows "implements Eq e (ConstantExpr (getWidth e) 0) x"
  using assms wfe_width by (auto simp: createIsZero_def typed_def intro!: rec_sound)

lemma Eq_zero_Or:
  assumes "typed Eq FalseE (BinaryExpr Or a b)" "createIsZero rec a = Some x" "createIsZero rec b = Some y" "rec And x y = Some e"
  shows "implements Eq FalseE (BinaryExpr Or a b) e"
proof -
  have w: "wfe a" "wfe b" "getWidth a = 1" "getWidth b = 1" using assms(1) by (auto simp: typed_def)
  have x: "implements Eq a (ConstantExpr 1 0) x" and y: "implements Eq b (ConstantExpr 1 0) y"
    using createIsZero_sound [OF assms(2)] createIsZero_sound [OF assms(3)] w by auto
  have e: "implements And x y e"
    using implements_wfe [OF x] implements_wfe [OF y] by (intro rec_sound [OF assms(4)]) (auto simp: typed_def op_width_def)
  show ?thesis
  proof (rule implementsI [OF assms(1)])
    show "wfe e" "getWidth e = op_width Eq FalseE"
      using implements_wfe [OF e] implements_wfe [OF x] by (simp_all add: op_width_def)
    fix rd q k v u
    assume "eval rd q (BinaryExpr Or a b) = Some v" "eval rd q FalseE = Some k" "ap_op Eq (getWidth FalseE) k v = Some u"
    then obtain va vb where v: "eval rd q a = Some va" "eval rd q b = Some vb" "u = of_bool (0 = va OR vb)" by auto
    have "va = 0 \<or> va = 1" "vb = 0 \<or> vb = 1" using eval_fits [OF w(1) v(1)] eval_fits [OF w(2) v(2)] w(3,4) fits_1 by auto
    then show "eval rd q e = Some u" using v by (auto simp: implements_eval [OF e] implements_eval [OF x] implements_eval [OF y])
  qed
qed

text \<open>An equality of a constant and an extended value, where \<^verbatim>\<open>ext\<close> is the extension.\<close>

lemma Eq_ext:
  assumes "typed Eq (ConstantExpr w c) r" "wfe src" "n = getWidth src"
    and val: "\<And>rd q b. eval rd q r = Some b \<Longrightarrow> \<exists>a. eval rd q src = Some a \<and> b = ext a"
    and inv: "\<And>s. fits n s \<Longrightarrow> take_bit n (ext s) = s"
    and res: "(if c = ext (take_bit n c) then rec Eq src (ConstantExpr n (take_bit n c)) else Some FalseE) = Some e"
  shows "implements Eq (ConstantExpr w c) r e"
proof (cases "c = ext (take_bit n c)")
  case True
  have e: "implements Eq src (ConstantExpr n (take_bit n c)) e"
    using True res assms(2,3) wfe_width [OF assms(2)] by (intro rec_sound) (auto simp: typed_def)
  show ?thesis
  proof (rule implementsI [OF assms(1)])
    fix rd q k b v
    assume b: "eval rd q r = Some b" and v: "eval rd q (ConstantExpr w c) = Some k" "ap_op Eq (getWidth (ConstantExpr w c)) k b = Some v"
    then obtain a where a: "eval rd q src = Some a" "b = ext a" using val by blast
    then have "a = take_bit n c \<longleftrightarrow> c = b" using ext_constant(1) [OF inv _ True] eval_fits [OF assms(2) a(1)] assms(3) by simp
    then show "eval rd q e = Some v" using a v by (simp add: implements_eval [OF e])
  qed (use implements_wfe [OF e] in \<open>auto simp: op_width_def\<close>)
next
  case False
  show ?thesis
  proof (rule implementsI [OF assms(1)])
    fix rd q k b v
    assume b: "eval rd q r = Some b" and v: "eval rd q (ConstantExpr w c) = Some k" "ap_op Eq (getWidth (ConstantExpr w c)) k b = Some v"
    then obtain a where a: "eval rd q src = Some a" "b = ext a" using val by blast
    then have "c \<noteq> b" using ext_constant(2) [OF inv _ False] eval_fits [OF assms(2) a(1)] assms(3) by simp
    then show "eval rd q e = Some v" using False res v by auto
  qed (use False res in \<open>auto simp: op_width_def\<close>)
qed

lemma Eq_shift:
  assumes "implements Eq (ConstantExpr w d) b e" "typed Eq (ConstantExpr w c) r"
    and val: "\<And>rd q v. eval rd q r = Some v \<Longrightarrow> \<exists>a. eval rd q b = Some a \<and> (c = v \<longleftrightarrow> d = a)"
  shows "implements Eq (ConstantExpr w c) r e"
proof (rule implementsI [OF assms(2)])
  fix rd q k v u
  assume "eval rd q r = Some v" and u: "eval rd q (ConstantExpr w c) = Some k" "ap_op Eq (getWidth (ConstantExpr w c)) k v = Some u"
  then obtain a where "eval rd q b = Some a" "c = v \<longleftrightarrow> d = a" using val by blast
  then show "eval rd q e = Some u" using u by (simp add: implements_eval [OF assms(1)])
qed (use implements_wfe [OF assms(1)] in \<open>auto simp: op_width_def\<close>)

lemma Eq_bool:
  assumes "typed Eq (ConstantExpr 1 c) r" "EqExpr_createPartialR rec 1 c r = Some e"
  shows "implements Eq (ConstantExpr 1 c) r e"
proof (cases "c = 1")
  case True
  have b: "b = 0 \<or> b = 1" if "eval rd q r = Some b" for rd q b
    using eval_bool [of r rd q b] assms(1) that by (simp add: typed_def)
  have e: "e = r" using assms(2) True by (simp add: EqExpr_createPartialR.simps)
  show ?thesis
  proof (rule implementsI [OF assms(1)])
    fix rd q k v u
    assume "eval rd q (ConstantExpr 1 c) = Some k" "eval rd q r = Some v" "ap_op Eq (getWidth (ConstantExpr 1 c)) k v = Some u"
    then show "eval rd q e = Some u" using b [of rd q v] e True by auto
  qed (use assms(1) e in \<open>auto simp: typed_def op_width_def\<close>)
next
  case False
  then have c: "c = 0" using typed_bool [OF assms(1)] by blast
  have other: ?thesis if "e = EqExpr_create (ConstantExpr 1 c) r" using EqExpr_create_sound [OF assms(1)] that by simp
  show ?thesis
  proof (cases r)
    case (BinaryExpr k x b)
    consider (Or) "k = Or" | (neg) "k = Eq" "x = FalseE" | (other) "k \<noteq> Or" "\<not> (k = Eq \<and> x = FalseE)" by blast
    then show ?thesis
    proof cases
      case Or
      then show ?thesis using assms BinaryExpr c Eq_zero_Or by (auto simp: EqExpr_createPartialR.simps)
    next
      case neg
      have v: "b = 0 \<or> b = 1" if "eval rd q e = Some b" for rd q b
        using eval_bool [of e rd q b] assms BinaryExpr neg that c by (auto simp: typed_def EqExpr_createPartialR.simps)
      have e: "e = b" using assms(2) BinaryExpr neg c by (simp add: EqExpr_createPartialR.simps)
      show ?thesis
      proof (rule implementsI [OF assms(1)])
        fix rd q k v u
        assume "eval rd q (ConstantExpr 1 c) = Some k" "eval rd q r = Some v" "ap_op Eq (getWidth (ConstantExpr 1 c)) k v = Some u"
        then show "eval rd q e = Some u" using v [of rd q] e c BinaryExpr neg by auto
      qed (use assms(1) e BinaryExpr neg in \<open>auto simp: typed_def op_width_def\<close>)
    next
      case o: other
      have "e = EqExpr_create (ConstantExpr 1 c) r"
      proof (cases "k = Eq")
        case True
        then show ?thesis using assms(2) BinaryExpr o c by (cases x) (auto simp: EqExpr_createPartialR.simps split: if_splits)
      next
        case False
        then show ?thesis using assms(2) BinaryExpr o c by (cases k) (auto simp: EqExpr_createPartialR.simps)
      qed
      then show ?thesis by (rule other)
    qed
  qed (use assms(2) c other in \<open>auto simp: EqExpr_createPartialR.simps\<close>)
qed

lemma EqExpr_createPartialR_sound:
  assumes "typed Eq (ConstantExpr w c) r" "EqExpr_createPartialR rec w c r = Some e"
  shows "implements Eq (ConstantExpr w c) r e"
proof (cases "w = 1")
  case True
  then show ?thesis using assms Eq_bool by simp
next
  case w: False
  show ?thesis using assms
  proof (induction r arbitrary: c)
    case (SExtExpr src n)
    have n: "0 < getWidth src" "getWidth src \<le> w" "wfe src" "n = w" using SExtExpr.prems(1) wfe_width by (auto simp: typed_def)
    show ?case
      by (rule Eq_ext [OF SExtExpr.prems(1) n(3) refl, where ext = "\<lambda>s. take_bit w (as_signed (getWidth src) s)"])
        (use SExtExpr.prems(2) w n sext_inverse in \<open>auto simp: EqExpr_createPartialR.simps [of rec w c] Let_def ap_ZExt_def ap_SExt_def\<close>)
  next
    case (ZExtExpr src n)
    have n: "getWidth src \<le> w" "wfe src" using ZExtExpr.prems(1) by (auto simp: typed_def)
    show ?case
      by (rule Eq_ext [OF ZExtExpr.prems(1) n(2) refl, where ext = "\<lambda>s. s"])
        (use ZExtExpr.prems(2) w n in \<open>auto simp: EqExpr_createPartialR.simps [of rec w c] Let_def ap_ZExt_def\<close>)
  next
    case (BinaryExpr k x b)
    have default: ?case if "e = EqExpr_create (ConstantExpr w c) (BinaryExpr k x b)"
      using EqExpr_create_sound [OF BinaryExpr.prems(1)] that by simp
    consider (Add) w' d where "k = Add" "x = ConstantExpr w' d" | (Sub) w' d where "k = Sub" "x = ConstantExpr w' d"
      | (other) "\<And>w' d. \<not> ((k = Add \<or> k = Sub) \<and> x = ConstantExpr w' d)" by blast
    then show ?case
    proof cases
      case Add
      then have t: "w' = w" "typed Eq (ConstantExpr w (take_bit w (c - d))) b" "wfe b" "getWidth b = w" "fits w c"
        using BinaryExpr.prems(1) by (auto simp: typed_def)
      have e: "implements Eq (ConstantExpr w (take_bit w (c - d))) b e"
        using BinaryExpr.prems(2) Add w t(1) by (intro BinaryExpr.IH(2) t(2)) (simp add: EqExpr_createPartialR.simps [of rec w c])
      show ?thesis
        by (rule Eq_shift [OF e BinaryExpr.prems(1)]) (use Add t eval_fits [OF t(3)] sub_eq_iff [OF t(5)] in \<open>auto simp: take_bit_sub\<close>)
    next
      case Sub
      then have t: "w' = w" "typed Eq (ConstantExpr w (take_bit w (d - c))) b" "wfe b" "getWidth b = w" "fits w c"
        using BinaryExpr.prems(1) by (auto simp: typed_def)
      have e: "implements Eq (ConstantExpr w (take_bit w (d - c))) b e"
        using BinaryExpr.prems(2) Sub w t(1) by (intro BinaryExpr.IH(2) t(2)) (simp add: EqExpr_createPartialR.simps [of rec w c])
      show ?thesis
        by (rule Eq_shift [OF e BinaryExpr.prems(1)]) (use Sub t eval_fits [OF t(3)] rsub_eq_iff [OF t(5)] in \<open>auto simp: take_bit_sub\<close>)
    next
      case other
      have "e = EqExpr_create (ConstantExpr w c) (BinaryExpr k x b)"
      proof (cases "k = Add \<or> k = Sub")
        case True
        then show ?thesis using BinaryExpr.prems(2) other w by (cases x) (auto simp: EqExpr_createPartialR.simps [of rec w c])
      next
        case False
        then show ?thesis using BinaryExpr.prems(2) w by (cases k) (auto simp: EqExpr_createPartialR.simps [of rec w c])
      qed
      then show ?thesis by (rule default)
    qed
  qed (use w EqExpr_create_sound in \<open>auto simp: EqExpr_createPartialR.simps [of rec w]\<close>)
qed

subsubsection \<open>Arithmetic\<close>

lemma XorExpr_createPartialR_sound:
  assumes "typed Xor (ConstantExpr w c) r" "XorExpr_createPartialR rec w c r = Some e"
  shows "implements Xor (ConstantExpr w c) r e"
proof -
  consider "c = 0" | "c \<noteq> 0" "w = 1" | "c \<noteq> 0" "w \<noteq> 1" by blast
  then show ?thesis
  proof cases
    case 1
    then show ?thesis using assms by (intro implementsI) (auto simp: XorExpr_createPartialR_def typed_def op_width_def)
  next
    case 2
    then have c: "c = 1" using typed_bool assms(1) by blast
    have e: "implements Eq FalseE r e"
      using EqExpr_createPartialR_sound assms 2 by (auto simp: XorExpr_createPartialR_def typed_def)
    show ?thesis
    proof (rule implementsI [OF assms(1)])
      fix rd q a b v
      assume v: "eval rd q (ConstantExpr w c) = Some a" "eval rd q r = Some b" "fits (getWidth (ConstantExpr w c)) b"
        "ap_op Xor (getWidth (ConstantExpr w c)) a b = Some v"
      then have "b = 0 \<or> b = 1" using 2 fits_1 by auto
      then show "eval rd q e = Some v" using v c by (auto simp: implements_eval [OF e])
    qed (use implements_wfe [OF e] 2 in \<open>auto simp: op_width_def\<close>)
  next
    case 3
    then show ?thesis using assms implements_alloc [OF assms(1)] by (auto simp: XorExpr_createPartialR_def)
  qed
qed

text \<open>Two calls in a row, the second with a constant operand.\<close>

lemma two_calls:
  assumes "typed k l r" "typed k1 p s" "rec k1 p s = Some x" "rec k2 a b = Some e"
    "wfe x \<Longrightarrow> getWidth x = op_width k1 p \<Longrightarrow> typed k2 a b \<and> op_width k2 a = op_width k l"
    "\<And>rd q u v. wfe x \<Longrightarrow> getWidth x = op_width k1 p \<Longrightarrow> eval rd q l = Some u \<Longrightarrow> eval rd q r = Some v \<Longrightarrow>
      fits (getWidth l) u \<Longrightarrow> fits (getWidth l) v \<Longrightarrow> ap_op k (getWidth l) u v \<noteq> None \<Longrightarrow>
      eval rd q (BinaryExpr k1 p s) \<noteq> None \<and>
      (eval rd q x = eval rd q (BinaryExpr k1 p s) \<longrightarrow> eval rd q (BinaryExpr k2 a b) = ap_op k (getWidth l) u v)"
  shows "implements k l r e"
proof -
  have x: "implements k1 p s x" by (rule rec_sound [OF assms(3,2)])
  from assms(5) [OF implements_wfe [OF x]] have t: "typed k2 a b" "op_width k2 a = op_width k l" by auto
  have e: "implements k2 a b e" by (rule rec_sound [OF assms(4) t(1)])
  show ?thesis
  proof (rule implementsI [OF assms(1)])
    fix rd q u v z
    assume o: "eval rd q l = Some u" "eval rd q r = Some v" "fits (getWidth l) u" "fits (getWidth l) v" "ap_op k (getWidth l) u v = Some z"
    then have "eval rd q (BinaryExpr k1 p s) \<noteq> None"
      "eval rd q x = eval rd q (BinaryExpr k1 p s) \<longrightarrow> eval rd q (BinaryExpr k2 a b) = Some z" using assms(6) [OF implements_wfe [OF x] o(1-4)] o(5) by auto
    then show "eval rd q e = Some z" using implements_eval [OF x] implements_eval [OF e] by auto
  qed (use implements_wfe [OF e] t(2) in auto)
qed

lemma Xor_is_Add: "typed k l r \<Longrightarrow> getWidth l = 1 \<Longrightarrow> k = Add \<or> k = Sub \<Longrightarrow> implements Xor l r e \<Longrightarrow> implements k l r e"
proof (rule implementsI)
  fix rd q a b v
  assume t: "typed k l r" "getWidth l = 1" "k = Add \<or> k = Sub" "implements Xor l r e" "eval rd q l = Some a" "eval rd q r = Some b"
    "fits (getWidth l) a" "fits (getWidth l) b" "ap_op k (getWidth l) a b = Some v"
  then have "a = 0 \<or> a = 1" "b = 0 \<or> b = 1" using fits_1 by auto
  then show "eval rd q e = Some v" using t by (auto simp: implements_eval [OF t(4)])
qed (auto simp: implements_def op_width_def)

lemma AddExpr_createPartialR_sound:
  assumes "typed Add (ConstantExpr w c) r" "AddExpr_createPartialR rec w c r = Some e"
  shows "implements Add (ConstantExpr w c) r e"
proof -
  consider (bool) "w = 1" | (zero) "w \<noteq> 1" "c = 0" | (gen) "w \<noteq> 1" "c \<noteq> 0" by blast
  then show ?thesis
  proof cases
    case bool
    then have "implements Xor (ConstantExpr w c) r e"
      using assms(2) by (intro XorExpr_createPartialR_sound typed_kind [OF assms(1)]) (auto simp: AddExpr_createPartialR_def)
    then show ?thesis using Xor_is_Add [OF assms(1)] bool by simp
  next
    case zero
    then show ?thesis using assms by (intro implementsI) (auto simp: AddExpr_createPartialR_def typed_def op_width_def)
  next
    case gen
    show ?thesis
    proof (cases r rule: lin_cases)
      case (Add w' b x)
      then obtain k where k: "rec Add (ConstantExpr w c) (ConstantExpr w' b) = Some k" "rec Add k x = Some e"
        using assms(2) gen by (auto simp: AddExpr_createPartialR_def)
      show ?thesis
        by (rule two_calls [OF assms(1) _ k]) (use assms(1) Add in \<open>auto simp: typed_def op_width_def take_bit_sub add.assoc\<close>)
    next
      case (Sub w' b x)
      then obtain k where k: "rec Add (ConstantExpr w c) (ConstantExpr w' b) = Some k" "rec Sub k x = Some e"
        using assms(2) gen by (auto simp: AddExpr_createPartialR_def)
      show ?thesis
        by (rule two_calls [OF assms(1) _ k]) (use assms(1) Sub in \<open>auto simp: typed_def op_width_def take_bit_sub add.assoc add_diff_eq\<close>)
    next
      case other
      then show ?thesis using assms gen implements_alloc [OF assms(1)] by (auto simp: AddExpr_createPartialR_def)
    qed
  qed
qed

lemma SubExpr_createPartialR_sound:
  assumes "typed Sub (ConstantExpr w c) r" "SubExpr_createPartialR rec w c r = Some e"
  shows "implements Sub (ConstantExpr w c) r e"
proof (cases "w = 1")
  case True
  then have "implements Xor (ConstantExpr w c) r e"
    using assms(2) by (intro XorExpr_createPartialR_sound typed_kind [OF assms(1)]) (auto simp: SubExpr_createPartialR_def)
  then show ?thesis using Xor_is_Add [OF assms(1)] True by simp
next
  case False
  show ?thesis
  proof (cases r rule: lin_cases)
    case (Add w' b x)
    then obtain k where k: "rec Sub (ConstantExpr w c) (ConstantExpr w' b) = Some k" "rec Sub k x = Some e"
      using assms(2) False by (auto simp: SubExpr_createPartialR_def)
    show ?thesis
      by (rule two_calls [OF assms(1) _ k]) (use assms(1) Add in \<open>auto simp: typed_def op_width_def take_bit_sub diff_diff_eq\<close>)
  next
    case (Sub w' b x)
    then obtain k where k: "rec Sub (ConstantExpr w c) (ConstantExpr w' b) = Some k" "rec Add k x = Some e"
      using assms(2) False by (auto simp: SubExpr_createPartialR_def)
    show ?thesis
      by (rule two_calls [OF assms(1) _ k]) (use assms(1) Sub in \<open>auto simp: typed_def op_width_def take_bit_sub algebra_simps\<close>)
  next
    case other
    then show ?thesis using assms False implements_alloc [OF assms(1)] by (auto simp: SubExpr_createPartialR_def)
  qed
qed

lemma SubExpr_createPartial_sound:
  assumes "typed Sub l (ConstantExpr w c)" "SubExpr_createPartial rec l w c = Some e"
  shows "implements Sub l (ConstantExpr w c) e"
proof -
  have e: "implements Add (ConstantExpr w (take_bit w (0 - c))) l e"
    using assms by (intro AddExpr_createPartialR_sound) (auto simp: typed_def SubExpr_createPartial_def)
  show ?thesis
  proof (rule implementsI [OF assms(1)])
    fix rd q a b v
    assume "eval rd q l = Some a" "eval rd q (ConstantExpr w c) = Some b" "ap_op Sub (getWidth l) a b = Some v"
    then show "eval rd q e = Some v" using assms(1) by (auto simp: implements_eval [OF e] typed_def take_bit_sub)
  qed (use implements_wfe [OF e] assms(1) in \<open>auto simp: op_width_def typed_def\<close>)
qed

text \<open>The combination of two sums or differences that are not constant.\<close>

lemma AddExpr_create_sound:
  assumes "typed Add l r" "AddExpr_create rec l r = Some e" "\<And>w c. l \<noteq> ConstantExpr w c"
  shows "implements Add l r e"
proof (cases "getWidth l = 1")
  case True
  then have "implements Xor l r e"
    using assms implements_alloc [of Xor l r] by (auto simp: AddExpr_create_def typed_def split: expr.splits)
  then show ?thesis using Xor_is_Add [OF assms(1)] True by simp
next
  case False
  note simps = typed_def op_width_def take_bit_sub algebra_simps
  show ?thesis
  proof (cases l rule: lin_cases)
    case (Add w k a)
    then obtain x where x: "rec Add a r = Some x" "rec Add (ConstantExpr w k) x = Some e"
      using assms(2) False by (auto simp: AddExpr_create_def)
    show ?thesis by (rule two_calls [OF assms(1) _ x]) (use assms(1) Add in \<open>auto simp: simps\<close>)
  next
    case (Sub w k a)
    then obtain x where x: "rec Sub r a = Some x" "rec Add (ConstantExpr w k) x = Some e"
      using assms(2) False by (auto simp: AddExpr_create_def)
    show ?thesis by (rule two_calls [OF assms(1) _ x]) (use assms(1) Sub in \<open>auto simp: simps\<close>)
  next
    case l: other
    show ?thesis
    proof (cases r rule: lin_cases)
      case (Add w k b)
      then obtain x where x: "rec Add l b = Some x" "rec Add (ConstantExpr w k) x = Some e"
        using assms(2) False l by (auto simp: AddExpr_create_def)
      show ?thesis by (rule two_calls [OF assms(1) _ x]) (use assms(1) Add in \<open>auto simp: simps\<close>)
    next
      case (Sub w k b)
      then obtain x where x: "rec Sub l b = Some x" "rec Add (ConstantExpr w k) x = Some e"
        using assms(2) False l by (auto simp: AddExpr_create_def)
      show ?thesis by (rule two_calls [OF assms(1) _ x]) (use assms(1) Sub in \<open>auto simp: simps\<close>)
    next
      case other
      then show ?thesis
        using assms False l implements_alloc [OF assms(1)] by (auto simp: AddExpr_create_def split: expr.splits)
    qed
  qed
qed

lemma SubExpr_create_sound:
  assumes "typed Sub l r" "SubExpr_create rec l r = Some e" "\<And>w c. l \<noteq> ConstantExpr w c"
  shows "implements Sub l r e"
proof -
  note simps = typed_def op_width_def take_bit_sub algebra_simps
  consider (bool) "getWidth l = 1" | (same) "getWidth l \<noteq> 1" "l = r" | (gen) "getWidth l \<noteq> 1" "l \<noteq> r" by blast
  then show ?thesis
  proof cases
    case bool
    then have "implements Xor l r e"
      using assms implements_alloc [of Xor l r] by (auto simp: SubExpr_create_def typed_def split: expr.splits)
    then show ?thesis using Xor_is_Add [OF assms(1)] bool by simp
  next
    case same
    then show ?thesis
      using assms wfe_width by (intro implementsI) (auto simp: SubExpr_create_def typed_def op_width_def)
  next
    case gen
    show ?thesis
    proof (cases l rule: lin_cases)
      case (Add w k a)
      then obtain x where x: "rec Sub a r = Some x" "rec Add (ConstantExpr w k) x = Some e"
        using assms(2) gen by (auto simp: SubExpr_create_def)
      show ?thesis by (rule two_calls [OF assms(1) _ x]) (use assms(1) Add in \<open>auto simp: simps\<close>)
    next
      case (Sub w k a)
      then obtain x where x: "rec Add a r = Some x" "rec Sub (ConstantExpr w k) x = Some e"
        using assms(2) gen by (auto simp: SubExpr_create_def)
      show ?thesis by (rule two_calls [OF assms(1) _ x]) (use assms(1) Sub in \<open>auto simp: simps\<close>)
    next
      case l: other
      show ?thesis
      proof (cases r rule: lin_cases)
        case (Add w k b)
        then obtain x where x: "rec Sub l b = Some x" "rec Sub x (ConstantExpr w k) = Some e"
          using assms(2) gen l by (auto simp: SubExpr_create_def)
        show ?thesis by (rule two_calls [OF assms(1) _ x]) (use assms(1) Add in \<open>auto simp: simps\<close>)
      next
        case (Sub w k b)
        then obtain x where x: "rec Add l b = Some x" "rec Sub x (ConstantExpr w k) = Some e"
          using assms(2) gen l by (auto simp: SubExpr_create_def)
        show ?thesis by (rule two_calls [OF assms(1) _ x]) (use assms(1) Sub in \<open>auto simp: simps\<close>)
      next
        case other
        then show ?thesis using assms gen l implements_alloc [OF assms(1)] by (auto simp: SubExpr_create_def split: expr.splits)
      qed
    qed
  qed
qed

subsubsection \<open>Operators that only differ at width 1\<close>

lemma isZero_then:
  assumes "typed k l r" "getWidth l = 1" "createIsZero rec z = Some x" "z = l \<or> z = r" "rec k' a b = Some e"
    "wfe x \<Longrightarrow> getWidth x = 1 \<Longrightarrow> typed k' a b \<and> op_width k' a = op_width k l"
    "\<And>rd q u v. (u = 0 \<or> u = 1) \<Longrightarrow> (v = 0 \<or> v = 1) \<Longrightarrow> eval rd q l = Some u \<Longrightarrow> eval rd q r = Some v \<Longrightarrow>
       eval rd q x = Some (if z = l then of_bool (u = 0) else of_bool (v = 0)) \<Longrightarrow>
       eval rd q (BinaryExpr k' a b) = ap_op k 1 u v"
  shows "implements k l r e"
proof -
  have z: "wfe z" "getWidth z = 1" using assms(1,2,4) by (auto simp: typed_def)
  have x: "implements Eq z (ConstantExpr 1 0) x" using createIsZero_sound [OF assms(3) z(1)] z(2) by simp
  from implements_wfe [OF x] have t: "typed k' a b" "op_width k' a = op_width k l" using assms(6) by (auto simp: op_width_def)
  have e: "implements k' a b e" by (rule rec_sound [OF assms(5) t(1)])
  show ?thesis
  proof (rule implementsI [OF assms(1)])
    fix rd q u v y
    assume o: "eval rd q l = Some u" "eval rd q r = Some v" "ap_op k (getWidth l) u v = Some y"
    have uv: "u = 0 \<or> u = 1" "v = 0 \<or> v = 1"
      using eval_bool [OF _ _ o(1)] eval_bool [OF _ _ o(2)] assms(1,2) by (auto simp: typed_def)
    have "eval rd q x = Some (if z = l then of_bool (u = 0) else of_bool (v = 0))"
      using assms(4) o by (auto simp: implements_eval [OF x])
    then have "eval rd q (BinaryExpr k' a b) = Some y" using assms(7) [OF uv o(1,2)] o(3) assms(2) by simp
    then show "eval rd q e = Some y" using implements_eval [OF e] by auto
  qed (use implements_wfe [OF e] t(2) in auto)
qed

lemma other_create_sound:
  assumes "typed k l r" "other_create rec k l r = Some e" "k \<in> {UDiv, SDiv, URem, SRem, Shl, LShr, AShr, Ult, Ule, Slt, Sle}"
  shows "implements k l r e"
proof (cases "getWidth l = 1")
  case False
  then show ?thesis
    using assms implements_alloc [OF assms(1)] by (auto simp: other_create_def split: expr.splits)
next
  case True
  have w: "wfe l" "wfe r" "getWidth r = 1" using assms(1) True by (auto simp: typed_def)
  have direct: "implements k l r e" if "wfe e" "getWidth e = 1"
    "\<And>rd q u v. (u = 0 \<or> u = 1) \<Longrightarrow> (v = 0 \<or> v = 1) \<Longrightarrow> eval rd q l = Some u \<Longrightarrow> ap_op k 1 u v \<noteq> None \<Longrightarrow> eval rd q e = ap_op k 1 u v"
  proof (rule implementsI [OF assms(1)])
    fix rd q u v y
    assume o: "eval rd q l = Some u" "eval rd q r = Some v" "ap_op k (getWidth l) u v = Some y"
    then show "eval rd q e = Some y"
      using that(3) [OF eval_bool [OF w(1) True o(1)] eval_bool [OF w(2,3) o(2)] o(1)] True by simp
  qed (use that True in \<open>auto simp: op_width_def\<close>)
  have z: "implements k l r e" if "createIsZero rec z = Some x" "z = l \<or> z = r" "rec k' a b = Some e"
    "wfe x \<Longrightarrow> getWidth x = 1 \<Longrightarrow> typed k' a b \<and> op_width k' a = op_width k l"
    "\<And>rd q u v. (u = 0 \<or> u = 1) \<Longrightarrow> (v = 0 \<or> v = 1) \<Longrightarrow> eval rd q l = Some u \<Longrightarrow> eval rd q r = Some v \<Longrightarrow>
       eval rd q x = Some (if z = l then of_bool (u = 0) else of_bool (v = 0)) \<Longrightarrow>
       eval rd q (BinaryExpr k' a b) = ap_op k 1 u v" for z x k' a b
    using isZero_then [OF assms(1) True that] .
  note s = other_create_def typed_def op_width_def bool_simps w True
  show ?thesis
  proof (cases k)
    case UDiv
    then show ?thesis using assms(2) w True by (intro direct) (auto simp: s split: if_splits)
  next
    case SDiv
    then show ?thesis using assms(2) w True by (intro direct) (auto simp: s split: if_splits)
  next
    case URem
    then show ?thesis using assms(2) w True by (intro direct) (auto simp: s split: if_splits)
  next
    case SRem
    then show ?thesis using assms(2) w True by (intro direct) (auto simp: s split: if_splits)
  next
    case AShr
    then show ?thesis using assms(2) w True by (intro direct) (auto simp: s split: if_splits)
  next
    case Shl
    then obtain x where x: "createIsZero rec r = Some x" "rec And l x = Some e" using assms(2) True by (auto simp: other_create_def)
    show ?thesis using Shl by (intro z [OF x(1) _ x(2)]) (auto simp: s split: if_splits)
  next
    case LShr
    then obtain x where x: "createIsZero rec r = Some x" "rec And l x = Some e" using assms(2) True by (auto simp: other_create_def)
    show ?thesis using LShr by (intro z [OF x(1) _ x(2)]) (auto simp: s split: if_splits)
  next
    case Ult
    then obtain x where x: "createIsZero rec l = Some x" "rec And x r = Some e" using assms(2) True by (auto simp: other_create_def)
    show ?thesis using Ult by (intro z [OF x(1) _ x(2)]) (auto simp: s split: if_splits)
  next
    case Ule
    then obtain x where x: "createIsZero rec l = Some x" "rec Or x r = Some e" using assms(2) True by (auto simp: other_create_def)
    show ?thesis using Ule by (intro z [OF x(1) _ x(2)]) (auto simp: s split: if_splits)
  next
    case Slt
    then obtain x where x: "createIsZero rec r = Some x" "rec And l x = Some e" using assms(2) True by (auto simp: other_create_def)
    show ?thesis using Slt by (intro z [OF x(1) _ x(2)]) (auto simp: s split: if_splits)
  next
    case Sle
    then obtain x where x: "createIsZero rec r = Some x" "rec Or l x = Some e" using assms(2) True by (auto simp: other_create_def)
    show ?thesis using Sle by (intro z [OF x(1) _ x(2)]) (auto simp: s split: if_splits)
  qed (use assms(3) in auto)
qed

lemma ImpliesExpr_create_sound:
  assumes "typed Implies l r" "ImpliesExpr_create rec l r = Some e"
  shows "implements Implies l r e"
proof -
  have w: "wfe l" "wfe r" "getWidth l = 1" "getWidth r = 1" using assms(1) by (auto simp: typed_def)
  have direct: "implements Implies l r e" if "wfe e" "getWidth e = 1"
    "\<And>rd q u v. (u = 0 \<or> u = 1) \<Longrightarrow> (v = 0 \<or> v = 1) \<Longrightarrow> eval rd q l = Some u \<Longrightarrow> eval rd q r = Some v \<Longrightarrow> eval rd q e = ap_op Implies 1 u v"
  proof (rule implementsI [OF assms(1)])
    fix rd q u v y
    assume o: "eval rd q l = Some u" "eval rd q r = Some v" "ap_op Implies (getWidth l) u v = Some y"
    then show "eval rd q e = Some y"
      using that(3) [OF eval_bool [OF w(1,3) o(1)] eval_bool [OF w(2,4) o(2)] o(1,2)] w(3) by simp
  qed (use that w in \<open>auto simp: op_width_def\<close>)
  consider (l) wl c where "l = ConstantExpr wl c" | (r) wr c where "\<And>w c. l \<noteq> ConstantExpr w c" "r = ConstantExpr wr c"
    | (none) "\<And>w c. l \<noteq> ConstantExpr w c" "\<And>w c. r \<noteq> ConstantExpr w c" by blast
  then show ?thesis
  proof cases
    case l
    then show ?thesis using assms(2) w by (intro direct) (auto simp: ImpliesExpr_create_def)
  next
    case r
    have res: "(if c = 1 then Some TrueE else createIsZero rec l) = Some e"
      using assms(2) w r by (cases l) (auto simp: ImpliesExpr_create_def)
    have c: "c = 0 \<or> c = 1" using eval_bool [OF w(2,4)] r(2) by auto
    show ?thesis
    proof (cases "c = 1")
      case True
      then show ?thesis using res r(2) by (intro direct) auto
    next
      case False
      then have x: "implements Eq l (ConstantExpr 1 0) e" using createIsZero_sound [OF _ w(1)] res w(3) by simp
      show ?thesis
        using implements_wfe [OF x] False c r(2) by (intro direct) (auto simp: implements_eval [OF x] op_width_def)
    qed
  next
    case none
    then have "e = BinaryExpr Implies l r" using assms(2) w by (cases l; cases r) (auto simp: ImpliesExpr_create_def)
    then show ?thesis using implements_alloc [OF assms(1)] none(1) by (cases l) auto
  qed
qed

lemma partialR_sound:
  assumes "typed k (ConstantExpr w c) r" "partialR rec k w c r = Some e" "k \<notin> {Ne, Ugt, Uge, Sgt, Sge, Implies}"
  shows "implements k (ConstantExpr w c) r e"
proof -
  have r: "typed k r (ConstantExpr w c)" using assms(1) by (auto simp: typed_def)
  note other = other_create_sound [OF assms(1)]
  show ?thesis
    using assms r other AddExpr_createPartialR_sound SubExpr_createPartialR_sound MulExpr_createPartialR_sound(1)
      AndExpr_createPartial_implements(2) OrExpr_createPartial_implements(2) XorExpr_createPartialR_sound EqExpr_createPartialR_sound
    by (cases k) (auto simp: partialR_def)
qed

end

lemma implements_comm:
  assumes "implements k r l e" "typed k l r" "k \<in> {Add, Mul, And, Or, Xor, Eq}"
  shows "implements k l r e"
proof (rule implementsI [OF assms(2)])
  fix rd q a b v
  assume "eval rd q l = Some a" "eval rd q r = Some b" "ap_op k (getWidth l) a b = Some v"
  then show "eval rd q e = Some v"
    using assms(2,3) by (auto simp: implements_eval [OF assms(1)] typed_def ac_simps)
qed (use assms in \<open>auto simp: implements_def op_width_def typed_def\<close>)

context sound_creates
begin

lemma partialL_sound:
  assumes "typed k l (ConstantExpr w c)" "partialL rec k l w c = Some e" "k \<notin> {Ne, Ugt, Uge, Sgt, Sge, Implies}"
  shows "implements k l (ConstantExpr w c) e"
proof (cases "k \<in> {Add, Mul, And, Or, Xor, Eq}")
  case True
  then have "partialR rec k w c l = Some e" using assms(2) by (auto simp: partialL_def partialR_def)
  then have "implements k (ConstantExpr w c) l e" using assms(1,3) by (intro partialR_sound) (auto simp: typed_def)
  then show ?thesis using implements_comm assms(1) True by blast
next
  case False
  then show ?thesis
    using assms SubExpr_createPartial_sound other_create_sound [OF assms(1)] by (cases k) (auto simp: partialL_def)
qed

lemma general_sound:
  assumes "typed k l r" "general rec k l r = Some e" "k \<notin> {Ne, Ugt, Uge, Sgt, Sge, Implies}" "\<And>w c. l \<noteq> ConstantExpr w c"
  shows "implements k l r e"
proof -
  note other = other_create_sound [OF assms(1)]
  have l: "case l of ConstantExpr w c \<Rightarrow> k = Add \<longrightarrow> c \<noteq> 0 | _ \<Rightarrow> True" using assms(4) by (cases l) auto
  show ?thesis
    using assms other AddExpr_create_sound SubExpr_create_sound MulExpr_create_sound AndExpr_create_sound
      OrExpr_create_sound EqExpr_create_sound implements_alloc [OF assms(1) l]
    by (cases k) (auto simp: general_def)
qed

lemma swapped_sound:
  assumes "typed k l r" "rec k' r l = Some e" "(k, k') \<in> {(Ugt, Ult), (Uge, Ule), (Sgt, Slt), (Sge, Sle)}"
  shows "implements k l r e"
proof -
  have e: "implements k' r l e" using assms by (intro rec_sound [OF assms(2)]) (auto simp: typed_def)
  have w: "getWidth r = getWidth l" using assms(1) by (simp add: typed_def)
  show ?thesis
  proof (rule implementsI [OF assms(1)])
    fix rd q a b v
    assume "eval rd q l = Some a" "eval rd q r = Some b" "ap_op k (getWidth l) a b = Some v"
    then show "eval rd q e = Some v" using assms(3) by (auto simp: implements_eval [OF e] w)
  qed (use implements_wfe [OF e] assms(3) in \<open>auto simp: op_width_def\<close>)
qed

lemma Ne_sound:
  assumes "typed Ne l r" "rec Eq l r = Some x" "rec Eq FalseE x = Some e"
  shows "implements Ne l r e"
  by (rule two_calls [OF assms(1) typed_kind [OF assms(1)] assms(2,3)]) (auto simp: typed_def op_width_def)

lemma create_body_sound:
  assumes "create_body rec k l r = Some e" "typed k l r"
  shows "implements k l r e"
proof (cases "k \<in> {Ne, Ugt, Uge, Sgt, Sge, Implies}")
  case True
  then show ?thesis
    using assms swapped_sound [OF assms(2)] Ne_sound ImpliesExpr_create_sound by (auto simp: create_body_def)
next
  case k: False
  have w: "getWidth l = getWidth r" using assms(2) by (simp add: typed_def)
  note body = assms(1) [unfolded create_body_dispatch [OF k]]
  show ?thesis
  proof (cases rule: const_cases [of l r])
    case (both wl a wr b)
    then show ?thesis using body w fold_op_implements assms(2) by auto
  next
    case (left wl a)
    then have "partialR rec k wl a r = Some e" using body w by simp
    then show ?thesis using partialR_sound k assms(2) left by blast
  next
    case (right wr b)
    then have "partialL rec k l wr b = Some e" using body w by simp
    then show ?thesis using partialL_sound k assms(2) right by blast
  next
    case none
    then have "general rec k l r = Some e" using body w by simp
    then show ?thesis using general_sound k assms(2) none(1) is_const_simps(1) by metis
  qed
qed

end

lemma create_sound_creates: "sound_creates (create n :: 'u creates)"
proof (induction n)
  case 0
  then show ?case by unfold_locales simp
next
  case (Suc n)
  then show ?case by (intro sound_creates.intro) (simp add: sound_creates.create_body_sound)
qed

interpretation create_n: sound_creates "create n" for n
  by (rule create_sound_creates)

end
