(* ===== verification/Expr_Term.thy ===== *)
theory Expr_Term
  imports Expr_Sound
begin

text \<open>
  The constructors of \<^verbatim>\<open>Expr\<close> return: a bound on the size of the result of a call bounds the number
  of calls that follow it. The bound \<^verbatim>\<open>calls k l r\<close> on the depth of the calls of \<^verbatim>\<open>k##Expr::create(l, r)\<close>
  is linear in the sizes of its operands.
\<close>

fun getSize :: "'u expr \<Rightarrow> nat" where
  "getSize (ConstantExpr w v) = 1"
| "getSize (NotOptimizedExpr e) = 1 + getSize e"
| "getSize (ReadExpr u i) = 1 + getSize i"
| "getSize (SelectExpr c t f) = 1 + getSize c + getSize t + getSize f"
| "getSize (ConcatExpr l r) = 1 + getSize l + getSize r"
| "getSize (ExtractExpr e off w) = 1 + getSize e"
| "getSize (ZExtExpr e w) = 1 + getSize e"
| "getSize (SExtExpr e w) = 1 + getSize e"
| "getSize (NotExpr e) = 1 + getSize e"
| "getSize (BinaryExpr k l r) = 1 + getSize l + getSize r"
| "getSize (QVarExpr x w) = 1"
| "getSize (ForallExpr x w e) = 2 + getSize e"

lemma getSize_pos [simp]: "0 < getSize e"
  by (cases e) auto

lemma getSize_Suc: "Suc 0 \<le> getSize e"
  using getSize_pos [of e] by linarith

definition small :: "Kind \<Rightarrow> 'u expr \<Rightarrow> 'u expr \<Rightarrow> 'u expr \<Rightarrow> bool" where
  "small k l r e \<longleftrightarrow>
     (k = And \<longrightarrow> getSize e \<le> 1 + getSize l + getSize r) \<and>
     (k = Eq \<longrightarrow> getSize e < 3 * (getSize l + getSize r)) \<and>
     (k = Add \<or> k = Sub \<longrightarrow> getWidth l \<noteq> 1 \<longrightarrow> getSize e \<le> 1 + getSize l + getSize r) \<and>
     (k = Add \<or> k = Sub \<longrightarrow> (\<exists>w a. l = ConstantExpr w a) \<longrightarrow> (\<exists>w b. r = ConstantExpr w b) \<longrightarrow> (\<exists>w c. e = ConstantExpr w c))"

locale small_creates = sound_creates rec for rec :: "'u creates" +
  assumes rec_small: "rec k l r = Some e \<Longrightarrow> typed k l r \<Longrightarrow> small k l r e"
begin

lemma rec_And_size: "rec And l r = Some e \<Longrightarrow> typed And l r \<Longrightarrow> getSize e \<le> 1 + getSize l + getSize r"
  using rec_small [of And] by (simp add: small_def)

lemma rec_Eq_size: "rec Eq l r = Some e \<Longrightarrow> typed Eq l r \<Longrightarrow> getSize e < 3 * (getSize l + getSize r)"
  using rec_small [of Eq] by (simp add: small_def)

lemma rec_lin_size:
  "rec k l r = Some e \<Longrightarrow> typed k l r \<Longrightarrow> k = Add \<or> k = Sub \<Longrightarrow> getWidth l \<noteq> 1 \<Longrightarrow> getSize e \<le> 1 + getSize l + getSize r"
  using rec_small [of k] by (auto simp: small_def)

lemma rec_const:
  assumes "rec k (ConstantExpr w a) (ConstantExpr w' b) = Some e" "typed k (ConstantExpr w a :: 'u expr) (ConstantExpr w' b)" "k = Add \<or> k = Sub"
  obtains c where "e = ConstantExpr w c" "wfe e"
proof -
  have "small k (ConstantExpr w a) (ConstantExpr w' b) e" by (rule rec_small [OF assms(1,2)])
  then obtain w2 c where "e = ConstantExpr w2 c" using assms(3) by (auto simp: small_def)
  then show ?thesis using that implements_wfe [OF rec_sound [OF assms(1,2)]] assms(3) by (auto simp: op_width_def)
qed

lemma isZero_size: "createIsZero rec e = Some x \<Longrightarrow> wfe e \<Longrightarrow> getSize x < 3 * (getSize e + 1)"
  using rec_Eq_size [of e "ConstantExpr (getWidth e) 0" x] wfe_width [of e] by (auto simp: createIsZero_def typed_def)

lemma isZero_typed:
  assumes "createIsZero rec e = Some x" "wfe e"
  shows "wfe x" "getWidth x = 1"
  using implements_wfe [OF createIsZero_sound [OF assms]] by (auto simp: op_width_def)

lemma EqExpr_create_size: "getSize (EqExpr_create l r) < 3 * (getSize l + getSize r)"
  using getSize_Suc [of l] getSize_Suc [of r] by (auto simp: EqExpr_create_def)

lemma AndExpr_create_size:
  assumes "AndExpr_create rec l r = Some e" "typed And l r"
  shows "getSize e \<le> 1 + getSize l + getSize r"
proof -
  have other: ?thesis if "(case (if getWidth l = 1 then scan_terms l r FalseE (nary And r) else None) of
      Some e \<Rightarrow> Some e | None \<Rightarrow> Some (BinaryExpr And l r)) = Some e"
    using that by (auto split: option.splits if_splits elim!: scan_terms_cases)
  show ?thesis
  proof (cases l)
    case (BinaryExpr k a b)
    show ?thesis
    proof (cases "k = And")
      case True
      then obtain x where x: "rec And b r = Some x" "rec And a x = Some e" using assms(1) BinaryExpr by (auto simp: AndExpr_create_def)
      have t: "typed And b r" using assms(2) BinaryExpr True by (auto simp: typed_def)
      have t': "typed And a x"
        using implements_wfe [OF rec_sound [OF x(1) t]] assms(2) BinaryExpr True by (auto simp: typed_def op_width_def)
      show ?thesis using rec_And_size [OF x(1) t] rec_And_size [OF x(2) t'] BinaryExpr by simp
    next
      case False
      then show ?thesis using assms(1) BinaryExpr other by (cases k) (auto simp: AndExpr_create_def)
    qed
  qed (use assms(1) other in \<open>auto simp: AndExpr_create_def\<close>)
qed

lemma EqExpr_createPartialR_size:
  assumes "EqExpr_createPartialR rec w c r = Some e" "typed Eq (ConstantExpr w c) r"
  shows "getSize e < 3 * (1 + getSize r)"
proof -
  have leaf: "getSize e < 3 * (1 + getSize r)" if "e = r \<or> e = EqExpr_create (ConstantExpr w c) r" for r c
    using that EqExpr_create_size [of "ConstantExpr w c" r] by auto
  show ?thesis using assms
proof (induction r arbitrary: c)
  case (SExtExpr src n)
  have t: "typed Eq src (ConstantExpr (getWidth src) (take_bit (getWidth src) c))"
    using SExtExpr.prems(2) wfe_width [of src] by (auto simp: typed_def)
  show ?case
    using SExtExpr.prems(1) rec_Eq_size [OF _ t, of e] EqExpr_create_size [of "ConstantExpr w c" "SExtExpr src n"]
    by (auto simp: EqExpr_createPartialR.simps [of rec w c] Let_def ap_ZExt_def split: if_splits)
next
  case (ZExtExpr src n)
  have t: "typed Eq src (ConstantExpr (getWidth src) (take_bit (getWidth src) c))"
    using ZExtExpr.prems(2) wfe_width [of src] by (auto simp: typed_def)
  show ?case
    using ZExtExpr.prems(1) rec_Eq_size [OF _ t, of e] EqExpr_create_size [of "ConstantExpr w c" "ZExtExpr src n"]
    by (auto simp: EqExpr_createPartialR.simps [of rec w c] Let_def ap_ZExt_def split: if_splits)
next
  case (BinaryExpr k x b)
  have default: ?case if "e = EqExpr_create (ConstantExpr w c) (BinaryExpr k x b)"
    using EqExpr_create_size [of "ConstantExpr w c" "BinaryExpr k x b"] that by simp
  have w: "wfe x" "wfe b" "k \<noteq> Implies \<Longrightarrow> getWidth x = getWidth b" using BinaryExpr.prems(2) by (auto simp: typed_def)
  show ?case
  proof (cases "w = 1")
    case True
    show ?thesis
    proof (cases "c = 1 \<or> k \<noteq> Or")
      case True
      have "e = BinaryExpr k x b \<or> e = b \<or> e = EqExpr_create (ConstantExpr w c) (BinaryExpr k x b)"
      proof (cases "k = Eq")
        case True
        then show ?thesis using BinaryExpr.prems(1) \<open>w = 1\<close>
          by (cases x) (auto simp: EqExpr_createPartialR.simps [of rec 1 c, simplified] split: if_splits)
      next
        case False
        then show ?thesis using BinaryExpr.prems(1) \<open>w = 1\<close> True
          by (cases k) (auto simp: EqExpr_createPartialR.simps [of rec 1 c, simplified] split: if_splits)
      qed
      then show ?thesis using default by auto
    next
      case False
      then obtain p q where p: "createIsZero rec x = Some p" "createIsZero rec b = Some q" "rec And p q = Some e"
        using BinaryExpr.prems(1) \<open>w = 1\<close> by (auto simp: EqExpr_createPartialR.simps)
      have "typed And p q" using isZero_typed [OF p(1) w(1)] isZero_typed [OF p(2) w(2)] by (simp add: typed_def)
      from rec_And_size [OF p(3) this] isZero_size [OF p(1) w(1)] isZero_size [OF p(2) w(2)] show ?thesis by simp
    qed
  next
    case False
    show ?thesis
    proof (cases "(k = Add \<or> k = Sub) \<and> (\<exists>w' d. x = ConstantExpr w' d)")
      case True
      then obtain w' d where x: "k = Add \<or> k = Sub" "x = ConstantExpr w' d" by blast
      have t: "w' = w" "wfe b" "getWidth b = w" "0 < w" using BinaryExpr.prems(2) x by (auto simp: typed_def)
      then have "typed Eq (ConstantExpr w (take_bit w z)) b" for z by (simp add: typed_def)
      then show ?thesis
        using BinaryExpr.IH(2) [of "take_bit w (c - d)"] BinaryExpr.IH(2) [of "take_bit w (d - c)"] BinaryExpr.prems(1) x False t(1)
        by (auto simp: EqExpr_createPartialR.simps [of rec w c])
    next
      case o: False
      have "e = EqExpr_create (ConstantExpr w c) (BinaryExpr k x b)"
      proof (cases "k = Add \<or> k = Sub")
        case True
        then show ?thesis using BinaryExpr.prems(1) o False by (cases x) (auto simp: EqExpr_createPartialR.simps [of rec w c])
      next
        case k: False
        then show ?thesis using BinaryExpr.prems(1) False by (cases k) (auto simp: EqExpr_createPartialR.simps [of rec w c])
      qed
      then show ?thesis by (rule default)
    qed
  qed
qed ((rule leaf, (auto simp: EqExpr_createPartialR.simps [of rec w] split: if_splits)[1])+)
qed

lemma two_lin:
  assumes "rec k1 p s = Some x" "typed k1 p s" "k1 = Add \<or> k1 = Sub" "getWidth p \<noteq> 1"
  shows "wfe x" "getWidth x = getWidth p" "getSize x \<le> 1 + getSize p + getSize s"
  using implements_wfe [OF rec_sound [OF assms(1,2)]] rec_lin_size [OF assms] assms(3) by (auto simp: op_width_def)

lemma AddExpr_createPartialR_size:
  assumes "AddExpr_createPartialR rec w c r = Some e" "typed Add (ConstantExpr w c) r" "w \<noteq> 1"
  shows "getSize e \<le> 2 + getSize r"
proof (cases r rule: lin_cases)
  case (Add w' b x)
  show ?thesis
  proof (cases "c = 0")
    case False
    then obtain k where k: "rec Add (ConstantExpr w c) (ConstantExpr w' b) = Some k" "rec Add k x = Some e"
      using assms Add by (auto simp: AddExpr_createPartialR_def)
    have t: "typed Add (ConstantExpr w c :: 'u expr) (ConstantExpr w' b)" using assms(2) Add by (auto simp: typed_def)
    obtain d where d: "k = ConstantExpr w d" "wfe k" using rec_const [OF k(1) t] by blast
    have "typed Add k x" using assms(2) Add d by (auto simp: typed_def)
    from rec_lin_size [OF k(2) this] show ?thesis using d(1) assms(3) Add by simp
  qed (use assms Add in \<open>auto simp: AddExpr_createPartialR_def\<close>)
next
  case (Sub w' b x)
  show ?thesis
  proof (cases "c = 0")
    case False
    then obtain k where k: "rec Add (ConstantExpr w c) (ConstantExpr w' b) = Some k" "rec Sub k x = Some e"
      using assms Sub by (auto simp: AddExpr_createPartialR_def)
    have t: "typed Add (ConstantExpr w c :: 'u expr) (ConstantExpr w' b)" using assms(2) Sub by (auto simp: typed_def)
    obtain d where d: "k = ConstantExpr w d" "wfe k" using rec_const [OF k(1) t] by blast
    have "typed Sub k x" using assms(2) Sub d by (auto simp: typed_def)
    from rec_lin_size [OF k(2) this] show ?thesis using d(1) assms(3) Sub by simp
  qed (use assms Sub in \<open>auto simp: AddExpr_createPartialR_def\<close>)
next
  case other
  then show ?thesis using assms by (auto simp: AddExpr_createPartialR_def split: if_splits)
qed

lemma SubExpr_createPartialR_size:
  assumes "SubExpr_createPartialR rec w c r = Some e" "typed Sub (ConstantExpr w c) r" "w \<noteq> 1"
  shows "getSize e \<le> 2 + getSize r"
proof (cases r rule: lin_cases)
  case (Add w' b x)
  then obtain k where k: "rec Sub (ConstantExpr w c) (ConstantExpr w' b) = Some k" "rec Sub k x = Some e"
    using assms by (auto simp: SubExpr_createPartialR_def)
  have t: "typed Sub (ConstantExpr w c :: 'u expr) (ConstantExpr w' b)" using assms(2) Add by (auto simp: typed_def)
  obtain d where d: "k = ConstantExpr w d" "wfe k" using rec_const [OF k(1) t] by blast
  have "typed Sub k x" using assms(2) Add d by (auto simp: typed_def)
  from rec_lin_size [OF k(2) this] show ?thesis using d(1) assms(3) Add by simp
next
  case (Sub w' b x)
  then obtain k where k: "rec Sub (ConstantExpr w c) (ConstantExpr w' b) = Some k" "rec Add k x = Some e"
    using assms by (auto simp: SubExpr_createPartialR_def)
  have t: "typed Sub (ConstantExpr w c :: 'u expr) (ConstantExpr w' b)" using assms(2) Sub by (auto simp: typed_def)
  obtain d where d: "k = ConstantExpr w d" "wfe k" using rec_const [OF k(1) t] by blast
  have "typed Add k x" using assms(2) Sub d by (auto simp: typed_def)
  from rec_lin_size [OF k(2) this] show ?thesis using d(1) assms(3) Sub by simp
next
  case other
  then show ?thesis using assms by (auto simp: SubExpr_createPartialR_def)
qed

text \<open>A second call whose other operand is a constant, after a first call on the rest.\<close>

lemma lin_after:
  assumes "rec k1 p s = Some x" "typed k1 p s" "k1 = Add \<or> k1 = Sub" "getWidth p \<noteq> 1" "rec k2 a b = Some e"
    "(a = ConstantExpr w c \<and> b = x) \<or> (a = x \<and> b = ConstantExpr w c)" "wfe (ConstantExpr w c :: 'u expr)" "w = getWidth p" "k2 = Add \<or> k2 = Sub"
  shows "getSize e \<le> 3 + getSize p + getSize s"
proof -
  note x = two_lin [OF assms(1-4)]
  have "typed k2 a b" using x assms(6-9) by (auto simp: typed_def)
  then have "getSize e \<le> 1 + getSize a + getSize b" using x assms(4,6,8) by (intro rec_lin_size [OF assms(5) _ assms(9)]) auto
  then show ?thesis using x(3) assms(6) by auto
qed

lemma AddExpr_create_size:
  assumes "AddExpr_create rec l r = Some e" "typed Add l r" "getWidth l \<noteq> 1"
  shows "getSize e \<le> 1 + getSize l + getSize r"
proof (cases l rule: lin_cases)
  case (Add w k a)
  then obtain x where x: "rec Add a r = Some x" "rec Add (ConstantExpr w k) x = Some e" using assms by (auto simp: AddExpr_create_def)
  show ?thesis using lin_after [OF x(1) _ _ _ x(2), of w k] assms(2,3) Add by (auto simp: typed_def)
next
  case (Sub w k a)
  then obtain x where x: "rec Sub r a = Some x" "rec Add (ConstantExpr w k) x = Some e" using assms by (auto simp: AddExpr_create_def)
  show ?thesis using lin_after [OF x(1) _ _ _ x(2), of w k] assms(2,3) Sub by (auto simp: typed_def)
next
  case l: other
  show ?thesis
  proof (cases r rule: lin_cases)
    case (Add w k b)
    then obtain x where x: "rec Add l b = Some x" "rec Add (ConstantExpr w k) x = Some e" using assms l by (auto simp: AddExpr_create_def)
    show ?thesis using lin_after [OF x(1) _ _ _ x(2), of w k] assms(2,3) Add by (auto simp: typed_def)
  next
    case (Sub w k b)
    then obtain x where x: "rec Sub l b = Some x" "rec Add (ConstantExpr w k) x = Some e" using assms l by (auto simp: AddExpr_create_def)
    show ?thesis using lin_after [OF x(1) _ _ _ x(2), of w k] assms(2,3) Sub by (auto simp: typed_def)
  next
    case other
    then show ?thesis using assms l by (auto simp: AddExpr_create_def)
  qed
qed

lemma SubExpr_create_size:
  assumes "SubExpr_create rec l r = Some e" "typed Sub l r" "getWidth l \<noteq> 1"
  shows "getSize e \<le> 1 + getSize l + getSize r"
proof (cases "l = r")
  case False
  show ?thesis
  proof (cases l rule: lin_cases)
    case (Add w k a)
    then obtain x where x: "rec Sub a r = Some x" "rec Add (ConstantExpr w k) x = Some e" using assms False by (auto simp: SubExpr_create_def)
    show ?thesis using lin_after [OF x(1) _ _ _ x(2), of w k] assms(2,3) Add by (auto simp: typed_def)
  next
    case (Sub w k a)
    then obtain x where x: "rec Add a r = Some x" "rec Sub (ConstantExpr w k) x = Some e" using assms False by (auto simp: SubExpr_create_def)
    show ?thesis using lin_after [OF x(1) _ _ _ x(2), of w k] assms(2,3) Sub by (auto simp: typed_def)
  next
    case l: other
    show ?thesis
    proof (cases r rule: lin_cases)
      case (Add w k b)
      then obtain x where x: "rec Sub l b = Some x" "rec Sub x (ConstantExpr w k) = Some e" using assms l False by (auto simp: SubExpr_create_def)
      show ?thesis using lin_after [OF x(1) _ _ _ x(2), of w k] assms(2,3) Add by (auto simp: typed_def)
    next
      case (Sub w k b)
      then obtain x where x: "rec Add l b = Some x" "rec Sub x (ConstantExpr w k) = Some e" using assms l False by (auto simp: SubExpr_create_def)
      show ?thesis using lin_after [OF x(1) _ _ _ x(2), of w k] assms(2,3) Sub by (auto simp: typed_def)
    next
      case other
      then show ?thesis using assms l False by (auto simp: SubExpr_create_def)
    qed
  qed
qed (use assms in \<open>auto simp: SubExpr_create_def\<close>)

lemma create_body_small:
  assumes "create_body rec k l r = Some e" "typed k l r"
  shows "small k l r e"
proof (cases "k \<in> {And, Eq, Add, Sub}")
  case k: True
  have w: "getWidth l = getWidth r" using assms(2) by (simp add: typed_def)
  have "k \<notin> {Ne, Ugt, Uge, Sgt, Sge, Implies}" using k by auto
  note body = assms(1) [unfolded create_body_dispatch [OF this]]
  show ?thesis
  proof (cases rule: const_cases [of l r])
    case (both wl a wr b)
    then show ?thesis using body k w by (auto simp: fold_op_def small_def)
  next
    case (left wl a)
    then have "partialR rec k wl a r = Some e" using body w by simp
    then show ?thesis
      using k left assms(2) AddExpr_createPartialR_size SubExpr_createPartialR_size EqExpr_createPartialR_size
      by (fastforce simp: partialR_def small_def AndExpr_createPartial_def split: if_splits)
  next
    case (right wr b)
    then have p: "partialL rec k l wr b = Some e" using body w by simp
    have t: "typed Add (ConstantExpr wr (take_bit wr z)) l" "typed Add (ConstantExpr wr b) l" "typed Eq (ConstantExpr wr b) l" for z
      using assms(2) right by (auto simp: typed_def)
    show ?thesis
      using p k right w t AddExpr_createPartialR_size [of wr b l e] AddExpr_createPartialR_size [of wr "take_bit wr (0 - b)" l e]
        EqExpr_createPartialR_size [of wr b l e]
      by (auto simp: partialL_def small_def AndExpr_createPartial_def SubExpr_createPartial_def typed_kind split: if_splits)
  next
    case none
    then have "general rec k l r = Some e" using body w by simp
    then show ?thesis
      using k none assms(2) AddExpr_create_size SubExpr_create_size AndExpr_create_size EqExpr_create_size [of l r]
      by (auto simp: general_def small_def)
  qed
qed (auto simp: small_def)

end

lemma create_small_creates: "small_creates (create n :: 'u creates)"
proof (induction n)
  case 0
  then show ?case by (intro small_creates.intro small_creates_axioms.intro create_sound_creates) simp
next
  case (Suc n)
  then show ?case
    by (intro small_creates.intro small_creates_axioms.intro create_sound_creates) (simp add: small_creates.create_body_small)
qed

interpretation create_n: small_creates "create n" for n
  by (rule create_small_creates)

subsection \<open>Enough calls\<close>

definition calls :: "Kind \<Rightarrow> 'u expr \<Rightarrow> 'u expr \<Rightarrow> nat" where
  "calls k l r =
     (if k = And \<or> k = Or then getSize l
      else if k = Eq then 3 * (getSize l + getSize r)
      else if k = Add \<or> k = Sub then 6 * (getSize l + getSize r) + (if is_const l \<or> is_const r then 0 else 3)
      else if k = Ne then 12 * (getSize l + getSize r)
      else if k \<in> {Ugt, Uge, Sgt, Sge} then 6 * (getSize l + getSize r) + 1
      else 6 * (getSize l + getSize r))"

definition div_ok :: "Kind \<Rightarrow> 'u expr \<Rightarrow> 'u expr \<Rightarrow> bool" where
  "div_ok k l r \<longleftrightarrow> (k \<in> {UDiv, SDiv, URem, SRem} \<longrightarrow> (\<forall>w. is_const l \<longrightarrow> r \<noteq> ConstantExpr w 0))"

locale total_creates = small_creates rec for rec :: "'u creates" +
  fixes M :: nat
  assumes rec_total: "typed k l r \<Longrightarrow> div_ok k l r \<Longrightarrow> calls k l r < M \<Longrightarrow> \<exists>e. rec k l r = Some e"
begin

lemma isZero_total:
  assumes "wfe e" "3 * (getSize e + 1) < M"
  obtains x where "createIsZero rec e = Some x" "wfe x" "getWidth x = 1" "getSize x < 3 * (getSize e + 1)"
proof -
  have "typed Eq e (ConstantExpr (getWidth e) 0)" using assms(1) wfe_width [of e] by (simp add: typed_def)
  then obtain x where "createIsZero rec e = Some x"
    using rec_total [of Eq e "ConstantExpr (getWidth e) 0"] assms(2) by (auto simp: div_ok_def calls_def createIsZero_def)
  then show ?thesis using that isZero_typed isZero_size assms(1) by blast
qed

lemma rec_And_total: "typed And l r \<Longrightarrow> getSize l < M \<Longrightarrow> \<exists>e. rec And l r = Some e"
  using rec_total [of And l r] by (simp add: div_ok_def calls_def)

lemma rec_Or_total: "typed Or l r \<Longrightarrow> getSize l < M \<Longrightarrow> \<exists>e. rec Or l r = Some e"
  using rec_total [of Or l r] by (simp add: div_ok_def calls_def)

lemma rec_Eq_total: "typed Eq l r \<Longrightarrow> 3 * (getSize l + getSize r) < M \<Longrightarrow> \<exists>e. rec Eq l r = Some e"
  using rec_total [of Eq l r] by (simp add: div_ok_def calls_def)

lemma EqExpr_createPartialR_total:
  assumes "typed Eq (ConstantExpr w c) r" "3 * (1 + getSize r) \<le> M"
  shows "\<exists>e. EqExpr_createPartialR rec w c r = Some e"
  using assms
proof (induction r arbitrary: c)
  case (SExtExpr src n)
  have "typed Eq src (ConstantExpr (getWidth src) (take_bit (getWidth src) c))"
    using SExtExpr.prems(1) wfe_width [of src] by (auto simp: typed_def)
  from rec_Eq_total [OF this] SExtExpr.prems show ?case by (auto simp: EqExpr_createPartialR.simps Let_def ap_ZExt_def)
next
  case (ZExtExpr src n)
  have "typed Eq src (ConstantExpr (getWidth src) (take_bit (getWidth src) c))"
    using ZExtExpr.prems(1) wfe_width [of src] by (auto simp: typed_def)
  from rec_Eq_total [OF this] ZExtExpr.prems show ?case by (auto simp: EqExpr_createPartialR.simps Let_def ap_ZExt_def)
next
  case (BinaryExpr k x b)
  have w: "wfe x" "wfe b" using BinaryExpr.prems(1) by (auto simp: typed_def)
  show ?case
  proof (cases "w = 1")
    case True
    show ?thesis
    proof (cases "k = Or")
      case o: True
      obtain p where p: "createIsZero rec x = Some p" "wfe p" "getWidth p = 1" "getSize p < 3 * (getSize x + 1)"
        using isZero_total [OF w(1)] BinaryExpr.prems(2) by auto
      obtain q where q: "createIsZero rec b = Some q" "wfe q" "getWidth q = 1"
        using isZero_total [OF w(2)] BinaryExpr.prems(2) by auto
      have "\<exists>e. rec And p q = Some e" using p q BinaryExpr.prems(2) by (intro rec_And_total) (auto simp: typed_def)
      then show ?thesis using p q o True by (auto simp: EqExpr_createPartialR.simps)
    next
      case o: False
      show ?thesis
      proof (cases "k = Eq")
        case e: True
        then show ?thesis using True by (cases x) (auto simp: EqExpr_createPartialR.simps)
      next
        case False
        then show ?thesis using True o by (cases k) (auto simp: EqExpr_createPartialR.simps)
      qed
    qed
  next
    case False
    show ?thesis
    proof (cases "(k = Add \<or> k = Sub) \<and> (\<exists>w' d. x = ConstantExpr w' d)")
      case True
      then obtain w' d where x: "k = Add \<or> k = Sub" "x = ConstantExpr w' d" by blast
      have t: "w' = w" "wfe b" "getWidth b = w" "0 < w" using BinaryExpr.prems(1) x by (auto simp: typed_def)
      then have "typed Eq (ConstantExpr w (take_bit w z)) b" for z by (simp add: typed_def)
      then have "\<exists>e. EqExpr_createPartialR rec w (take_bit w z) b = Some e" for z using BinaryExpr.IH(2) BinaryExpr.prems(2) x by auto
      then show ?thesis using x False t(1) by (auto simp: EqExpr_createPartialR.simps [of rec w c])
    next
      case o: False
      show ?thesis
      proof (cases "k = Add \<or> k = Sub")
        case True
        then show ?thesis using o False by (cases x) (auto simp: EqExpr_createPartialR.simps [of rec w c])
      next
        case k: False
        then show ?thesis using False by (cases k) (auto simp: EqExpr_createPartialR.simps [of rec w c])
      qed
    qed
  qed
qed (auto simp: EqExpr_createPartialR.simps)

lemma rec_lin_total:
  "typed k l r \<Longrightarrow> k = Add \<or> k = Sub \<Longrightarrow> 6 * (getSize l + getSize r) + (if is_const l \<or> is_const r then 0 else 3) < M \<Longrightarrow>
   \<exists>e. rec k l r = Some e"
  using rec_total [of k l r] by (auto simp: div_ok_def calls_def)

lemma two_lin_total:
  assumes "typed k1 p s" "k1 = Add \<or> k1 = Sub" "getWidth p \<noteq> 1" "6 * (2 + getSize p + getSize s) < M"
    "wfe (ConstantExpr w c :: 'u expr)" "w = getWidth p" "k2 = Add \<or> k2 = Sub"
  shows "\<exists>x. rec k1 p s = Some x \<and> (\<exists>e. rec k2 (ConstantExpr w c) x = Some e) \<and> (\<exists>e. rec k2 x (ConstantExpr w c) = Some e)"
proof -
  have "\<exists>x. rec k1 p s = Some x" using assms(4) by (intro rec_lin_total [OF assms(1,2)]) auto
  then obtain x where x: "rec k1 p s = Some x" by blast
  note sx = two_lin [OF x assms(1-3)]
  have t: "typed k2 (ConstantExpr w c) x" "typed k2 x (ConstantExpr w c)" using sx assms(5-7) by (auto simp: typed_def)
  then have "\<exists>e. rec k2 (ConstantExpr w c) x = Some e" "\<exists>e. rec k2 x (ConstantExpr w c) = Some e"
    using sx(3) assms(4) rec_lin_total [OF t(1) assms(7)] rec_lin_total [OF t(2) assms(7)] by auto
  then show ?thesis using x by blast
qed

lemma const_lin_total:
  assumes "typed k1 (ConstantExpr w c :: 'u expr) (ConstantExpr w' b)" "k1 = Add \<or> k1 = Sub" "wfe x" "getWidth x = w"
    "6 * (1 + getSize x) < M" "k2 = Add \<or> k2 = Sub"
  shows "\<exists>k. rec k1 (ConstantExpr w c) (ConstantExpr w' b) = Some k \<and> (\<exists>e. rec k2 k x = Some e)"
proof -
  have "\<exists>k. rec k1 (ConstantExpr w c) (ConstantExpr w' b) = Some k"
    using assms(5) getSize_Suc [of x] by (intro rec_lin_total [OF assms(1,2)]) (simp add: numeral_eq_Suc)
  then obtain k where k: "rec k1 (ConstantExpr w c) (ConstantExpr w' b) = Some k" by blast
  obtain d where d: "k = ConstantExpr w d" "wfe k" using rec_const [OF k assms(1,2)] by blast
  have "typed k2 k x" using d assms(3,4,6) by (auto simp: typed_def)
  then have "\<exists>e. rec k2 k x = Some e" using assms(5) d(1) by (intro rec_lin_total [OF _ assms(6)]) auto
  then show ?thesis using k by blast
qed

lemma XorExpr_createPartialR_total:
  assumes "wfe (ConstantExpr w c :: 'u expr)" "wfe r" "getWidth r = w" "3 * (1 + getSize r) \<le> M"
  shows "\<exists>e. XorExpr_createPartialR rec w c r = Some e"
  using assms EqExpr_createPartialR_total [of 1 0 r] by (auto simp: XorExpr_createPartialR_def typed_def)

lemma AddExpr_createPartialR_total:
  assumes "typed Add (ConstantExpr w c) r" "6 * (1 + getSize r) \<le> M"
  shows "\<exists>e. AddExpr_createPartialR rec w c r = Some e"
proof (cases "w = 1 \<or> c = 0")
  case True
  have "\<exists>e. XorExpr_createPartialR rec w c r = Some e"
    using assms by (intro XorExpr_createPartialR_total) (auto simp: typed_def)
  then show ?thesis using True by (auto simp: AddExpr_createPartialR_def)
next
  case False
  show ?thesis
  proof (cases r rule: lin_cases)
    case (Add w' b x)
    have "\<exists>k. rec Add (ConstantExpr w c) (ConstantExpr w' b) = Some k \<and> (\<exists>e. rec Add k x = Some e)"
      using assms Add by (intro const_lin_total) (auto simp: typed_def)
    then show ?thesis using Add False by (auto simp: AddExpr_createPartialR_def)
  next
    case (Sub w' b x)
    have "\<exists>k. rec Add (ConstantExpr w c) (ConstantExpr w' b) = Some k \<and> (\<exists>e. rec Sub k x = Some e)"
      using assms Sub by (intro const_lin_total) (auto simp: typed_def)
    then show ?thesis using Sub False by (auto simp: AddExpr_createPartialR_def)
  next
    case other
    then show ?thesis using False by (auto simp: AddExpr_createPartialR_def)
  qed
qed

lemma SubExpr_createPartialR_total:
  assumes "typed Sub (ConstantExpr w c) r" "6 * (1 + getSize r) \<le> M"
  shows "\<exists>e. SubExpr_createPartialR rec w c r = Some e"
proof (cases "w = 1")
  case True
  have "\<exists>e. XorExpr_createPartialR rec w c r = Some e"
    using assms by (intro XorExpr_createPartialR_total) (auto simp: typed_def)
  then show ?thesis using True by (auto simp: SubExpr_createPartialR_def)
next
  case False
  show ?thesis
  proof (cases r rule: lin_cases)
    case (Add w' b x)
    have "\<exists>k. rec Sub (ConstantExpr w c) (ConstantExpr w' b) = Some k \<and> (\<exists>e. rec Sub k x = Some e)"
      using assms Add by (intro const_lin_total) (auto simp: typed_def)
    then show ?thesis using Add False by (auto simp: SubExpr_createPartialR_def)
  next
    case (Sub w' b x)
    have "\<exists>k. rec Sub (ConstantExpr w c) (ConstantExpr w' b) = Some k \<and> (\<exists>e. rec Add k x = Some e)"
      using assms Sub by (intro const_lin_total) (auto simp: typed_def)
    then show ?thesis using Sub False by (auto simp: SubExpr_createPartialR_def)
  next
    case other
    then show ?thesis using False by (auto simp: SubExpr_createPartialR_def)
  qed
qed

lemma AddExpr_create_total:
  assumes "typed Add l r" "6 * (getSize l + getSize r) + 3 \<le> M"
  shows "\<exists>e. AddExpr_create rec l r = Some e"
proof (cases "getWidth l = 1")
  case w: False
  show ?thesis
  proof (cases l rule: lin_cases)
    case (Add v k a)
    have "\<exists>x. rec Add a r = Some x \<and> (\<exists>e. rec Add (ConstantExpr v k) x = Some e) \<and> (\<exists>e. rec Add x (ConstantExpr v k) = Some e)"
      using assms w Add by (intro two_lin_total) (auto simp: typed_def)
    then show ?thesis using Add w by (auto simp: AddExpr_create_def)
  next
    case (Sub v k a)
    have "\<exists>x. rec Sub r a = Some x \<and> (\<exists>e. rec Add (ConstantExpr v k) x = Some e) \<and> (\<exists>e. rec Add x (ConstantExpr v k) = Some e)"
      using assms w Sub by (intro two_lin_total) (auto simp: typed_def)
    then show ?thesis using Sub w by (auto simp: AddExpr_create_def)
  next
    case l: other
    show ?thesis
    proof (cases r rule: lin_cases)
      case (Add v k b)
      have "\<exists>x. rec Add l b = Some x \<and> (\<exists>e. rec Add (ConstantExpr v k) x = Some e) \<and> (\<exists>e. rec Add x (ConstantExpr v k) = Some e)"
        using assms w Add by (intro two_lin_total) (auto simp: typed_def)
      then show ?thesis using Add w l by (auto simp: AddExpr_create_def)
    next
      case (Sub v k b)
      have "\<exists>x. rec Sub l b = Some x \<and> (\<exists>e. rec Add (ConstantExpr v k) x = Some e) \<and> (\<exists>e. rec Add x (ConstantExpr v k) = Some e)"
        using assms w Sub by (intro two_lin_total) (auto simp: typed_def)
      then show ?thesis using Sub w l by (auto simp: AddExpr_create_def)
    next
      case other
      then show ?thesis using w l by (auto simp: AddExpr_create_def)
    qed
  qed
qed (auto simp: AddExpr_create_def)

lemma SubExpr_create_total:
  assumes "typed Sub l r" "6 * (getSize l + getSize r) + 3 \<le> M"
  shows "\<exists>e. SubExpr_create rec l r = Some e"
proof (cases "getWidth l = 1 \<or> l = r")
  case w: False
  show ?thesis
  proof (cases l rule: lin_cases)
    case (Add v k a)
    have "\<exists>x. rec Sub a r = Some x \<and> (\<exists>e. rec Add (ConstantExpr v k) x = Some e) \<and> (\<exists>e. rec Add x (ConstantExpr v k) = Some e)"
      using assms w Add by (intro two_lin_total) (auto simp: typed_def)
    then show ?thesis using Add w by (auto simp: SubExpr_create_def)
  next
    case (Sub v k a)
    have "\<exists>x. rec Add a r = Some x \<and> (\<exists>e. rec Sub (ConstantExpr v k) x = Some e) \<and> (\<exists>e. rec Sub x (ConstantExpr v k) = Some e)"
      using assms w Sub by (intro two_lin_total) (auto simp: typed_def)
    then show ?thesis using Sub w by (auto simp: SubExpr_create_def)
  next
    case l: other
    show ?thesis
    proof (cases r rule: lin_cases)
      case (Add v k b)
      have "\<exists>x. rec Sub l b = Some x \<and> (\<exists>e. rec Sub (ConstantExpr v k) x = Some e) \<and> (\<exists>e. rec Sub x (ConstantExpr v k) = Some e)"
        using assms w Add by (intro two_lin_total) (auto simp: typed_def)
      then show ?thesis using Add w l by (auto simp: SubExpr_create_def)
    next
      case (Sub v k b)
      have "\<exists>x. rec Add l b = Some x \<and> (\<exists>e. rec Sub (ConstantExpr v k) x = Some e) \<and> (\<exists>e. rec Sub x (ConstantExpr v k) = Some e)"
        using assms w Sub by (intro two_lin_total) (auto simp: typed_def)
      then show ?thesis using Sub w l by (auto simp: SubExpr_create_def)
    next
      case other
      then show ?thesis using w l by (auto simp: SubExpr_create_def)
    qed
  qed
qed (auto simp: SubExpr_create_def)

lemma chain_total:
  assumes "typed k (BinaryExpr k a b) r" "k = And \<or> k = Or" "1 + getSize a + getSize b \<le> M"
  shows "\<exists>x. rec k b r = Some x \<and> (\<exists>e. rec k a x = Some e)"
proof -
  have t: "typed k b r" "wfe a" "getWidth a = getWidth b" using assms(1,2) by (auto simp: typed_def)
  then obtain x where x: "rec k b r = Some x" using rec_And_total rec_Or_total assms(2,3) by fastforce
  have "typed k a x" using implements_wfe [OF rec_sound [OF x t(1)]] t assms(2) by (auto simp: typed_def op_width_def)
  then have "\<exists>e. rec k a x = Some e" using rec_And_total rec_Or_total assms(2,3) by fastforce
  then show ?thesis using x by blast
qed

lemma AndExpr_create_total:
  assumes "typed And l r" "getSize l \<le> M"
  shows "\<exists>e. AndExpr_create rec l r = Some e"
proof (cases l)
  case (BinaryExpr k a b)
  then show ?thesis using chain_total [of And a b r] assms by (cases k) (auto simp: AndExpr_create_def split: option.splits)
qed (auto simp: AndExpr_create_def split: option.splits)

lemma OrExpr_create_total:
  assumes "typed Or l r" "getSize l \<le> M"
  shows "\<exists>e. OrExpr_create rec l r = Some e"
proof (cases l)
  case (BinaryExpr k a b)
  then show ?thesis using chain_total [of Or a b r] assms by (cases k) (auto simp: OrExpr_create_def split: option.splits)
qed (auto simp: OrExpr_create_def split: option.splits)

lemma isZero_then_total:
  assumes "wfe z" "getWidth z = 1" "wfe y" "getWidth y = 1" "k = And \<or> k = Or" "6 * (getSize z + getSize y) \<le> M"
  shows "\<exists>x. createIsZero rec z = Some x \<and> (\<exists>e. rec k x y = Some e) \<and> (\<exists>e. rec k y x = Some e)"
proof -
  have m: "3 * (getSize z + 1) < M" "getSize y < M" using assms(6) getSize_Suc [of y] getSize_Suc [of z] by auto
  obtain x where x: "createIsZero rec z = Some x" "wfe x" "getWidth x = 1" "getSize x < 3 * (getSize z + 1)"
    using isZero_total [OF assms(1) m(1)] by blast
  have "typed k x y" "typed k y x" using x assms(3-5) by (auto simp: typed_def)
  then have "\<exists>e. rec k x y = Some e" "\<exists>e. rec k y x = Some e"
    using rec_And_total rec_Or_total assms(5) x(4) m by fastforce+
  then show ?thesis using x(1) by blast
qed

lemma other_create_total:
  assumes "typed k l r" "6 * (getSize l + getSize r) \<le> M" "k \<in> {UDiv, SDiv, URem, SRem, Shl, LShr, AShr, Ult, Ule, Slt, Sle}"
  shows "\<exists>e. other_create rec k l r = Some e"
proof (cases "getWidth l = 1")
  case True
  have w: "wfe l" "wfe r" "getWidth r = 1" using assms(1) True by (auto simp: typed_def)
  have s: "6 * (getSize r + getSize l) \<le> M" using assms(2) by simp
  show ?thesis
    using assms(3) True isZero_then_total [OF w(2,3) w(1) True _ s] isZero_then_total [OF w(1) True w(2,3) _ assms(2)]
    by (fastforce simp: other_create_def)
qed (auto simp: other_create_def)

lemma ImpliesExpr_create_total:
  assumes "typed Implies l r" "6 * (getSize l + getSize r) \<le> M"
  shows "\<exists>e. ImpliesExpr_create rec l r = Some e"
proof -
  have w: "wfe l" "getWidth l = 1" "getWidth r = 1" using assms(1) by (auto simp: typed_def)
  have "3 * (getSize l + 1) < M" using assms(2) getSize_Suc [of l] getSize_Suc [of r] by auto
  then obtain x where "createIsZero rec l = Some x" using isZero_total [OF w(1)] by blast
  then show ?thesis using w by (auto simp: ImpliesExpr_create_def split: expr.splits)
qed

lemma Ne_total:
  assumes "typed Ne l r" "12 * (getSize l + getSize r) \<le> M"
  shows "\<exists>x. rec Eq l r = Some x \<and> (\<exists>e. rec Eq FalseE x = Some e)"
proof -
  have t: "typed Eq l r" using assms(1) by (simp add: typed_def)
  have m: "3 * (getSize l + getSize r) < M" using assms(2) getSize_Suc [of l] by auto
  then obtain x where x: "rec Eq l r = Some x" using rec_Eq_total [OF t] by blast
  have "typed Eq FalseE x" using implements_wfe [OF rec_sound [OF x t]] by (auto simp: typed_def op_width_def)
  moreover have "3 * (getSize FalseE + getSize x) < M"
    using rec_Eq_size [OF x t] assms(2) getSize_Suc [of l] by (simp add: numeral_eq_Suc)
  ultimately show ?thesis using rec_Eq_total x by blast
qed

lemma partialR_total:
  assumes "typed k (ConstantExpr w c) r" "calls k (ConstantExpr w c) r \<le> M" "k \<notin> {Ne, Ugt, Uge, Sgt, Sge, Implies}"
  shows "\<exists>e. partialR rec k w c r = Some e"
proof -
  have x: "\<exists>e. XorExpr_createPartialR rec w c r = Some e" if "k = Xor"
    using assms(1,2) that by (intro XorExpr_createPartialR_total) (auto simp: typed_def calls_def)
  have o: "\<exists>e. other_create rec k (ConstantExpr w c) r = Some e" if "k \<in> {UDiv, SDiv, URem, SRem, Shl, LShr, AShr, Ult, Ule, Slt, Sle}"
    using assms(1,2) that by (intro other_create_total) (auto simp: calls_def)
  have "\<exists>e. AddExpr_createPartialR rec w c r = Some e" if "k = Add"
    using assms(1,2) that by (intro AddExpr_createPartialR_total) (auto simp: calls_def)
  moreover have "\<exists>e. SubExpr_createPartialR rec w c r = Some e" if "k = Sub"
    using assms(1,2) that by (intro SubExpr_createPartialR_total) (auto simp: calls_def)
  moreover have "\<exists>e. EqExpr_createPartialR rec w c r = Some e" if "k = Eq"
    using assms(1,2) that by (intro EqExpr_createPartialR_total) (auto simp: calls_def)
  ultimately show ?thesis
    using assms(3) x o
    by (cases k) (auto simp: partialR_def AndExpr_createPartial_def OrExpr_createPartial_def MulExpr_createPartialR_def)
qed

lemma partialL_total:
  assumes "typed k l (ConstantExpr w c)" "calls k l (ConstantExpr w c) \<le> M" "k \<notin> {Ne, Ugt, Uge, Sgt, Sge, Implies}"
  shows "\<exists>e. partialL rec k l w c = Some e"
proof -
  have w: "wfe l" "getWidth l = w" "wfe (ConstantExpr w c :: 'u expr)" "wfe (ConstantExpr w (take_bit w z) :: 'u expr)" for z
    using assms(1) by (auto simp: typed_def)
  have x: "\<exists>e. XorExpr_createPartialR rec w c l = Some e" if "k = Xor"
    using assms(2) that w by (intro XorExpr_createPartialR_total) (auto simp: calls_def)
  have o: "\<exists>e. other_create rec k l (ConstantExpr w c) = Some e" if "k \<in> {UDiv, SDiv, URem, SRem, Shl, LShr, AShr, Ult, Ule, Slt, Sle}"
    using assms(1,2) that by (intro other_create_total) (auto simp: calls_def)
  have "\<exists>e. AddExpr_createPartialR rec w c l = Some e" if "k = Add"
    using assms(2) that w by (intro AddExpr_createPartialR_total) (auto simp: calls_def typed_def)
  moreover have "\<exists>e. SubExpr_createPartial rec l w c = Some e" if "k = Sub"
    unfolding SubExpr_createPartial_def
    using assms(2) that w by (intro AddExpr_createPartialR_total) (auto simp: calls_def typed_def)
  moreover have "\<exists>e. EqExpr_createPartialR rec w c l = Some e" if "k = Eq"
    using assms(2) that w by (intro EqExpr_createPartialR_total) (auto simp: calls_def typed_def)
  ultimately show ?thesis
    using assms(3) x o
    by (cases k) (auto simp: partialL_def AndExpr_createPartial_def OrExpr_createPartial_def MulExpr_createPartialR_def)
qed

lemma general_total:
  assumes "typed k l r" "calls k l r \<le> M" "k \<notin> {Ne, Ugt, Uge, Sgt, Sge, Implies}" "\<not> is_const l" "\<not> is_const r"
  shows "\<exists>e. general rec k l r = Some e"
proof -
  have o: "\<exists>e. other_create rec k l r = Some e" if "k \<in> {UDiv, SDiv, URem, SRem, Shl, LShr, AShr, Ult, Ule, Slt, Sle}"
    using assms(1,2) that by (intro other_create_total) (auto simp: calls_def)
  have "\<exists>e. AddExpr_create rec l r = Some e" if "k = Add"
    using assms that by (intro AddExpr_create_total) (auto simp: calls_def)
  moreover have "\<exists>e. SubExpr_create rec l r = Some e" if "k = Sub"
    using assms that by (intro SubExpr_create_total) (auto simp: calls_def)
  moreover have "\<exists>e. AndExpr_create rec l r = Some e" if "k = And"
    using assms that by (intro AndExpr_create_total) (auto simp: calls_def)
  moreover have "\<exists>e. OrExpr_create rec l r = Some e" if "k = Or"
    using assms that by (intro OrExpr_create_total) (auto simp: calls_def)
  ultimately show ?thesis using assms(3) o by (cases k) (auto simp: general_def MulExpr_create_def)
qed

lemma fold_op_total: "div_ok k (ConstantExpr w a) (ConstantExpr w b) \<Longrightarrow> \<exists>e. fold_op k w a b = Some e"
  by (cases k) (auto simp: fold_op_def div_ok_def)

lemma swapped_total:
  assumes "typed k l r" "calls k l r \<le> M" "(k, k') \<in> {(Ugt, Ult), (Uge, Ule), (Sgt, Slt), (Sge, Sle)}"
  shows "\<exists>e. rec k' r l = Some e"
  using assms by (intro rec_total) (auto simp: typed_def div_ok_def calls_def)

lemma create_body_total:
  assumes "typed k l r" "div_ok k l r" "calls k l r \<le> M"
  shows "\<exists>e. create_body rec k l r = Some e"
proof (cases "k \<in> {Ne, Ugt, Uge, Sgt, Sge, Implies}")
  case True
  then show ?thesis
    using assms swapped_total [OF assms(1,3)] Ne_total [of l r] ImpliesExpr_create_total [of l r]
    by (auto simp: create_body_def calls_def)
next
  case k: False
  have w: "getWidth l = getWidth r" using assms(1) by (simp add: typed_def)
  note body = create_body_dispatch [OF k, of rec l r]
  show ?thesis
  proof (cases rule: const_cases [of l r])
    case (both wl a wr b)
    then show ?thesis using w fold_op_total assms(2) body by auto
  next
    case (left wl a)
    then have "create_body rec k l r = partialR rec k wl a r" using body w by simp
    then show ?thesis using partialR_total assms k left by auto
  next
    case (right wr b)
    then have "create_body rec k l r = partialL rec k l wr b" using body w by simp
    then show ?thesis using partialL_total assms k right by auto
  next
    case none
    then have "create_body rec k l r = general rec k l r" using body w by simp
    then show ?thesis using general_total assms k none by auto
  qed
qed

end

lemma create_total_creates: "total_creates (create n :: 'u creates) n"
proof (induction n)
  case 0
  then show ?case by (intro total_creates.intro total_creates_axioms.intro create_small_creates) simp
next
  case (Suc n)
  then show ?case
    by (intro total_creates.intro total_creates_axioms.intro create_small_creates) (simp add: total_creates.create_body_total)
qed

interpretation create_n: total_creates "create n" n for n
  by (rule create_total_creates)

subsection \<open>More calls do not change the result\<close>

locale creates_le =
  fixes rec rec' :: "'u creates"
  assumes le: "rec k l r = Some e \<Longrightarrow> rec' k l r = Some e"
begin

lemma le_eq: "rec k l r \<noteq> None \<Longrightarrow> rec' k l r = rec k l r"
  using le by auto

lemma isZero_eq: "createIsZero rec e \<noteq> None \<Longrightarrow> createIsZero rec' e = createIsZero rec e"
  by (simp add: createIsZero_def le_eq)

lemma EqExpr_createPartialR_le: "EqExpr_createPartialR rec w c r = Some e \<Longrightarrow> EqExpr_createPartialR rec' w c r = Some e"
proof (induction r arbitrary: c)
  case (BinaryExpr k x b)
  note unf = EqExpr_createPartialR.simps [of _ w c]
  show ?case
  proof (cases "w = 1")
    case True
    then show ?thesis
      using BinaryExpr.prems by (cases k; cases "c = 1") (auto simp: EqExpr_createPartialR.simps [of _ "Suc 0"] le_eq isZero_eq)
  next
    case False
    show ?thesis
    proof (cases x)
      case (ConstantExpr v d)
      then show ?thesis using BinaryExpr.prems BinaryExpr.IH(2) False by (cases k) (auto simp: unf split: if_splits)
    qed (use BinaryExpr.prems False in \<open>cases k; simp add: unf\<close>)+
  qed
qed (auto simp: EqExpr_createPartialR.simps Let_def le_eq split: if_splits)

lemma XorExpr_createPartialR_le: "XorExpr_createPartialR rec w c r = Some e \<Longrightarrow> XorExpr_createPartialR rec' w c r = Some e"
  by (auto simp: XorExpr_createPartialR_def EqExpr_createPartialR_le split: if_splits)

lemma AddExpr_createPartialR_le: "AddExpr_createPartialR rec w c r = Some e \<Longrightarrow> AddExpr_createPartialR rec' w c r = Some e"
  by (cases r rule: lin_cases) (auto simp: AddExpr_createPartialR_def XorExpr_createPartialR_le le_eq split: if_splits)

lemma SubExpr_createPartialR_le: "SubExpr_createPartialR rec w c r = Some e \<Longrightarrow> SubExpr_createPartialR rec' w c r = Some e"
  by (cases r rule: lin_cases) (auto simp: SubExpr_createPartialR_def XorExpr_createPartialR_le le_eq split: if_splits)

lemma AddExpr_create_le:
  assumes "AddExpr_create rec l r = Some e"
  shows "AddExpr_create rec' l r = Some e"
proof (cases l rule: lin_cases)
  case other
  then show ?thesis using assms by (cases r rule: lin_cases) (auto simp: AddExpr_create_def le_eq split: if_splits)
qed (use assms in \<open>auto simp: AddExpr_create_def le_eq split: if_splits\<close>)

lemma SubExpr_create_le:
  assumes "SubExpr_create rec l r = Some e"
  shows "SubExpr_create rec' l r = Some e"
proof (cases l rule: lin_cases)
  case other
  then show ?thesis using assms by (cases r rule: lin_cases) (auto simp: SubExpr_create_def le_eq split: if_splits)
qed (use assms in \<open>auto simp: SubExpr_create_def le_eq split: if_splits\<close>)

lemma AndExpr_create_le: "AndExpr_create rec l r = Some e \<Longrightarrow> AndExpr_create rec' l r = Some e"
proof (cases l)
  case (BinaryExpr k a b)
  then show "AndExpr_create rec l r = Some e \<Longrightarrow> AndExpr_create rec' l r = Some e" by (cases k) (auto simp: AndExpr_create_def le_eq)
qed (auto simp: AndExpr_create_def)

lemma OrExpr_create_le: "OrExpr_create rec l r = Some e \<Longrightarrow> OrExpr_create rec' l r = Some e"
proof (cases l)
  case (BinaryExpr k a b)
  then show "OrExpr_create rec l r = Some e \<Longrightarrow> OrExpr_create rec' l r = Some e" by (cases k) (auto simp: OrExpr_create_def le_eq)
qed (auto simp: OrExpr_create_def)

lemma other_create_le: "other_create rec k l r = Some e \<Longrightarrow> other_create rec' k l r = Some e"
  by (cases k) (auto simp: other_create_def le_eq isZero_eq split: if_splits)

lemma ImpliesExpr_create_le: "ImpliesExpr_create rec l r = Some e \<Longrightarrow> ImpliesExpr_create rec' l r = Some e"
  by (cases rule: const_cases [of l r]) (auto simp: ImpliesExpr_create_def isZero_eq split: if_splits)

lemmas create_le = EqExpr_createPartialR_le XorExpr_createPartialR_le AddExpr_createPartialR_le SubExpr_createPartialR_le
  AddExpr_create_le SubExpr_create_le AndExpr_create_le OrExpr_create_le other_create_le ImpliesExpr_create_le

lemma partialR_le: "partialR rec k w c r = Some e \<Longrightarrow> partialR rec' k w c r = Some e"
  by (cases k) (auto simp: partialR_def intro: create_le)

lemma partialL_le: "partialL rec k l w c = Some e \<Longrightarrow> partialL rec' k l w c = Some e"
  by (cases k) (auto simp: partialL_def SubExpr_createPartial_def intro: create_le)

lemma general_le: "general rec k l r = Some e \<Longrightarrow> general rec' k l r = Some e"
  by (cases k) (auto simp: general_def intro: create_le)

lemma create_body_le:
  assumes "create_body rec k l r = Some e"
  shows "create_body rec' k l r = Some e"
proof (cases "k \<in> {Ne, Ugt, Uge, Sgt, Sge, Implies}")
  case True
  then show ?thesis using assms by (auto simp: create_body_def le_eq intro: create_le)
next
  case k: False
  show ?thesis
    using assms partialR_le partialL_le general_le unfolding create_body_dispatch [OF k]
    by (cases rule: const_cases [of l r]) (auto split: if_splits)
qed

end

lemma create_Suc_le: "creates_le (create n :: 'u creates) (create (Suc n))"
proof (induction n)
  case 0
  then show ?case by unfold_locales simp
next
  case (Suc n)
  then show ?case unfolding create.simps(2) [of "Suc n"] create.simps(2) [of n]
    by (intro creates_le.intro) (simp add: creates_le.create_body_le)
qed

interpretation create_step: creates_le "create n" "create (Suc n)" for n
  by (rule create_Suc_le)

lemma create_mono: "create n k l r = Some e \<Longrightarrow> n \<le> m \<Longrightarrow> create m k l r = Some e"
proof (induction m)
  case (Suc m)
  then show ?case using create_step.le [of m k l r e] by (cases "n = Suc m") auto
qed simp

subsection \<open>Properties\<close>

text \<open>C13. The simplifying constructors return: for well-formed operands of the same width there is one
  result for every number of calls above \<^verbatim>\<open>calls k l r\<close>, which is linear in the sizes of the
  operands. The only exception is the folding of a division of constants by zero.\<close>

theorem create_terminates:
  assumes "typed k l r" "div_ok k l r"
  shows "\<exists>e. \<forall>n > calls k l r. create n k l r = Some e"
proof -
  obtain e where e: "create (Suc (calls k l r)) k l r = Some e"
    using create_n.rec_total [OF assms, of "Suc (calls k l r)"] by blast
  then show ?thesis using create_mono [OF e] by (intro exI [of _ e]) auto
qed

definition demo_l :: "unit expr" where
  "demo_l = BinaryExpr Sub (ConstantExpr 8 5) (ReadExpr () (ConstantExpr 32 0))"

definition demo_r :: "unit expr" where
  "demo_r = BinaryExpr Add (ConstantExpr 8 7) (ReadExpr () (ConstantExpr 32 1))"

theorem create_terminates_witness: "\<exists>e. \<forall>n > calls Add demo_l demo_r. create n Add demo_l demo_r = Some e"
proof (rule create_terminates)
  show "typed Add demo_l demo_r" by code_simp
qed (simp add: div_ok_def)

text \<open>C4. The simplifying constructors preserve the meaning of an expression: the result is well-formed,
  has the width of the operation, and in every assignment in which the operation is defined it has
  the value of the operation on the values of the operands, at the given width.\<close>

theorem create_preserves_value:
  assumes "create n k l r = Some e" "typed k l r"
  shows "wfe e \<and> getWidth e = op_width k l \<and>
    (\<forall>rd q v. eval rd q (BinaryExpr k l r) = Some v \<longrightarrow> eval rd q e = Some v)"
  using create_n.rec_sound [OF assms] by (simp add: implements_def)

theorem create_preserves_value_witness:
  "\<exists>e. create 200 Add demo_l demo_r = Some e \<and> e \<noteq> BinaryExpr Add demo_l demo_r \<and>
     (\<forall>rd q v. eval rd q (BinaryExpr Add demo_l demo_r) = Some v \<longrightarrow> eval rd q e = Some v)"
proof -
  let ?e = "BinaryExpr Add (ConstantExpr 8 12) (BinaryExpr Sub (ReadExpr () (ConstantExpr 32 1)) (ReadExpr () (ConstantExpr 32 0)))"
  have c: "create 200 Add demo_l demo_r = Some ?e" by code_simp
  have t: "typed Add demo_l demo_r" by code_simp
  have "?e \<noteq> BinaryExpr Add demo_l demo_r" by (simp add: demo_l_def)
  then show ?thesis using c create_preserves_value [OF c t] by blast
qed

end
