(* ===== verification/Expr_Bits.thy ===== *)
theory Expr_Bits
  imports Expr_Term
begin

text \<open>
  The constructors \<^verbatim>\<open>create\<close> of selections, concatenations, extractions and casts
  (\<^verbatim>\<open>lib/Expr/Expr.cpp\<close>). Concatenation and extraction call each other and have these calls as
  arguments, \<^verbatim>\<open>recC l r\<close> and \<^verbatim>\<open>recE e off w\<close>; \<^verbatim>\<open>bits n\<close> unfolds them \<^verbatim>\<open>n\<close> times.
\<close>

subsection \<open>Definitions\<close>

definition mk :: "'u creates" where
  "mk k l r = create (Suc (calls k l r)) k l r"

definition SelectExpr_create :: "'u expr \<Rightarrow> 'u expr \<Rightarrow> 'u expr \<Rightarrow> 'u expr option" where
  "SelectExpr_create c t f =
     (if getWidth c \<noteq> 1 \<or> getWidth t \<noteq> getWidth f then None
      else (case c of
          ConstantExpr w v \<Rightarrow> Some (if v = 1 then t else f)
        | _ \<Rightarrow>
          if t = f then Some t
          else if getWidth t = 1 then
            (case t of
               ConstantExpr w v \<Rightarrow> if v = 1 then mk Or c f else do { z \<leftarrow> createIsZero mk c; mk And z f }
             | _ \<Rightarrow>
               (case f of
                  ConstantExpr w v \<Rightarrow> if v = 1 then do { z \<leftarrow> createIsZero mk c; mk Or z t } else mk And c t
                | _ \<Rightarrow> Some (SelectExpr c t f)))
          else Some (SelectExpr c t f)))"

definition NotExpr_create :: "'u expr \<Rightarrow> 'u expr" where
  "NotExpr_create e = (case e of ConstantExpr w v \<Rightarrow> ConstantExpr w (ap_Not w v) | _ \<Rightarrow> NotExpr e)"

definition ZExtExpr_create :: "('u expr \<Rightarrow> nat \<Rightarrow> nat \<Rightarrow> 'u expr option) \<Rightarrow> 'u expr \<Rightarrow> nat \<Rightarrow> 'u expr option" where
  "ZExtExpr_create recE e w =
     (if w = getWidth e then Some e
      else if w < getWidth e then recE e 0 w
      else (case e of
          ConstantExpr w' v \<Rightarrow> Some (ConstantExpr w (ap_ZExt w v))
        | ZExtExpr src w' \<Rightarrow> Some (ZExtExpr src w)
        | _ \<Rightarrow> Some (ZExtExpr e w)))"

definition SExtExpr_create :: "('u expr \<Rightarrow> nat \<Rightarrow> nat \<Rightarrow> 'u expr option) \<Rightarrow> 'u expr \<Rightarrow> nat \<Rightarrow> 'u expr option" where
  "SExtExpr_create recE e w =
     (if w = getWidth e then Some e
      else if w < getWidth e then recE e 0 w
      else (case e of
          ConstantExpr w' v \<Rightarrow> Some (ConstantExpr w (ap_SExt w' w v))
        | _ \<Rightarrow> Some (SExtExpr e w)))"

text \<open>In the last case for a concatenation the unsigned expression \<^verbatim>\<open>w - width(right) + off\<close> is
  \<^verbatim>\<open>w + off - width(right)\<close>, which is not negative.\<close>

definition ExtractExpr_body ::
  "('u expr \<Rightarrow> 'u expr \<Rightarrow> 'u expr option) \<Rightarrow> ('u expr \<Rightarrow> nat \<Rightarrow> nat \<Rightarrow> 'u expr option) \<Rightarrow> 'u expr \<Rightarrow> nat \<Rightarrow> nat \<Rightarrow> 'u expr option" where
  "ExtractExpr_body recC recE e off w =
     (if \<not> (w > 0 \<and> off + w \<le> getWidth e) then None
      else if w = getWidth e then Some e
      else (case e of
          ConstantExpr kw c \<Rightarrow> Some (ConstantExpr w (ap_Extract kw off w c))
        | ConcatExpr l r \<Rightarrow>
            if off \<ge> getWidth r then recE l (off - getWidth r) w
            else if off + w \<le> getWidth r then recE r off w
            else do {
              x \<leftarrow> recE l 0 (w + off - getWidth r);
              y \<leftarrow> recE r off (getWidth r - off);
              recC x y
            }
        | ZExtExpr src w' \<Rightarrow>
            if off = 0 \<and> w = getWidth src then Some src
            else if off \<ge> getWidth src then Some (ConstantExpr w 0)
            else Some (ExtractExpr e off w)
        | _ \<Rightarrow> Some (ExtractExpr e off w)))"

definition ConcatExpr_body ::
  "('u expr \<Rightarrow> 'u expr \<Rightarrow> 'u expr option) \<Rightarrow> ('u expr \<Rightarrow> nat \<Rightarrow> nat \<Rightarrow> 'u expr option) \<Rightarrow> 'u expr \<Rightarrow> 'u expr \<Rightarrow> 'u expr option" where
  "ConcatExpr_body recC recE l r =
     (let w = getWidth l + getWidth r in
      case l of
        ConcatExpr a b \<Rightarrow> do { x \<leftarrow> recC b r; recC a x }
      | ConstantExpr wl a \<Rightarrow>
          (case r of
             ConstantExpr wr b \<Rightarrow> Some (ConstantExpr w (ap_Concat wr a b))
           | _ \<Rightarrow> if a = 0 then ZExtExpr_create recE r w else Some (ConcatExpr l r))
      | ExtractExpr e lo lw \<Rightarrow>
          (case r of
             ExtractExpr e' ro rw \<Rightarrow> if e = e' \<and> ro + rw = lo then recE e ro w else Some (ConcatExpr l r)
           | _ \<Rightarrow> Some (ConcatExpr l r))
      | SelectExpr c t f \<Rightarrow>
          (case r of
             SelectExpr c' t' f' \<Rightarrow>
               if c = c' then do { x \<leftarrow> recC t t'; y \<leftarrow> recC f f'; SelectExpr_create c x y } else Some (ConcatExpr l r)
           | _ \<Rightarrow> Some (ConcatExpr l r))
      | _ \<Rightarrow> Some (ConcatExpr l r))"

primrec bits ::
  "nat \<Rightarrow> ('u expr \<Rightarrow> 'u expr \<Rightarrow> 'u expr option) \<times> ('u expr \<Rightarrow> nat \<Rightarrow> nat \<Rightarrow> 'u expr option)" where
  "bits 0 = (\<lambda>l r. None, \<lambda>e off w. None)"
| "bits (Suc n) = (ConcatExpr_body (fst (bits n)) (snd (bits n)), ExtractExpr_body (fst (bits n)) (snd (bits n)))"

subsection \<open>Selections\<close>

definition refines :: "'u expr \<Rightarrow> 'u expr \<Rightarrow> nat \<Rightarrow> bool" where
  "refines e0 e w \<longleftrightarrow> wfe e \<and> getWidth e = w \<and> (\<forall>rd q v. eval rd q e0 = Some v \<longrightarrow> eval rd q e = Some v)"

lemma mk_total:
  assumes "typed k l r" "div_ok k l r"
  obtains e where "mk k l r = Some e" "implements k l r e"
proof -
  obtain e where e: "mk k l r = Some e"
    using create_n.rec_total [OF assms, of "Suc (calls k l r)"] by (auto simp: mk_def simp del: create.simps)
  then show ?thesis using that create_n.rec_sound [OF _ assms(1)] unfolding mk_def by blast
qed

lemma mk_isZero:
  assumes "wfe e"
  obtains z where "createIsZero mk e = Some z" "implements Eq e (ConstantExpr (getWidth e) 0) z"
  using mk_total [of Eq e "ConstantExpr (getWidth e) 0"] assms wfe_width [of e]
  by (auto simp: createIsZero_def typed_def div_ok_def)

lemma refinesI:
  assumes "wfe e" "getWidth e = w" "\<And>rd q v. eval rd q e0 = Some v \<Longrightarrow> eval rd q e = Some v"
  shows "refines e0 e w"
  using assms by (auto simp: refines_def)

lemma refinesD: "refines e0 e w \<Longrightarrow> wfe e" "refines e0 e w \<Longrightarrow> getWidth e = w"
  "refines e0 e w \<Longrightarrow> eval rd q e0 \<noteq> None \<Longrightarrow> eval rd q e = eval rd q e0"
  by (auto simp: refines_def)

lemma refines_alloc: "wfe e \<Longrightarrow> getWidth e = w \<Longrightarrow> refines e e w"
  by (simp add: refines_def)

lemma eval_SelectE:
  assumes "eval rd q (SelectExpr c t f) = Some u"
  obtains a x y where "eval rd q c = Some a" "eval rd q t = Some x" "eval rd q f = Some y" "u = (if a = 1 then x else y)"
  using assms unfolding eval.simps by (elim bind_eq_SomeE) simp

text \<open>A selection between truth values is a disjunction or a conjunction.\<close>

lemma select_bool:
  assumes "wfe c" "getWidth c = 1" "wfe x" "getWidth x = 1" "k = And \<or> k = Or" "wfe e0" "getWidth e0 = 1"
    "\<And>rd q v. eval rd q e0 = Some v \<Longrightarrow> \<exists>a b. eval rd q c = Some a \<and> eval rd q x = Some b \<and>
      ap_op k 1 a b = Some v"
  obtains e where "mk k c x = Some e" "refines e0 e 1"
proof -
  have "typed k c x" "div_ok k c x" using assms by (auto simp: typed_def div_ok_def)
  then obtain e where e: "mk k c x = Some e" "implements k c x e" by (rule mk_total)
  have "eval rd q e = Some v" if "eval rd q e0 = Some v" for rd q v
    using assms(8) [OF that] assms(2) by (auto simp: implements_eval [OF e(2)])
  then show ?thesis using that e(1) implements_wfe [OF e(2)] assms(2,5) by (auto simp: refines_def op_width_def)
qed

lemma select_bool_not:
  assumes "wfe c" "getWidth c = 1" "wfe x" "getWidth x = 1" "k = And \<or> k = Or" "wfe e0" "getWidth e0 = 1"
    "\<And>rd q v. eval rd q e0 = Some v \<Longrightarrow> \<exists>a b. eval rd q c = Some a \<and> eval rd q x = Some b \<and>
      ap_op k 1 (of_bool (a = 0)) b = Some v"
  obtains z e where "createIsZero mk c = Some z" "mk k z x = Some e" "refines e0 e 1"
proof -
  obtain z where z: "createIsZero mk c = Some z" "implements Eq c (ConstantExpr (getWidth c) 0) z"
    using mk_isZero [OF assms(1)] .
  have val: "\<exists>a b. eval rd q z = Some a \<and> eval rd q x = Some b \<and> ap_op k 1 a b = Some v" if "eval rd q e0 = Some v" for rd q v
    using assms(8) [OF that] by (auto simp: implements_eval [OF z(2)])
  obtain e where "mk k z x = Some e" "refines e0 e 1"
    by (rule select_bool [OF _ _ assms(3-7) val]) (use implements_wfe [OF z(2)] in \<open>auto simp: op_width_def\<close>)
  then show ?thesis using that z(1) by blast
qed

lemma SelectExpr_create_correct:
  assumes "wfe c" "wfe t" "wfe f" "getWidth c = 1" "getWidth t = getWidth f"
  shows "\<exists>e. SelectExpr_create c t f = Some e \<and> refines (SelectExpr c t f) e (getWidth t)"
proof -
  have w: "wfe (SelectExpr c t f)" using assms by simp
  have bool: "a = 0 \<or> a = 1" if "eval rd q c = Some a" for rd q a using eval_bool assms(1,4) that by blast
  consider (c) w v where "c = ConstantExpr w v" | (same) "\<not> is_const c" "t = f" | (wide) "\<not> is_const c" "t \<noteq> f" "getWidth t \<noteq> 1"
    | (t) w v where "\<not> is_const c" "t \<noteq> f" "getWidth t = 1" "t = ConstantExpr w v"
    | (f) w v where "\<not> is_const c" "t \<noteq> f" "getWidth t = 1" "\<not> is_const t" "f = ConstantExpr w v"
    | (none) "\<not> is_const c" "t \<noteq> f" "getWidth t = 1" "\<not> is_const t" "\<not> is_const f"
    by (metis is_const_iff)
  then show ?thesis
  proof cases
    case c
    then show ?thesis using assms by (auto simp: SelectExpr_create_def refines_def)
  next
    case same
    then show ?thesis using assms by (auto simp: SelectExpr_create_def refines_def)
  next
    case wide
    then show ?thesis using assms refines_alloc [OF w] by (auto simp: SelectExpr_create_def)
  next
    case none
    then show ?thesis using assms refines_alloc [OF w] by (auto simp: SelectExpr_create_def)
  next
    case t
    have v: "v = 0 \<or> v = 1" "w = 1" using eval_bool [OF assms(2) t(3)] t(3,4) by auto
    have val: "\<exists>a b. eval rd q c = Some a \<and> eval rd q f = Some b \<and>
        (if v = 1 then ap_op Or 1 a b else ap_op And 1 (of_bool (a = 0)) b) = Some u" if e: "eval rd q (SelectExpr c t f) = Some u" for rd q u
    proof -
      obtain a b where ab: "eval rd q c = Some a" "eval rd q f = Some b" "u = (if a = 1 then v else b)" using eval_SelectE [OF e] t(4) by (metis eval.simps(1) option.inject)
      have "b = 0 \<or> b = 1" using eval_bool [OF assms(3) _ ab(2)] assms(5) t(3) by simp
      with bool [OF ab(1)] v(1) show ?thesis by (elim disjE) (use ab in simp_all)
    qed
    show ?thesis
    proof (cases "v = 1")
      case True
      obtain e where "mk Or c f = Some e" "refines (SelectExpr c t f) e 1"
        by (rule select_bool [of c f Or "SelectExpr c t f"]) (use assms t(3) val True in auto)
      then show ?thesis using t v True assms by (auto simp: SelectExpr_create_def)
    next
      case False
      obtain z e where "createIsZero mk c = Some z" "mk And z f = Some e" "refines (SelectExpr c t f) e 1"
        by (rule select_bool_not [of c f And "SelectExpr c t f"]) (use assms t(3) val False in auto)
      then show ?thesis using t v False assms by (auto simp: SelectExpr_create_def)
    qed
  next
    case f
    have v: "v = 0 \<or> v = 1" "w = 1" using eval_bool [OF assms(3)] assms(5) f(3,5) by auto
    have val: "\<exists>a b. eval rd q c = Some a \<and> eval rd q t = Some b \<and>
        (if v = 1 then ap_op Or 1 (of_bool (a = 0)) b else ap_op And 1 a b) = Some u" if e: "eval rd q (SelectExpr c t f) = Some u" for rd q u
    proof -
      obtain a b where ab: "eval rd q c = Some a" "eval rd q t = Some b" "u = (if a = 1 then b else v)" using eval_SelectE [OF e] f(5) by (metis eval.simps(1) option.inject)
      have "b = 0 \<or> b = 1" using eval_bool [OF assms(2) f(3) ab(2)] .
      with bool [OF ab(1)] v(1) show ?thesis by (elim disjE) (use ab in simp_all)
    qed
    show ?thesis
    proof (cases "v = 1")
      case True
      obtain z e where "createIsZero mk c = Some z" "mk Or z t = Some e" "refines (SelectExpr c t f) e 1"
        by (rule select_bool_not [of c t Or "SelectExpr c t f"]) (use assms f(3) val True in auto)
      then show ?thesis using f v True assms by (auto simp: SelectExpr_create_def)
    next
      case False
      obtain e where "mk And c t = Some e" "refines (SelectExpr c t f) e 1"
        by (rule select_bool [of c t And "SelectExpr c t f"]) (use assms f(3) val False in auto)
      then show ?thesis using f v False assms by (auto simp: SelectExpr_create_def)
    qed
  qed
qed

lemma SelectExpr_create_size:
  "SelectExpr_create c t f = Some e \<Longrightarrow> getWidth t \<noteq> 1 \<Longrightarrow> getSize e \<le> 1 + getSize c + getSize t + getSize f"
  by (cases "is_const c") (auto simp: SelectExpr_create_def is_const_iff split: if_splits)

subsection \<open>Bits of a concatenation\<close>

lemma concat_bits:
  assumes "fits wr b"
  shows "push_bit wr a + b = push_bit wr a OR b"
proof -
  have "push_bit wr a AND b = 0" using assms by (auto intro!: bit_eqI simp: bit_simps dest: fits_bit)
  then show ?thesis by (simp add: disjunctive_add_eq_or)
qed

lemma fits_no_bit: "fits w v \<Longrightarrow> w \<le> n \<Longrightarrow> \<not> bit v n"
  using fits_bit by fastforce

lemma extract_left:
  assumes "fits wr b" "wr \<le> off"
  shows "take_bit w (drop_bit off (push_bit wr a + b)) = take_bit w (drop_bit (off - wr) a)"
  unfolding concat_bits [OF assms(1)] using assms by (intro bit_eqI) (auto simp: bit_simps fits_no_bit)

lemma extract_right:
  assumes "fits wr b" "off + w \<le> wr"
  shows "take_bit w (drop_bit off (push_bit wr a + b)) = take_bit w (drop_bit off b)"
  unfolding concat_bits [OF assms(1)] using assms(2) by (intro bit_eqI) (auto simp: bit_simps)

lemma extract_split:
  assumes "fits wr b" "off < wr" "wr < off + w"
  shows "take_bit w (drop_bit off (push_bit wr a + b)) =
    push_bit (wr - off) (take_bit (w + off - wr) a) + take_bit (wr - off) (drop_bit off b)"
proof -
  have f: "fits (wr - off) (take_bit (wr - off) (drop_bit off b))" by simp
  show ?thesis unfolding concat_bits [OF assms(1)] concat_bits [OF f]
  proof (rule bit_eqI)
    fix n
    show "bit (take_bit w (drop_bit off (push_bit wr a OR b))) n =
      bit (push_bit (wr - off) (take_bit (w + off - wr) a) OR take_bit (wr - off) (drop_bit off b)) n"
    proof (cases "n < wr - off")
      case True
      then show ?thesis using assms by (auto simp: bit_simps)
    next
      case False
      then have "n - (wr - off) = off + n - wr" using assms(2) by simp
      then show ?thesis using assms False by (auto simp: bit_simps fits_no_bit)
    qed
  qed
qed

lemma extract_merge:
  "push_bit rw (take_bit lw (drop_bit (ro + rw) a)) + take_bit rw (drop_bit ro a) = take_bit (lw + rw) (drop_bit ro a)" for a :: int
proof -
  have f: "fits rw (take_bit rw (drop_bit ro a))" by simp
  show ?thesis unfolding concat_bits [OF f]
  proof (rule bit_eqI)
    fix n
    show "bit (push_bit rw (take_bit lw (drop_bit (ro + rw) a)) OR take_bit rw (drop_bit ro a)) n = bit (take_bit (lw + rw) (drop_bit ro a)) n"
      by (cases "n < rw") (auto simp: bit_simps)
  qed
qed

lemma ap_Extract_eval:
  assumes "off + w \<le> kw" "0 < kw"
  shows "ap_Extract kw off w c = take_bit w (drop_bit off c)"
proof (rule bit_eqI)
  fix n
  have "min (kw - 1) (off + n) = off + n" if "n < w" using assms that by simp
  then show "bit (ap_Extract kw off w c) n = bit (take_bit w (drop_bit off c)) n"
    by (auto simp: ap_Extract_def as_signed_def bit_simps)
qed

lemma zext_extract: "fits k v \<Longrightarrow> k \<le> off \<Longrightarrow> take_bit w (drop_bit off v) = 0"
  by (rule bit_eqI) (auto simp: bit_simps fits_no_bit)

subsection \<open>Concatenation and extraction\<close>

locale sound_bits =
  fixes recC :: "'u expr \<Rightarrow> 'u expr \<Rightarrow> 'u expr option" and recE :: "'u expr \<Rightarrow> nat \<Rightarrow> nat \<Rightarrow> 'u expr option"
  assumes recC: "recC l r = Some e \<Longrightarrow> wfe l \<Longrightarrow> wfe r \<Longrightarrow>
      refines (ConcatExpr l r) e (getWidth l + getWidth r) \<and> getSize e \<le> 1 + getSize l + getSize r"
    and recE: "recE e off w = Some x \<Longrightarrow> wfe e \<Longrightarrow> refines (ExtractExpr e off w) x w \<and> getSize x \<le> 2 * getSize e"
begin

lemma ExtractExpr_body_sound:
  assumes "ExtractExpr_body recC recE e off w = Some x" "wfe e"
  shows "refines (ExtractExpr e off w) x w \<and> getSize x \<le> 2 * getSize e"
proof -
  have g: "0 < w" "off + w \<le> getWidth e" using assms(1) by (auto simp: ExtractExpr_body_def split: if_splits)
  show ?thesis
  proof (cases "w = getWidth e")
    case True
    then show ?thesis using assms g eval_fits [OF assms(2)] by (auto simp: ExtractExpr_body_def refines_def)
  next
    case w: False
    have alloc: ?thesis if "x = ExtractExpr e off w" "case e of ConcatExpr _ _ \<Rightarrow> False | _ \<Rightarrow> True"
      using that assms(2) g refines_alloc [of "ExtractExpr e off w"] getSize_Suc [of e] by auto
    show ?thesis
    proof (cases e)
      case (ConstantExpr kw c)
      then show ?thesis using assms g w by (auto simp: ExtractExpr_body_def refines_def ap_Extract_eval)
    next
      case (ZExtExpr src k)
      consider "off = 0" "w = getWidth src" "x = src" | "off \<ge> getWidth src" "x = ConstantExpr w 0" | "x = ExtractExpr e off w"
        using assms(1) ZExtExpr g w by (auto simp: ExtractExpr_body_def split: if_splits)
      then show ?thesis
      proof cases
        case 1
        then show ?thesis using assms(2) ZExtExpr eval_fits [of src] by (auto simp: refines_def)
      next
        case 2
        then show ?thesis using assms(2) ZExtExpr g eval_fits [of src] zext_extract by (fastforce simp: refines_def)
      next
        case 3
        then show ?thesis using alloc ZExtExpr by simp
      qed
    next
      case (ConcatExpr l r)
      have lr: "wfe l" "wfe r" using assms(2) ConcatExpr by auto
      have fr: "fits (getWidth r) b" if "eval rd q r = Some b" for rd q b using eval_fits lr(2) that by blast
      consider (left) "off \<ge> getWidth r" "recE l (off - getWidth r) w = Some x"
        | (right) "off < getWidth r" "off + w \<le> getWidth r" "recE r off w = Some x"
        | (split) y z where "off < getWidth r" "getWidth r < off + w" "recE l 0 (w + off - getWidth r) = Some y"
            "recE r off (getWidth r - off) = Some z" "recC y z = Some x"
        using assms(1) ConcatExpr g w by (auto simp: ExtractExpr_body_def split: if_splits)
      then show ?thesis
      proof cases
        case left
        then show ?thesis using recE [OF left(2) lr(1)] ConcatExpr fr extract_left by (fastforce simp: refines_def)
      next
        case right
        then show ?thesis using recE [OF right(3) lr(2)] ConcatExpr fr extract_right by (fastforce simp: refines_def)
      next
        case split
        note y = recE [OF split(3) lr(1)] and z = recE [OF split(4) lr(2)]
        note x = recC [OF split(5) refinesD(1) [OF conjunct1 [OF y]] refinesD(1) [OF conjunct1 [OF z]]]
        have "eval rd q x = Some v" if v: "eval rd q (ExtractExpr e off w) = Some v" for rd q v
        proof -
          obtain a b where ab: "eval rd q l = Some a" "eval rd q r = Some b" "v = take_bit w (drop_bit off (push_bit (getWidth r) a + b))"
            using v ConcatExpr by auto
          show ?thesis
            using ab extract_split [OF fr [OF ab(2)] split(1,2), of a]
            by (simp add: refinesD(3) [OF conjunct1 [OF x]] refinesD(3) [OF conjunct1 [OF y]] refinesD(3) [OF conjunct1 [OF z]]
                refinesD(2) [OF conjunct1 [OF z]])
        qed
        moreover have "getWidth x = w" using x y z split by (auto simp: refines_def)
        ultimately show ?thesis using x y z ConcatExpr by (auto simp: refines_def)
      qed
    qed (use assms(1) g w alloc in \<open>auto simp: ExtractExpr_body_def\<close>)
  qed
qed

lemma ZExtExpr_create_sound:
  assumes "ZExtExpr_create recE e w = Some x" "wfe e" "getWidth e \<le> w"
  shows "refines (ZExtExpr e w) x w \<and> getSize x \<le> 1 + getSize e"
proof (cases "w = getWidth e")
  case False
  show ?thesis
  proof (cases e)
    case (ConstantExpr k c)
    then show ?thesis using assms False fits_mono by (auto simp: ZExtExpr_create_def refines_def ap_ZExt_def)
  next
    case (ZExtExpr src k)
    then show ?thesis using assms False by (auto simp: ZExtExpr_create_def refines_def)
  qed (use assms False in \<open>auto simp: ZExtExpr_create_def refines_def\<close>)
qed (use assms in \<open>auto simp: ZExtExpr_create_def refines_def\<close>)

lemma ConcatExpr_body_sound:
  assumes "ConcatExpr_body recC recE l r = Some e" "wfe l" "wfe r"
  shows "refines (ConcatExpr l r) e (getWidth l + getWidth r) \<and> getSize e \<le> 1 + getSize l + getSize r"
proof -
  have alloc: ?thesis if "e = ConcatExpr l r" using that assms(2,3) refines_alloc [of "ConcatExpr l r"] by auto
  have fr: "fits (getWidth r) b" if "eval rd q r = Some b" for rd q b using eval_fits assms(3) that by blast
  note def = ConcatExpr_body_def Let_def
  show ?thesis
  proof (cases l)
    case (ConcatExpr a b)
    then obtain x where x: "recC b r = Some x" "recC a x = Some e" using assms(1) by (auto simp: def)
    have ab: "wfe a" "wfe b" using assms(2) ConcatExpr by auto
    note rx = recC [OF x(1) ab(2) assms(3)]
    note re = recC [OF x(2) ab(1) refinesD(1) [OF conjunct1 [OF rx]]]
    have "eval rd q e = Some v" if v: "eval rd q (ConcatExpr l r) = Some v" for rd q v
    proof -
      obtain p q' s where o: "eval rd q a = Some p" "eval rd q b = Some q'" "eval rd q r = Some s"
        "v = push_bit (getWidth r) (push_bit (getWidth b) p + q') + s" using v ConcatExpr by auto
      then show ?thesis
        by (simp add: refinesD(3) [OF conjunct1 [OF rx]] refinesD(3) [OF conjunct1 [OF re]] refinesD(2) [OF conjunct1 [OF rx]]
            push_bit_eq_mult power_add algebra_simps)
    qed
    then show ?thesis using rx re ConcatExpr by (auto simp: refines_def)
  next
    case (ConstantExpr wl a)
    show ?thesis
    proof (cases "is_const r")
      case True
      then obtain wr b where r: "r = ConstantExpr wr b" by (auto simp: is_const_iff)
      have "wfe (ConcatExpr l r)" using assms(2,3) by simp
      from eval_fits [OF this] have "fits (wl + wr) (push_bit wr a + b)" using r ConstantExpr by simp
      then show ?thesis
        using assms r ConstantExpr concat_bits [of wr b a] by (auto simp: def ap_Concat_def refines_def)
    next
      case False
      show ?thesis
      proof (cases "a = 0")
        case True
        then have "ZExtExpr_create recE r (wl + getWidth r) = Some e" using assms(1) ConstantExpr False by (auto simp: def)
        from ZExtExpr_create_sound [OF this assms(3)] show ?thesis using True ConstantExpr by (auto simp: refines_def)
      next
        case a: False
        then show ?thesis using assms(1) ConstantExpr False alloc by (auto simp: def)
      qed
    qed
  next
    case (ExtractExpr b lo lw)
    show ?thesis
    proof (cases "\<exists>ro rw. r = ExtractExpr b ro rw \<and> ro + rw = lo")
      case True
      then obtain ro rw where r: "r = ExtractExpr b ro rw" "lo = ro + rw" by auto
      then have e: "recE b ro (lw + rw) = Some e" using assms(1) ExtractExpr by (auto simp: def)
      have "wfe b" using assms(2) ExtractExpr by simp
      from recE [OF e this] show ?thesis using r ExtractExpr extract_merge [of rw lw ro] by (auto simp: refines_def)
    next
      case False
      then show ?thesis using assms(1) ExtractExpr alloc by (cases r) (auto simp: def split: if_splits)
    qed
  next
    case (SelectExpr c t f)
    show ?thesis
    proof (cases "\<exists>t' f'. r = SelectExpr c t' f'")
      case True
      then obtain t' f' where r: "r = SelectExpr c t' f'" by auto
      then obtain x y where x: "recC t t' = Some x" "recC f f' = Some y" "SelectExpr_create c x y = Some e"
        using assms(1) SelectExpr by (auto simp: def)
      have w: "wfe c" "wfe t" "wfe f" "wfe t'" "wfe f'" "getWidth c = 1" "getWidth t = getWidth f" "getWidth t' = getWidth f'"
        using assms(2,3) SelectExpr r by auto
      note rx = recC [OF x(1) w(2,4)] and ry = recC [OF x(2) w(3,5)]
      have xy: "wfe x" "wfe y" "getWidth x = getWidth t + getWidth t'" "getWidth y = getWidth x" using rx ry w by (auto simp: refines_def)
      obtain e' where e': "SelectExpr_create c x y = Some e'" "refines (SelectExpr c x y) e' (getWidth x)"
        using SelectExpr_create_correct [OF w(1) xy(1,2) w(6)] xy(4) by auto
      have "getWidth x \<noteq> 1" using xy(3) wfe_width [OF w(2)] wfe_width [OF w(4)] by simp
      from SelectExpr_create_size [OF x(3) this] have sz: "getSize e \<le> 1 + getSize l + getSize r"
        using rx ry SelectExpr r getSize_Suc [of c] by auto
      have "eval rd q e = Some v" if v: "eval rd q (ConcatExpr l r) = Some v" for rd q v
      proof -
        obtain a b where ab: "eval rd q l = Some a" "eval rd q r = Some b" "v = push_bit (getWidth r) a + b" using v by auto
        obtain k p s where p: "eval rd q c = Some k" "eval rd q t = Some p" "eval rd q f = Some s" "a = (if k = 1 then p else s)"
          by (rule eval_SelectE [OF ab(1) [unfolded SelectExpr]])
        obtain p' s' where p': "eval rd q t' = Some p'" "eval rd q f' = Some s'" "b = (if k = 1 then p' else s')"
          using p(1) by (auto intro: eval_SelectE [OF ab(2) [unfolded r]])
        show ?thesis
          using ab p p' e' x(3) w r
          by (simp add: refinesD(3) [OF conjunct1 [OF rx]] refinesD(3) [OF conjunct1 [OF ry]] refinesD(3) [OF e'(2)])
      qed
      moreover have "wfe e" "getWidth e = getWidth l + getWidth r" using e' x(3) xy SelectExpr r by (auto simp: refines_def)
      ultimately show ?thesis using sz by (simp add: refines_def)
    next
      case False
      then show ?thesis using assms(1) SelectExpr alloc by (cases r) (auto simp: def split: if_splits)
    qed
  qed (use assms(1) alloc in \<open>auto simp: def\<close>)
qed

end

lemma bits_sound: "sound_bits (fst (bits n) :: 'u expr \<Rightarrow> _) (snd (bits n))"
proof (induction n)
  case 0
  then show ?case by unfold_locales simp_all
next
  case (Suc n)
  then show ?case
    using sound_bits.ConcatExpr_body_sound sound_bits.ExtractExpr_body_sound by (intro sound_bits.intro) (simp_all, blast+)
qed

interpretation bits_n: sound_bits "fst (bits n)" "snd (bits n)" for n
  by (rule bits_sound)

subsection \<open>Termination\<close>

definition extract_calls :: "'u expr \<Rightarrow> nat" where
  "extract_calls e = (case e of ConcatExpr l r \<Rightarrow> 2 * getSize e + 1 | _ \<Rightarrow> 1)"

lemma extract_calls_le: "extract_calls e \<le> 2 * getSize e + 1"
  by (simp add: extract_calls_def split: expr.split)

locale total_bits = sound_bits recC recE
  for recC :: "'u expr \<Rightarrow> 'u expr \<Rightarrow> 'u expr option" and recE :: "'u expr \<Rightarrow> nat \<Rightarrow> nat \<Rightarrow> 'u expr option" +
  fixes M :: nat
  assumes totC: "wfe l \<Longrightarrow> wfe r \<Longrightarrow> getSize l + 1 \<le> M \<Longrightarrow> \<exists>e. recC l r = Some e"
    and totE: "wfe e \<Longrightarrow> 0 < w \<Longrightarrow> off + w \<le> getWidth e \<Longrightarrow> extract_calls e \<le> M \<Longrightarrow> \<exists>x. recE e off w = Some x"
begin

lemma ExtractExpr_body_total:
  assumes "wfe e" "0 < w" "off + w \<le> getWidth e" "extract_calls e \<le> Suc M"
  shows "\<exists>x. ExtractExpr_body recC recE e off w = Some x"
proof (cases e)
  case (ConcatExpr l r)
  have lr: "wfe l" "wfe r" "extract_calls l \<le> M" "extract_calls r \<le> M" "2 * getSize l + 1 \<le> M"
    using assms(1,4) ConcatExpr extract_calls_le [of l] extract_calls_le [of r] by (auto simp: extract_calls_def)
  have w: "getWidth e = getWidth l + getWidth r" using ConcatExpr by simp
  consider "w = getWidth e" | "w \<noteq> getWidth e" "off \<ge> getWidth r" | "w \<noteq> getWidth e" "off + w \<le> getWidth r"
    | "w \<noteq> getWidth e" "\<not> off \<ge> getWidth r" "\<not> off + w \<le> getWidth r" by auto
  then show ?thesis
  proof cases
    case 2
    then show ?thesis using totE [OF lr(1) assms(2) _ lr(3), of "off - getWidth r"] assms(2,3) w ConcatExpr by (simp add: ExtractExpr_body_def)
  next
    case 3
    then show ?thesis using totE [OF lr(2) assms(2) _ lr(4), of off] assms(2,3) w ConcatExpr by (simp add: ExtractExpr_body_def)
  next
    case 4
    then have "\<exists>x. recE l 0 (w + off - getWidth r) = Some x" "\<exists>y. recE r off (getWidth r - off) = Some y"
      using totE [OF lr(1) _ _ lr(3), of "w + off - getWidth r" 0] totE [OF lr(2) _ _ lr(4), of "getWidth r - off" off] assms(3) w by simp_all
    then obtain x y where xy: "recE l 0 (w + off - getWidth r) = Some x" "recE r off (getWidth r - off) = Some y" by auto
    note rx = recE [OF xy(1) lr(1)] and ry = recE [OF xy(2) lr(2)]
    have "\<exists>z. recC x y = Some z"
      using totC [OF refinesD(1) [OF conjunct1 [OF rx]] refinesD(1) [OF conjunct1 [OF ry]]] rx lr(5) by simp
    then show ?thesis using xy 4 assms(2,3) w ConcatExpr by (simp add: ExtractExpr_body_def)
  qed (use assms in \<open>simp add: ExtractExpr_body_def\<close>)
qed (use assms(2,3) in \<open>auto simp: ExtractExpr_body_def\<close>)

lemma ConcatExpr_body_total:
  assumes "wfe l" "wfe r" "getSize l + 1 \<le> Suc M"
  shows "\<exists>e. ConcatExpr_body recC recE l r = Some e"
proof (cases l)
  case (ConcatExpr a b)
  have ab: "wfe a" "wfe b" "getSize a + 1 \<le> M" "getSize b + 1 \<le> M" using assms ConcatExpr by auto
  obtain x where x: "recC b r = Some x" using totC [OF ab(2) assms(2) ab(4)] by auto
  have "\<exists>e. recC a x = Some e" using totC [OF ab(1) _ ab(3)] recC [OF x ab(2) assms(2)] by (simp add: refines_def)
  then show ?thesis using x ConcatExpr by (simp add: ConcatExpr_body_def)
next
  case (ConstantExpr wl a)
  then show ?thesis using wfe_width [OF assms(1)] by (cases r) (simp_all add: ConcatExpr_body_def ZExtExpr_create_def)
next
  case (ExtractExpr b lo lw)
  have b: "wfe b" "extract_calls b \<le> M" "0 < lw" "lo + lw \<le> getWidth b"
    using assms(1,3) ExtractExpr getSize_Suc [of b] by (auto simp: extract_calls_def split: expr.splits)
  have "\<exists>e. recE b ro (lw + rw) = Some e" if "ro + rw = lo" for ro rw using totE [OF b(1) _ _ b(2)] b(3,4) that by simp
  then show ?thesis using ExtractExpr by (cases r) (auto simp: ConcatExpr_body_def Let_def)
next
  case (SelectExpr c t f)
  show ?thesis
  proof (cases "\<exists>t' f'. r = SelectExpr c t' f'")
    case True
    then obtain t' f' where r: "r = SelectExpr c t' f'" by auto
    have w: "wfe c" "wfe t" "wfe f" "wfe t'" "wfe f'" "getWidth c = 1" "getWidth t = getWidth f" "getWidth t' = getWidth f'"
        "getSize t + 1 \<le> M" "getSize f + 1 \<le> M"
      using assms SelectExpr r by auto
    obtain x y where xy: "recC t t' = Some x" "recC f f' = Some y" using totC w by blast
    note rx = recC [OF xy(1) w(2,4)] and ry = recC [OF xy(2) w(3,5)]
    have "\<exists>e. SelectExpr_create c x y = Some e"
      using SelectExpr_create_correct [of c x y] rx ry w by (auto simp: refines_def)
    then show ?thesis using xy r SelectExpr by (simp add: ConcatExpr_body_def)
  next
    case False
    then show ?thesis using SelectExpr by (cases r) (auto simp: ConcatExpr_body_def)
  qed
qed (simp_all add: ConcatExpr_body_def)

end

lemma bits_total: "total_bits (fst (bits n) :: 'u expr \<Rightarrow> _) (snd (bits n)) n"
proof (induction n)
  case 0
  have "\<not> extract_calls e \<le> 0" for e :: "'u expr" by (simp add: extract_calls_def split: expr.split)
  then show ?case by unfold_locales (simp_all del: le_zero_eq)
next
  case (Suc n)
  then show ?case
    using total_bits.ConcatExpr_body_total total_bits.ExtractExpr_body_total bits_sound [of "Suc n"]
    by (intro total_bits.intro total_bits_axioms.intro) (simp_all, blast+)
qed

interpretation bits_n: total_bits "fst (bits n)" "snd (bits n)" n for n
  by (rule bits_total)

subsection \<open>The constructors are total and preserve the value\<close>

lemma refines_Not:
  assumes "wfe e"
  shows "refines (NotExpr e) (NotExpr_create e) (getWidth e)"
proof (cases e)
  case (ConstantExpr w c)
  have f: "fits w c" using assms ConstantExpr by simp
  have "take_bit w (NOT c) = mask w - c"
    using f by (simp add: take_bit_not_eq_mask_diff)
  moreover have "fits w (take_bit w (NOT c))" by simp
  ultimately show ?thesis using assms ConstantExpr by (auto simp: refines_def NotExpr_create_def ap_Not_def)
qed (use assms in \<open>auto simp: refines_def NotExpr_create_def\<close>)

lemma extract_exists:
  assumes "wfe e" "0 < w" "off + w \<le> getWidth e" "2 * getSize e < n"
  shows "\<exists>x. snd (bits n) e off w = Some x \<and> refines (ExtractExpr e off w) x w"
  using bits_n.totE [OF assms(1-3), of n] extract_calls_le [of e] assms(4) bits_n.recE [OF _ assms(1)] by force

lemma concat_exists:
  assumes "wfe l" "wfe r" "getSize l < n"
  shows "\<exists>x. fst (bits n) l r = Some x \<and> refines (ConcatExpr l r) x (getWidth l + getWidth r)"
  using bits_n.totC [OF assms(1,2), of n] assms(3) bits_n.recC [OF _ assms(1,2)] by force

lemma SExtExpr_create_wider:
  assumes "wfe e" "getWidth e < w"
  shows "\<exists>x. SExtExpr_create recE e w = Some x \<and> refines (SExtExpr e w) x w"
  using assms by (cases e) (auto simp: SExtExpr_create_def refines_def ap_SExt_def)

lemma ZExtExpr_create_wider:
  assumes "wfe e" "getWidth e < w"
  shows "\<exists>x. ZExtExpr_create recE e w = Some x \<and> refines (ZExtExpr e w) x w"
  using assms by (cases e) (auto simp: ZExtExpr_create_def refines_def ap_ZExt_def intro: fits_mono)

text \<open>C14. Concatenation and extraction, which call each other, end after a number of nested calls that
  is bounded by the sizes of the operands, without failing an assertion; the expressions returned are
  well-formed, have the width asked for, and have the value of the concatenation, respectively of
  the selected bits, wherever the operands have a value.\<close>

theorem concat_extract_correct:
  assumes "wfe l" "wfe r" "getSize l < n" and "wfe e" "0 < w" "off + w \<le> getWidth e" "2 * getSize e < n"
  shows "(\<exists>x. fst (bits n) l r = Some x \<and> refines (ConcatExpr l r) x (getWidth l + getWidth r)) \<and>
    (\<exists>x. snd (bits n) e off w = Some x \<and> refines (ExtractExpr e off w) x w)"
  using concat_exists [OF assms(1-3)] extract_exists [OF assms(4-7)] by blast

definition demo_word :: "unit expr" where
  "demo_word = ConcatExpr (ReadExpr () (ConstantExpr 32 1)) (ReadExpr () (ConstantExpr 32 0))"

theorem concat_extract_correct_witness:
  "\<exists>x y. fst (bits 20) demo_word demo_r = Some x \<and> refines (ConcatExpr demo_word demo_r) x 24 \<and>
     snd (bits 20) demo_word 4 8 = Some y \<and> refines (ExtractExpr demo_word 4 8) y 8"
proof -
  have d: "wfe demo_word" "wfe demo_r" "getSize demo_word = 5" "getWidth demo_word = 16" "getWidth demo_r = 8"
    by code_simp+
  show ?thesis using concat_extract_correct [of demo_word demo_r 20 demo_word 8 4] d by auto
qed

text \<open>The casts and the complement are total and preserve the value: to a smaller width they are the
  low bits of the operand, to the same width the operand, and to a larger width its zero or sign
  extension.\<close>

theorem casts_correct:
  assumes "wfe e" "0 < w" "2 * getSize e < n"
  shows "(\<exists>x. ZExtExpr_create (snd (bits n)) e w = Some x \<and>
      refines (if w < getWidth e then ExtractExpr e 0 w else ZExtExpr e w) x w) \<and>
    (\<exists>x. SExtExpr_create (snd (bits n)) e w = Some x \<and>
      refines (if w < getWidth e then ExtractExpr e 0 w else if w = getWidth e then e else SExtExpr e w) x w) \<and>
    refines (NotExpr e) (NotExpr_create e) (getWidth e)"
proof -
  consider "w < getWidth e" | "w = getWidth e" | "getWidth e < w" by linarith
  then show ?thesis
  proof cases
    case 1
    then show ?thesis
      using extract_exists [OF assms(1,2), of 0 n] assms refines_Not by (simp add: ZExtExpr_create_def SExtExpr_create_def)
  next
    case 2
    then show ?thesis using assms refines_Not by (auto simp: ZExtExpr_create_def SExtExpr_create_def refines_def)
  next
    case 3
    then show ?thesis
      using ZExtExpr_create_wider [OF assms(1) 3] SExtExpr_create_wider [OF assms(1) 3] refines_Not [OF assms(1)] by simp
  qed
qed

theorem casts_correct_witness:
  "\<exists>x y. ZExtExpr_create (snd (bits 20)) demo_word 8 = Some x \<and> refines (ExtractExpr demo_word 0 8) x 8 \<and>
     SExtExpr_create (snd (bits 20)) demo_word 32 = Some y \<and> refines (SExtExpr demo_word 32) y 32"
proof -
  have d: "wfe demo_word" "getSize demo_word = 5" "getWidth demo_word = 16" by code_simp+
  show ?thesis using casts_correct [of demo_word 8 20] casts_correct [of demo_word 32 20] d by auto
qed

end
