(* ===== verification/Schedule_Tree.thy ===== *)
theory Schedule_Tree
  imports Schedule_Table Expr_Bits
begin

text \<open>
  The schedule tree of a region (\<^verbatim>\<open>ScheduleTreeNode\<close> of
  \<^verbatim>\<open>lib/ICS/Instrumentor.cpp\<close>): a trie of input constraints. An edge has the terms of a
  conjunction; an edge with a fragment ends a constraint, and the node behind it belongs to the next
  selector; an edge without a fragment is a prefix shared by several constraints. A node has one
  parent, so that a reference to a node is the path of edge numbers that leads to it.
\<close>

subsection \<open>Nodes and edges\<close>

datatype ('t, 'f) stree = SNode (edges: "('t, 'f) sedge list")
  and ('t, 'f) sedge = SEdge (terms: "'t list") (schedfrag: "'f option") (nextNode: "('t, 'f) stree option")

text \<open>The first loop of \<^verbatim>\<open>addEdge\<close>. Reading \<^verbatim>\<open>terms[shared]\<close> beyond the end
  of the vector, which the loop does not exclude, is undefined.\<close>

fun count_shared :: "'t list \<Rightarrow> 't list \<Rightarrow> nat option" where
  "count_shared [] ts = Some 0"
| "count_shared (e # es) [] = None"
| "count_shared (e # es) (t # ts) = (if e \<noteq> t then Some 0 else map_option Suc (count_shared es ts))"

fun find_edge :: "'t list \<Rightarrow> ('t, 'f) sedge list \<Rightarrow> (nat \<times> nat) option option" where
  "find_edge ts [] = Some None"
| "find_edge ts (e # es) =
     (case (terms e, ts) of
        (e0 # er, t0 # tr) \<Rightarrow>
          if e0 \<noteq> t0 then map_option (map_option (\<lambda>(k, s). (Suc k, s))) (find_edge ts es)
          else map_option (\<lambda>s. Some (0, Suc s)) (count_shared er tr)
      | _ \<Rightarrow> None)"

text \<open>The second loop, which runs with the debugging option only: the first edge whose first term occurs
  in \<^verbatim>\<open>terms\<close> has its terms moved to the front, as far as they occur.\<close>

fun move_terms :: "'t list \<Rightarrow> 't list \<Rightarrow> 't list" where
  "move_terms [] ts = ts"
| "move_terms (e # es) ts = (if e \<in> set ts then e # move_terms es (remove1 e ts) else ts)"

fun sort_terms :: "('t, 'f) sedge list \<Rightarrow> 't list \<Rightarrow> 't list" where
  "sort_terms [] ts = ts"
| "sort_terms (e # es) ts =
     (if terms e \<noteq> [] \<and> hd (terms e) \<in> set ts then move_terms (terms e) ts else sort_terms es ts)"

definition or_true :: "'t \<Rightarrow> 't list \<Rightarrow> 't list" where
  "or_true tru ts = (if ts = [] then [tru] else ts)"

lemma count_shared_le: "count_shared es ts = Some s \<Longrightarrow> s \<le> length es \<and> s \<le> length ts \<and> take s es = take s ts"
  by (induction es ts arbitrary: s rule: count_shared.induct) (auto split: if_splits)

lemma find_edge_SomeD:
  assumes "find_edge ts es = Some (Some (k, s))"
  shows "k < length es \<and> 0 < s \<and> s \<le> length (terms (es ! k)) \<and> s \<le> length ts \<and> take s (terms (es ! k)) = take s ts \<and>
    count_shared (terms (es ! k)) ts = Some s"
  using assms
proof (induction es arbitrary: k)
  case (Cons e es)
  obtain e0 er t0 tr where c: "terms e = e0 # er" "ts = t0 # tr" using Cons.prems by (auto split: list.splits)
  then show ?case using Cons count_shared_le [of er tr] by (auto split: if_splits)
qed simp

lemma stree_child_smaller:
  assumes "k < length es" "nextNode (es ! k) = Some nx"
  shows "size nx < Suc (size_list size es)"
proof -
  have "size nx < size (es ! k)" using assms(2) by (cases "es ! k") simp
  also have "size (es ! k) \<le> size_list size es"
    using assms(1) by (intro size_list_estimation' [of "es ! k"]) simp_all
  finally show ?thesis by simp
qed

function addEdge :: "bool \<Rightarrow> ('f \<Rightarrow> 'f \<Rightarrow> bool option) \<Rightarrow> 't \<Rightarrow> 't list \<Rightarrow> 'f \<Rightarrow> ('t, 'f) stree \<Rightarrow> (('t, 'f) stree \<times> nat list) option" where
  "addEdge dbg feq tru ts f (SNode es) =
     (case find_edge ts es of
        None \<Rightarrow> None
      | Some None \<Rightarrow>
          Some (SNode (es @ [SEdge (if dbg then sort_terms es ts else ts) (Some f) (Some (SNode []))]), [length es])
      | Some (Some (k, shared)) \<Rightarrow>
          (case nextNode (es ! k) of
             None \<Rightarrow> None
           | Some nx \<Rightarrow>
               (case schedfrag (es ! k) of
                  Some g \<Rightarrow>
                    if shared = length ts \<and> shared = length (terms (es ! k)) then do {
                      b \<leftarrow> feq f g;
                      assert_opt b;
                      Some (SNode es, [k])
                    }
                    else Some (SNode (es[k := SEdge (take shared (terms (es ! k))) None (Some (SNode
                      [SEdge (or_true tru (drop shared ts)) (Some f) (Some (SNode [])),
                       SEdge (or_true tru (drop shared (terms (es ! k)))) (Some g) (Some nx)]))]), [k, 0])
                | None \<Rightarrow>
                    if shared = length (terms (es ! k)) then do {
                      (nx', p) \<leftarrow> addEdge dbg feq tru (or_true tru (drop shared ts)) f nx;
                      Some (SNode (es[k := SEdge (terms (es ! k)) None (Some nx')]), k # p)
                    }
                    else Some (SNode (es[k := SEdge (take shared (terms (es ! k))) None (Some (SNode
                      [SEdge (or_true tru (drop shared ts)) (Some f) (Some (SNode [])),
                       SEdge (or_true tru (drop shared (terms (es ! k)))) None (Some nx)]))]), [k, 0]))))"
  by pat_completeness auto

termination
  by (relation "measure (\<lambda>(dbg, feq, tru, ts, f, t). size t)")
    (auto dest!: find_edge_SomeD intro: stree_child_smaller)

subsection \<open>The constraints of a tree\<close>

text \<open>The fragments that one selector can pick, with their terms; the nodes behind a fragment belong to
  other selectors.\<close>

fun paths :: "('t, 'f) stree \<Rightarrow> ('t list \<times> 'f) list" and epaths :: "('t, 'f) sedge \<Rightarrow> ('t list \<times> 'f) list" where
  "paths (SNode es) = concat (map epaths es)"
| "epaths (SEdge ts (Some f) n) = [(ts, f)]"
| "epaths (SEdge ts None None) = []"
| "epaths (SEdge ts None (Some n)) = map (\<lambda>(us, f). (ts @ us, f)) (paths n)"

text \<open>The shape of a tree: edges have terms, the first terms of the edges of a node are different, and an
  edge without fragment leads to at least one edge.\<close>

fun trie :: "('t, 'f) stree \<Rightarrow> bool" and etrie :: "('t, 'f) sedge \<Rightarrow> bool" where
  "trie (SNode es) \<longleftrightarrow> distinct (map (\<lambda>e. hd (terms e)) es) \<and> (\<forall>e \<in> set es. etrie e)"
| "etrie (SEdge ts (Some f) n) \<longleftrightarrow> ts \<noteq> [] \<and> n \<noteq> None"
| "etrie (SEdge ts None None) \<longleftrightarrow> False"
| "etrie (SEdge ts None (Some n)) \<longleftrightarrow> ts \<noteq> [] \<and> edges n \<noteq> [] \<and> trie n"

text \<open>Two constraints diverge if they agree up to a term and the terms there exclude each other, like the
  branches of a program.\<close>

fun diverge :: "('t \<Rightarrow> 't \<Rightarrow> bool) \<Rightarrow> 't list \<Rightarrow> 't list \<Rightarrow> bool" where
  "diverge excl (x # xs) (y # ys) = (if x = y then diverge excl xs ys else excl x y)"
| "diverge excl _ _ = False"

lemma diverge_append [simp]: "diverge excl (as @ xs) (as @ ys) = diverge excl xs ys"
  by (induction as) auto

lemma diverge_Nil [simp]: "\<not> diverge excl xs []" "\<not> diverge excl [] xs"
  by (cases xs; simp)+

lemma diverge_prefix [simp]: "\<not> diverge excl xs (xs @ ys)" "\<not> diverge excl (xs @ ys) xs"
  using diverge_append [of excl xs "[]" ys] diverge_append [of excl xs ys "[]"] by (simp_all del: diverge_append)

lemma diverge_unsat:
  "diverge excl xs ys \<Longrightarrow> list_all P xs \<Longrightarrow> list_all P ys \<Longrightarrow> (\<And>x y. excl x y \<Longrightarrow> \<not> (P x \<and> P y)) \<Longrightarrow> False"
  by (induction excl xs ys rule: diverge.induct) (auto split: if_splits)

lemma etrie_terms:
  assumes "etrie e"
  shows "terms e \<noteq> [] \<and> (\<exists>nx. nextNode e = Some nx)"
proof (cases e)
  case (SEdge ts fr n)
  then show ?thesis using assms by (cases fr; cases n) auto
qed

lemma trie_paths_nonempty:
  fixes t :: "('t, 'f) stree" and e :: "('t, 'f) sedge"
  shows "trie t \<Longrightarrow> edges t \<noteq> [] \<Longrightarrow> paths t \<noteq> []" "etrie e \<Longrightarrow> epaths e \<noteq> []"
proof (induction t and e rule: paths_epaths.induct)
  case (1 es)
  then show ?case by (cases es) (simp_all del: epaths.simps etrie.simps)
next
  case (4 ts n)
  then show ?case by (simp del: paths.simps trie.simps)
qed simp_all

lemma epaths_prefix:
  assumes "(us, f) \<in> set (epaths e)"
  shows "\<exists>vs. us = terms e @ vs"
proof (cases e)
  case (SEdge ts fr n)
  then show ?thesis using assms by (cases fr; cases n) auto
qed

lemma trie_paths_terms: "trie t \<Longrightarrow> (us, f) \<in> set (paths t) \<Longrightarrow> us \<noteq> []"
proof (cases t)
  case (SNode es)
  assume "trie t" "(us, f) \<in> set (paths t)"
  then obtain e where e: "etrie e" "(us, f) \<in> set (epaths e)" using SNode by auto
  show ?thesis using epaths_prefix [OF e(2)] etrie_terms [OF e(1)] by auto
qed

subsection \<open>Finding an edge\<close>

lemma find_edge_none:
  "ts \<noteq> [] \<Longrightarrow> (\<forall>e \<in> set es. terms e \<noteq> [] \<and> hd (terms e) \<noteq> hd ts) \<Longrightarrow> find_edge ts es = Some None"
  by (induction es) (auto split: list.splits)

lemma find_edge_found:
  assumes "ts \<noteq> []" "\<forall>e \<in> set A. terms e \<noteq> [] \<and> hd (terms e) \<noteq> hd ts" "terms e \<noteq> []" "hd (terms e) = hd ts"
  shows "find_edge ts (A @ e # B) = map_option (\<lambda>s. Some (length A, s)) (count_shared (terms e) ts)"
  using assms(2)
proof (induction A)
  case Nil
  then show ?case using assms by (auto simp: neq_Nil_conv option.map_comp comp_def)
next
  case (Cons a A)
  then show ?case using assms(1) by (auto simp: neq_Nil_conv option.map_comp comp_def)
qed

lemma count_shared_cases:
  obtains (prefix) vs where "ts = us @ vs" "count_shared us ts = Some (length us)"
  | (short) v vs where "us = ts @ v # vs" "count_shared us ts = None"
  | (differ) ps u us' t ts' where "us = ps @ u # us'" "ts = ps @ t # ts'" "u \<noteq> t" "count_shared us ts = Some (length ps)"
proof (induction us ts arbitrary: thesis rule: count_shared.induct)
  case (3 e es t ts)
  show ?case
  proof (cases "e = t")
    case False
    then show ?thesis using "3.prems"(3) [of "[]"] by simp
  next
    case True
    show ?thesis
    proof (rule "3.IH")
      fix vs assume "ts = es @ vs" "count_shared es ts = Some (length es)"
      then show thesis using True "3.prems"(1) [of vs] by simp
    next
      fix v vs assume "es = ts @ v # vs" "count_shared es ts = None"
      then show thesis using True "3.prems"(2) [of v vs] by simp
    next
      fix ps u us' t' ts' assume "es = ps @ u # us'" "ts = ps @ t' # ts'" "u \<noteq> t'" "count_shared es ts = Some (length ps)"
      then show thesis using True "3.prems"(3) [of "e # ps" u us' t' ts'] by simp
    qed (use True in simp)
  qed
qed auto

subsection \<open>Adding a constraint\<close>

lemma paths_split: "set (paths (SNode (A @ e # B))) = set (epaths e) \<union> set (paths (SNode (A @ B)))"
  by auto

lemma trie_split:
  "trie (SNode (A @ e # B)) \<longleftrightarrow> trie (SNode (A @ B)) \<and> etrie e \<and> hd (terms e) \<notin> (\<lambda>e. hd (terms e)) ` set (A @ B)"
  by auto

lemma edge_split:
  assumes "etrie (SEdge (ps @ u # us) fr (Some nx))" "ps \<noteq> []" "u \<noteq> t"
    "e' = SEdge ps None (Some (SNode [SEdge (t # ts) (Some f) (Some (SNode [])), SEdge (u # us) fr (Some nx)]))"
  shows "etrie e' \<and> set (epaths e') = insert (ps @ t # ts, f) (set (epaths (SEdge (ps @ u # us) fr (Some nx))))"
  using assms by (cases fr) (auto simp: case_prod_beta image_iff)

lemma replace_edge:
  assumes "trie (SNode (A @ e # B))" "etrie e'" "hd (terms e') = hd (terms e)" "set (epaths e') = insert p (set (epaths e))"
  shows "trie (SNode (A @ e' # B)) \<and> set (paths (SNode (A @ e' # B))) = insert p (set (paths (SNode (A @ e # B))))"
  using assms by (simp only: paths_split trie_split) auto

lemma trie_edgeE:
  assumes "trie (SNode es)" "ts \<noteq> []"
  obtains (none) "find_edge ts es = Some None" "hd ts \<notin> (\<lambda>e. hd (terms e)) ` set es"
  | (found) A us fr nx B where "es = A @ SEdge us fr (Some nx) # B" "us \<noteq> []" "etrie (SEdge us fr (Some nx))" "hd us = hd ts"
      "find_edge ts es = map_option (\<lambda>s. Some (length A, s)) (count_shared us ts)"
proof (cases "hd ts \<in> (\<lambda>e. hd (terms e)) ` set es")
  case False
  moreover have "\<forall>e \<in> set es. terms e \<noteq> []" using assms(1) etrie_terms by auto
  ultimately show ?thesis using none find_edge_none [OF assms(2)] by force
next
  case True
  then obtain e where "e \<in> set es" "hd (terms e) = hd ts" by auto
  then obtain A B where es: "es = A @ e # B" by (auto simp: in_set_conv_decomp)
  have e: "etrie e" "terms e \<noteq> []" "\<forall>a \<in> set A. terms a \<noteq> [] \<and> hd (terms a) \<noteq> hd ts"
    using assms(1) es \<open>hd (terms e) = hd ts\<close> by (auto simp: image_iff dest: etrie_terms)
  obtain us fr nx where "e = SEdge us fr (Some nx)" using etrie_terms [OF e(1)] by (cases e) auto
  then show ?thesis
    using found [of A us fr nx B] es e find_edge_found [OF assms(2) e(3,2)] \<open>hd (terms e) = hd ts\<close> by simp
qed

lemma paths_head:
  assumes "trie (SNode es)" "(us, f) \<in> set (paths (SNode es))"
  shows "\<exists>e \<in> set es. (us, f) \<in> set (epaths e) \<and> hd us = hd (terms e)"
proof -
  obtain e where e: "e \<in> set es" "etrie e" "(us, f) \<in> set (epaths e)" using assms by auto
  then show ?thesis using epaths_prefix [OF e(3)] etrie_terms [OF e(2)] by auto
qed

lemma paths_same_head:
  assumes "trie (SNode (A @ e # B))" "(us, f) \<in> set (paths (SNode (A @ e # B)))" "hd us = hd (terms e)"
  shows "(us, f) \<in> set (epaths e)"
  using paths_head [OF assms(1,2)] assms(1,3) by (auto simp: image_iff)

lemma addEdge_trie:
  assumes "\<not> dbg" "trie t" "ts \<noteq> []"
    "\<And>us g. (us, g) \<in> set (paths t) \<Longrightarrow> us = ts \<and> feq f g = Some True \<or> diverge excl us ts"
  shows "\<exists>t' p. addEdge dbg feq tru ts f t = Some (t', p) \<and> trie t' \<and> edges t' \<noteq> [] \<and>
    (t' = t \<and> (\<exists>g. (ts, g) \<in> set (paths t) \<and> feq f g = Some True) \<or>
     set (paths t') = insert (ts, f) (set (paths t)) \<and> ts \<notin> fst ` set (paths t))"
  using assms
proof (induction dbg feq tru ts f t rule: addEdge.induct)
  case (1 dbg feq tru ts f es)
  note prems = "1.prems"
  show ?case
    using prems(2,3)
  proof (cases rule: trie_edgeE)
    case none
    have "ts \<notin> fst ` set (paths (SNode es))" using paths_head [OF prems(2)] none(2) by force
    then show ?thesis using none prems(1,2,3) by auto
  next
    case (found A us fr nx B)
    have sub: "set (epaths (SEdge us fr (Some nx))) \<subseteq> set (paths (SNode es))" using found(1) paths_split [of A _ B] by auto
    obtain vs g where path: "(us @ vs, g) \<in> set (epaths (SEdge us fr (Some nx)))"
      using trie_paths_nonempty(2) [OF found(3)] epaths_prefix [of _ _ "SEdge us fr (Some nx)"] by (fastforce simp: neq_Nil_conv)
    have conflict: "us @ vs = ts \<and> feq f g = Some True \<or> diverge excl (us @ vs) ts" using prems(4) path sub by blast
    have inside: "(ts, h) \<in> set (epaths (SEdge us fr (Some nx)))" if "(ts, h) \<in> set (paths (SNode es))" for h
      using paths_same_head [OF prems(2) [unfolded found(1)] that [unfolded found(1)]] found(4) by simp
    have self: "es ! length A = SEdge us fr (Some nx)" "es[length A := e'] = A @ e' # B" for e'
      using found(1) by simp_all
    show ?thesis
    proof (cases rule: count_shared_cases [of ts us])
      case (prefix ws)
      show ?thesis
      proof (cases fr)
        case (Some h)
        then have "us = ts" "feq f h = Some True" "(ts, h) \<in> set (paths (SNode es))"
          using prems(4) [of us h] sub prefix(1) by auto
        then show ?thesis using Some found prefix self prems(2) by auto
      next
        case None
        have vs: "vs \<noteq> []" using path None found(3) trie_paths_terms [of nx] by auto
        then have ws: "ws \<noteq> []" using conflict prefix(1) by auto
        have nx: "trie nx" "edges nx \<noteq> []" using found(3) None by simp_all
        have excl: "ys = ws \<and> feq f h = Some True \<or> diverge excl ys ws" if "(ys, h) \<in> set (paths nx)" for ys h
        proof -
          have "(us @ ys, h) \<in> set (paths (SNode es))" using that sub None by force
          from prems(4) [OF this] show ?thesis using prefix(1) by simp
        qed
        have sel: "nextNode (es ! length A) = Some nx" "schedfrag (es ! length A) = None" "length us = length (terms (es ! length A))"
          using self(1) None by simp_all
        have fe: "find_edge ts es = Some (Some (length A, length us))" using found(5) prefix(2) by simp
        have "\<exists>t' p. addEdge dbg feq tru (or_true tru (drop (length us) ts)) f nx = Some (t', p) \<and> trie t' \<and> edges t' \<noteq> [] \<and>
            (t' = nx \<and> (\<exists>g. (or_true tru (drop (length us) ts), g) \<in> set (paths nx) \<and> feq f g = Some True) \<or>
             set (paths t') = insert (or_true tru (drop (length us) ts), f) (set (paths nx)) \<and>
             or_true tru (drop (length us) ts) \<notin> fst ` set (paths nx))"
          by (rule "1.IH" [OF fe refl refl sel]) (use prems(1) nx(1) ws excl prefix(1) in \<open>auto simp: or_true_def\<close>)
        moreover have "or_true tru (drop (length us) ts) = ws" using prefix(1) ws by (simp add: or_true_def)
        ultimately obtain t' p where t': "addEdge dbg feq tru ws f nx = Some (t', p)" "trie t'" "edges t' \<noteq> []"
          "t' = nx \<and> (\<exists>g. (ws, g) \<in> set (paths nx) \<and> feq f g = Some True) \<or>
           set (paths t') = insert (ws, f) (set (paths nx)) \<and> ws \<notin> fst ` set (paths nx)"
          by auto
        have r: "addEdge dbg feq tru ts f (SNode es) = Some (SNode (A @ SEdge us None (Some t') # B), length A # p)"
          using fe self None t'(1) prefix(1) ws by (simp add: or_true_def)
        show ?thesis
          using t'(4)
        proof
          assume same: "t' = nx \<and> (\<exists>g. (ws, g) \<in> set (paths nx) \<and> feq f g = Some True)"
          then obtain h where "(ws, h) \<in> set (paths nx)" "feq f h = Some True" by blast
          moreover from this have "(ts, h) \<in> set (paths (SNode es))" using sub None prefix(1) by force
          ultimately show ?thesis using r same None found(1) prems(2) by auto
        next
          assume new: "set (paths t') = insert (ws, f) (set (paths nx)) \<and> ws \<notin> fst ` set (paths nx)"
          have fresh: "ts \<notin> fst ` set (paths (SNode es))"
          proof
            assume "ts \<in> fst ` set (paths (SNode es))"
            then obtain h where "(ts, h) \<in> set (paths (SNode es))" by (auto simp del: paths.simps)
            from inside [OF this] have "(ws, h) \<in> set (paths nx)" using None prefix(1) by auto
            then show False using new by (simp add: rev_image_eqI)
          qed
          have "set (epaths (SEdge us None (Some t'))) = insert (ts, f) (set (epaths (SEdge us fr (Some nx))))"
            using new None prefix(1) by auto
          then show ?thesis
            using fresh replace_edge [of A "SEdge us fr (Some nx)" B "SEdge us None (Some t')"] r found t'(2,3) prems(2) by auto
        qed
      qed
    next
      case (short v ws)
      then show ?thesis using conflict by auto
    next
      case (differ ps u us' t ts')
      let ?e = "SEdge ps None (Some (SNode [SEdge (t # ts') (Some f) (Some (SNode [])), SEdge (u # us') fr (Some nx)]))"
      have ps: "ps \<noteq> []" using differ found(4) by (cases ps) auto
      have e: "etrie ?e" "set (epaths ?e) = insert (ts, f) (set (epaths (SEdge us fr (Some nx))))" "hd (terms ?e) = hd us"
        using edge_split [OF found(3) [unfolded differ(1)] ps differ(3) refl, of ts' f] differ ps by simp_all
      have "addEdge dbg feq tru ts f (SNode es) = Some (SNode (A @ ?e # B), [length A, 0])"
        using found differ self by (cases fr) (simp_all add: or_true_def)
      moreover have "ts \<notin> fst ` set (paths (SNode es))"
      proof
        assume "ts \<in> fst ` set (paths (SNode es))"
        then obtain h where "(ts, h) \<in> set (paths (SNode es))" by (auto simp del: paths.simps)
        from epaths_prefix [OF inside [OF this]] show False using differ(1-3) by auto
      qed
      ultimately show ?thesis using replace_edge [OF prems(2) [unfolded found(1)] e(1) _ e(2)] e(3) found(1) by auto
    qed
  qed
qed

subsection \<open>Choosing a fragment\<close>

text \<open>What a selector does with a tree: the first edge whose terms hold is taken, and a choice is not undone.\<close>

lemma size_edges [termination_simp]:
  "size_list size (edges t) < Suc (Suc (Suc (l + size t + k)))"
  "size_list size (edges t) < Suc (Suc (Suc (Suc (l + size t + k))))"
  by (cases t; simp)+

fun pick :: "('t \<Rightarrow> bool) \<Rightarrow> ('t, 'f) sedge list \<Rightarrow> 'f option" where
  "pick P [] = None"
| "pick P (SEdge ts fr n # es) =
     (if list_all P ts then (case fr of Some f \<Rightarrow> Some f | None \<Rightarrow> (case n of Some t \<Rightarrow> pick P (edges t) | None \<Rightarrow> None))
      else pick P es)"

lemma pick_iff:
  assumes "trie (SNode es)" "\<And>p q. p \<in> set (paths (SNode es)) \<Longrightarrow> q \<in> set (paths (SNode es)) \<Longrightarrow> p = q \<or> diverge excl (fst p) (fst q)"
    "\<And>x y. excl x y \<Longrightarrow> \<not> (P x \<and> P y)"
  shows "pick P es = Some f \<longleftrightarrow> (\<exists>us. (us, f) \<in> set (paths (SNode es)) \<and> list_all P us)"
  using assms
proof (induction P es rule: pick.induct)
  case (2 P ts fr n es)
  let ?e = "SEdge ts fr n"
  have split: "set (paths (SNode (?e # es))) = set (epaths ?e) \<union> set (paths (SNode es))" by simp
  have tries: "trie (SNode es)" "etrie ?e" "hd ts \<notin> (\<lambda>e. hd (terms e)) ` set es" using "2.prems"(1) by auto
  have one: "p = q" if "p \<in> set (paths (SNode (?e # es)))" "q \<in> set (paths (SNode (?e # es)))" "list_all P (fst p)" "list_all P (fst q)" for p q
    using "2.prems"(2) [OF that(1,2)] diverge_unsat [OF _ that(3,4) "2.prems"(3)] by blast
  show ?case
  proof (cases "list_all P ts")
    case False
    have "\<not> list_all P us" if "(us, f) \<in> set (epaths ?e)" for us using epaths_prefix [OF that] False by auto
    then show ?thesis using "2.IH"(2) [OF False tries(1) _ "2.prems"(3)] "2.prems"(2) False unfolding split by auto
  next
    case True
    show ?thesis
    proof (cases fr)
      case (Some g)
      have "f = g" if "(us, f) \<in> set (paths (SNode (?e # es)))" "list_all P us" for us
        using one [OF that(1), of "(ts, g)"] that(2) True Some by simp
      then show ?thesis using Some True by auto
    next
      case None
      obtain t where t: "n = Some t" "trie t" "edges t \<noteq> []" using tries(2) None by (cases n) auto
      have t': "SNode (edges t) = t" by (cases t) simp
      have sub: "(ts @ us, g) \<in> set (paths (SNode (?e # es)))" if "(us, g) \<in> set (paths t)" for us g
        using that None t(1) by force
      have IH: "pick P (edges t) = Some f \<longleftrightarrow> (\<exists>us. (us, f) \<in> set (paths t) \<and> list_all P us)"
      proof (rule "2.IH"(1) [OF True None t(1), unfolded t'])
        show "p = q \<or> diverge excl (fst p) (fst q)" if "p \<in> set (paths t)" "q \<in> set (paths t)" for p q
          using "2.prems"(2) [OF sub [of "fst p" "snd p"] sub [of "fst q" "snd q"]] that by (auto simp: prod_eq_iff)
      qed (use t(2) "2.prems"(3) in auto)
      have other: "\<not> list_all P us" if us: "(us, f) \<in> set (paths (SNode es))" for us
      proof
        assume P: "list_all P us"
        obtain ws g where ws: "(ws, g) \<in> set (paths t)" using trie_paths_nonempty(1) [OF t(2,3)] by (fastforce simp: neq_Nil_conv)
        obtain e where e: "e \<in> set es" "etrie e" "(us, f) \<in> set (epaths e)" using us tries(1) by auto
        then obtain y ys x xs where "us = y # ys" "ts = x # xs" "x \<noteq> y"
          using epaths_prefix [OF e(3)] etrie_terms [OF e(2)] etrie_terms [OF tries(2)] tries(3) by (auto simp: neq_Nil_conv image_iff)
        moreover have "(ts @ ws, g) = (us, f) \<or> diverge excl (ts @ ws) us" using "2.prems"(2) [OF sub [OF ws], of "(us, f)"] us split by auto
        ultimately show False using P True "2.prems"(3) by auto
      qed
      show ?thesis using IH other True None t(1) unfolding split by auto
    qed
  qed
qed simp

subsection \<open>Adding all constraints of a selector\<close>

fun addEdges :: "bool \<Rightarrow> ('f \<Rightarrow> 'f \<Rightarrow> bool option) \<Rightarrow> 't \<Rightarrow> ('t list \<times> 'f) list \<Rightarrow> ('t, 'f) stree \<Rightarrow> ('t, 'f) stree option" where
  "addEdges dbg feq tru [] t = Some t"
| "addEdges dbg feq tru ((ts, f) # cs) t = do { (t, p) \<leftarrow> addEdge dbg feq tru ts f t; addEdges dbg feq tru cs t }"

text \<open>A later constraint repeats an earlier one with an equal fragment, or diverges from it.\<close>

definition compatible :: "('f \<Rightarrow> 'f \<Rightarrow> bool option) \<Rightarrow> ('t \<Rightarrow> 't \<Rightarrow> bool) \<Rightarrow> ('t list \<times> 'f) \<Rightarrow> ('t list \<times> 'f) \<Rightarrow> bool" where
  "compatible feq excl old new \<longleftrightarrow> fst old = fst new \<and> feq (snd new) (snd old) = Some True \<or> diverge excl (fst old) (fst new)"

definition separate :: "('t \<Rightarrow> 't \<Rightarrow> bool) \<Rightarrow> ('t, 'f) stree \<Rightarrow> bool" where
  "separate excl t \<longleftrightarrow> (\<forall>p \<in> set (paths t). \<forall>q \<in> set (paths t). p = q \<or> diverge excl (fst p) (fst q))"

lemma diverge_sym: "symp excl \<Longrightarrow> diverge excl xs ys \<Longrightarrow> diverge excl ys xs"
  by (induction excl xs ys rule: diverge.induct) (auto split: if_splits dest: sympD)

lemma separate_insert:
  assumes "symp excl" "separate excl t" "set (paths t') = insert (ts, f) (set (paths t))" "ts \<notin> fst ` set (paths t)"
    "\<forall>p \<in> set (paths t). compatible feq excl p (ts, f)"
  shows "separate excl t'"
proof -
  have "diverge excl (fst p) ts" if "p \<in> set (paths t)" for p
    using assms(4,5) that by (force simp: compatible_def)
  then show ?thesis using assms(2) diverge_sym [OF assms(1)] unfolding separate_def assms(3) by auto
qed

lemma addEdges_trie:
  assumes "symp excl" "\<not> dbg"
  shows "trie t \<Longrightarrow> separate excl t \<Longrightarrow> \<forall>c \<in> set cs. fst c \<noteq> [] \<and> (\<forall>p \<in> set (paths t). compatible feq excl p c) \<Longrightarrow>
    sorted_wrt (compatible feq excl) cs \<Longrightarrow>
    \<exists>t'. addEdges dbg feq tru cs t = Some t' \<and> trie t' \<and> separate excl t' \<and>
      set (paths t) \<subseteq> set (paths t') \<and> set (paths t') \<subseteq> set (paths t) \<union> set cs \<and>
      (\<forall>c \<in> set cs. \<exists>g. (fst c, g) \<in> set (paths t') \<and> (g = snd c \<or> feq (snd c) g = Some True))"
proof (induction cs arbitrary: t)
  case (Cons c cs)
  obtain ts f where c: "c = (ts, f)" by (cases c)
  have "us = ts \<and> feq f g = Some True \<or> diverge excl us ts" if "(us, g) \<in> set (paths t)" for us g
    using Cons.prems(3) c that by (force simp: compatible_def)
  moreover have "ts \<noteq> []" using Cons.prems(3) c by simp
  ultimately obtain t1 p where t1: "addEdge dbg feq tru ts f t = Some (t1, p)" "trie t1"
    "t1 = t \<and> (\<exists>g. (ts, g) \<in> set (paths t) \<and> feq f g = Some True) \<or> set (paths t1) = insert (ts, f) (set (paths t)) \<and> ts \<notin> fst ` set (paths t)"
    using addEdge_trie [OF assms(2) Cons.prems(1), of ts feq f excl tru] by blast
  have sep: "separate excl t1" "set (paths t) \<subseteq> set (paths t1)" "set (paths t1) \<subseteq> insert (ts, f) (set (paths t))"
    "\<exists>g. (ts, g) \<in> set (paths t1) \<and> (g = f \<or> feq f g = Some True)"
    using t1(3) Cons.prems(2,3) c separate_insert [OF assms(1) Cons.prems(2), of t1 ts f feq] by auto
  have pre: "\<forall>d \<in> set cs. fst d \<noteq> [] \<and> (\<forall>p \<in> set (paths t1). compatible feq excl p d)" "sorted_wrt (compatible feq excl) cs"
    using Cons.prems(3,4) sep(3) c by auto
  from Cons.IH [OF t1(2) sep(1) pre] obtain t' where t': "addEdges dbg feq tru cs t1 = Some t'" "trie t'" "separate excl t'"
    "set (paths t1) \<subseteq> set (paths t')" "set (paths t') \<subseteq> set (paths t1) \<union> set cs"
    "\<forall>c \<in> set cs. \<exists>g. (fst c, g) \<in> set (paths t') \<and> (g = snd c \<or> feq (snd c) g = Some True)" by blast
  have "addEdges dbg feq tru (c # cs) t = Some t'" using t1(1) t'(1) c by simp
  moreover have "\<forall>c \<in> set (c # cs). \<exists>g. (fst c, g) \<in> set (paths t') \<and> (g = snd c \<or> feq (snd c) g = Some True)"
    using t'(4,6) sep(4) c by auto
  ultimately show ?case using t' sep(2,3) c by (intro exI [of _ t']) auto
qed simp

lemma pick_added:
  assumes "trie t" "separate excl t" "\<And>x y. excl x y \<Longrightarrow> \<not> (P x \<and> P y)"
  shows "pick P (edges t) = Some f \<longleftrightarrow> (\<exists>us. (us, f) \<in> set (paths t) \<and> list_all P us)"
proof -
  have "SNode (edges t) = t" by (cases t) simp
  then show ?thesis using pick_iff [of "edges t" excl P f] assms by (simp add: separate_def del: paths.simps trie.simps)
qed

end
