(* ===== verification/Schedule_Numbering.thy ===== *)
theory Schedule_Numbering
  imports Schedule_Tree
begin

text \<open>
  Numbering the fragments of the schedule trees (\<^verbatim>\<open>BuildScheduleTrees\<close>,
  \<^verbatim>\<open>TraverseScheduleTree\<close>, \<^verbatim>\<open>ValidateScheduleTrees\<close> of
  \<^verbatim>\<open>lib/ICS/Instrumentor.cpp\<close>). The fragments, which the code holds by reference and
  changes in place, are entries of the tree; the list of all fragments receives each fragment with its
  numbers. The nodes' snapshots are not part of the tree here.
\<close>

subsection \<open>Definitions\<close>

type_synonym ('t, 'o) ftree = "('t, 'o ScheduleFragment) stree"

type_synonym ('t, 'o) fedge = "('t, 'o ScheduleFragment) sedge"

record 'o NumberingVisitor =
  scheduleFragmentsList :: "'o ScheduleFragment list"
  nextFrag :: nat
  nextSelector :: nat
  nextInput :: nat

fun number_inputs ::
  "('o \<Rightarrow> bool) \<Rightarrow> (ThreadUid, 'c, 'o) hbnode fstate \<Rightarrow> nat \<Rightarrow> nat list \<Rightarrow> ('o \<rightharpoonup> nat) \<Rightarrow> nat \<Rightarrow> (('o \<rightharpoonup> nat) \<times> nat) option" where
  "number_inputs used st g [] ids k = Some (ids, k)"
| "number_inputs used st g (i # is) ids k = do {
     node \<leftarrow> hb_getNode g i st;
     (case inputObj node of
        None \<Rightarrow> number_inputs used st g is ids k
      | Some obj \<Rightarrow>
          if used obj then number_inputs used st g is (ids(obj \<mapsto> k)) (k + 1)
          else number_inputs used st g is ids k)
   }"

definition number_fragment ::
  "('o \<Rightarrow> bool) \<Rightarrow> (ThreadUid, 'c, 'o) hbnode fstate \<Rightarrow> bool \<Rightarrow> 'o ScheduleFragment \<Rightarrow> 'o NumberingVisitor \<Rightarrow>
     ('o ScheduleFragment \<times> 'o NumberingVisitor) option" where
  "number_fragment used st hasNext f v = do {
     assert_opt (fragId f = 0);
     assert_opt (nextSelectorId f = 0);
     let sel = (if hasNext then nextSelector v else 0);
     (ids, k) \<leftarrow> number_inputs used st (hbGraph f) [firstNodeId f ..< lastNodeId f + 1] (inputIds f) (nextInput v);
     let f = f\<lparr> fragId := nextFrag v, nextSelectorId := sel, inputIds := ids \<rparr>;
     Some (f, v\<lparr> scheduleFragmentsList := scheduleFragmentsList v @ [f], nextFrag := nextFrag v + 1,
                 nextSelector := (if hasNext then nextSelector v + 1 else nextSelector v), nextInput := k \<rparr>)
   }"

text \<open>\<^verbatim>\<open>TraverseScheduleTree\<close> with the \<^verbatim>\<open>NumberingVisitor\<close>: the edges of
  a node in order, each with the node behind it.\<close>

fun number_edges ::
  "('o \<Rightarrow> bool) \<Rightarrow> (ThreadUid, 'c, 'o) hbnode fstate \<Rightarrow> ('t, 'o) fedge list \<Rightarrow> 'o NumberingVisitor \<Rightarrow>
     (('t, 'o) fedge list \<times> 'o NumberingVisitor) option" where
  "number_edges used st [] v = Some ([], v)"
| "number_edges used st (SEdge ts fr n # es) v =
     (case n of
        None \<Rightarrow> None
      | Some t \<Rightarrow> do {
          let hasNext = (edges t \<noteq> []);
          (fr, v) \<leftarrow> (case fr of
             None \<Rightarrow> Some (None, v)
           | Some f \<Rightarrow> do { (f, v) \<leftarrow> number_fragment used st hasNext f v; Some (Some f, v) });
          (next_edges, v) \<leftarrow> number_edges used st (edges t) v;
          (es, v) \<leftarrow> number_edges used st es v;
          Some (SEdge ts fr (if hasNext then Some (SNode next_edges) else None) # es, v)
        })"

text \<open>The assertions of \<^verbatim>\<open>ValidateScheduleTrees\<close>; \<^verbatim>\<open>maxId g\<close> is the
  largest node of a graph.\<close>

fun validate_edges :: "(nat \<Rightarrow> nat) \<Rightarrow> ('t, 'o) fedge list \<Rightarrow> bool" where
  "validate_edges maxId [] = True"
| "validate_edges maxId (SEdge ts fr n # es) \<longleftrightarrow>
     (case fr of
        None \<Rightarrow> True
      | Some f \<Rightarrow> (n = None) = (nextSelectorId f = 0) \<and> (exitsProgram f \<longrightarrow> n = None) \<and>
          (lastNodeId f = maxId (hbGraph f) \<longrightarrow> n = None)) \<and>
     (case n of None \<Rightarrow> True | Some t \<Rightarrow> validate_edges maxId (edges t)) \<and> validate_edges maxId es"

text \<open>All trees of the regions: the first region's tree is numbered first, its root must have one edge, and
  that edge's fragment has number 1.\<close>

fun number_trees ::
  "('o \<Rightarrow> bool) \<Rightarrow> (ThreadUid, 'c, 'o) hbnode fstate \<Rightarrow> ('t, 'o) ftree list \<Rightarrow> 'o NumberingVisitor \<Rightarrow>
     (('t, 'o) ftree list \<times> 'o NumberingVisitor) option" where
  "number_trees used st [] v = Some ([], v)"
| "number_trees used st (t # ts) v = do {
     (es, v) \<leftarrow> number_edges used st (edges t) v;
     (ts, v) \<leftarrow> number_trees used st ts v;
     Some (SNode es # ts, v)
   }"

definition BuildScheduleTrees_number ::
  "('o \<Rightarrow> bool) \<Rightarrow> (ThreadUid, 'c, 'o) hbnode fstate \<Rightarrow> ('t, 'o) ftree list \<Rightarrow> (('t, 'o) ftree list \<times> 'o NumberingVisitor) option" where
  "BuildScheduleTrees_number used st trees =
     (case trees of
        [] \<Rightarrow> None
      | t # ts \<Rightarrow> do {
          let v = \<lparr> scheduleFragmentsList = [], nextFrag = 1, nextSelector = length trees + 1, nextInput = length trees + 1 \<rparr>;
          (es, v) \<leftarrow> number_edges used st (edges t) v;
          assert_opt (case es of [e] \<Rightarrow> (case schedfrag e of Some f \<Rightarrow> fragId f = 1 | None \<Rightarrow> False) | _ \<Rightarrow> False);
          (ts, v) \<leftarrow> number_trees used st ts v;
          Some (SNode es # ts, v)
        })"

subsection \<open>Fragments of a tree\<close>

text \<open>The fragments in the order of the traversal, each with whether a node is behind it.\<close>

fun frag_edges :: "('t, 'o) fedge list \<Rightarrow> ('o ScheduleFragment \<times> bool) list" where
  "frag_edges [] = []"
| "frag_edges (SEdge ts fr n # es) =
     (case fr of None \<Rightarrow> [] | Some f \<Rightarrow> [(f, n \<noteq> None)]) @ (case n of None \<Rightarrow> [] | Some t \<Rightarrow> frag_edges (edges t)) @ frag_edges es"

text \<open>A tree as it is built: no numbers yet, every edge leads to a node, the fragments' nodes exist, and
  nothing follows a fragment that ends its graph or the program.\<close>

fun numberable :: "(nat \<Rightarrow> nat) \<Rightarrow> (ThreadUid, 'c, 'o) hbnode fstate \<Rightarrow> ('t, 'o) fedge list \<Rightarrow> bool" where
  "numberable maxId st [] = True"
| "numberable maxId st (SEdge ts fr n # es) \<longleftrightarrow>
     (case n of None \<Rightarrow> False | Some t \<Rightarrow>
        numberable maxId st (edges t) \<and>
        (case fr of None \<Rightarrow> edges t \<noteq> []
         | Some f \<Rightarrow> fragId f = 0 \<and> nextSelectorId f = 0 \<and> list_all (\<lambda>i. hb_getNode (hbGraph f) i st \<noteq> None) [firstNodeId f ..< lastNodeId f + 1] \<and>
             (exitsProgram f \<or> lastNodeId f = maxId (hbGraph f) \<longrightarrow> edges t = []))) \<and>
     numberable maxId st es"

subsection \<open>The numbers\<close>

definition unnumbered :: "'o ScheduleFragment \<Rightarrow> 'o ScheduleFragment" where
  "unnumbered f = f\<lparr> fragId := 0, nextSelectorId := 0, inputIds := Map.empty \<rparr>"

lemma unnumbered_eqD:
  assumes "unnumbered f = unnumbered g"
  shows "hbGraph f = hbGraph g" "firstNodeId f = firstNodeId g" "lastNodeId f = lastNodeId g" "exitsProgram f = exitsProgram g"
  using assms by (cases f; cases g; simp add: unnumbered_def)+

lemma number_inputs_total:
  "list_all (\<lambda>i. hb_getNode g i st \<noteq> None) is \<Longrightarrow> \<exists>ids' k'. number_inputs used st g is ids k = Some (ids', k')"
  by (induction "is" arbitrary: ids k) (auto split: option.splits)

lemma number_fragment_ok:
  assumes "fragId f = 0" "nextSelectorId f = 0"
    "list_all (\<lambda>i. hb_getNode (hbGraph f) i st \<noteq> None) [firstNodeId f ..< lastNodeId f + 1]"
  obtains f' v' where "number_fragment used st b f v = Some (f', v')" "unnumbered f' = unnumbered f" "fragId f' = nextFrag v"
    "nextSelectorId f' = (if b then nextSelector v else 0)" "scheduleFragmentsList v' = scheduleFragmentsList v @ [f']"
    "nextFrag v' = nextFrag v + 1" "nextSelector v' = (if b then nextSelector v + 1 else nextSelector v)"
proof -
  obtain ids k where "number_inputs used st (hbGraph f) [firstNodeId f ..< lastNodeId f + 1] (inputIds f) (nextInput v) = Some (ids, k)"
    using number_inputs_total [OF assms(3)] by blast
  moreover define f' where "f' = f\<lparr> fragId := nextFrag v, nextSelectorId := if b then nextSelector v else 0, inputIds := ids \<rparr>"
  ultimately have "number_fragment used st b f v = Some (f', v\<lparr> scheduleFragmentsList := scheduleFragmentsList v @ [f'],
      nextFrag := nextFrag v + 1, nextSelector := (if b then nextSelector v + 1 else nextSelector v), nextInput := k \<rparr>)"
    using assms(1,2) by (simp add: number_fragment_def Let_def del: upt_Suc)
  then show ?thesis by (rule that) (simp_all add: f'_def unnumbered_def)
qed

text \<open>What numbering a list of edges establishes.\<close>

definition numbered ::
  "(nat \<Rightarrow> nat) \<Rightarrow> ('t, 'o) fedge list \<Rightarrow> 'o NumberingVisitor \<Rightarrow> ('t, 'o) fedge list \<Rightarrow> 'o NumberingVisitor \<Rightarrow> bool" where
  "numbered maxId es v es' v' \<longleftrightarrow>
     length es' = length es \<and> validate_edges maxId es' \<and> nextFrag v \<le> nextFrag v' \<and> nextSelector v \<le> nextSelector v' \<and>
     map (\<lambda>x. fragId (fst x)) (frag_edges es') = [nextFrag v ..< nextFrag v'] \<and>
     map (\<lambda>x. nextSelectorId (fst x)) (filter snd (frag_edges es')) = [nextSelector v ..< nextSelector v'] \<and>
     scheduleFragmentsList v' = scheduleFragmentsList v @ map fst (frag_edges es') \<and>
     (\<forall>P. map_option unnumbered (pick P es') = map_option unnumbered (pick P es))"

lemma numbered_Nil [simp]: "numbered maxId [] v [] v"
  by (simp add: numbered_def)

lemma numbered_empty: "numbered maxId [] v es' v' \<Longrightarrow> es' = [] \<and> nextFrag v' = nextFrag v \<and> nextSelector v' = nextSelector v \<and>
    scheduleFragmentsList v' = scheduleFragmentsList v"
  by (auto simp: numbered_def dest!: sym [of "[]"])

lemma upt_append: "i \<le> j \<Longrightarrow> j \<le> k \<Longrightarrow> [i ..< j] @ [j ..< k] = [i ..< k]"
  using upt_add_eq_append [of i j "k - j"] by simp

lemma numbered_partial:
  assumes "numbered maxId (edges t) v ts' v1" "numbered maxId es v1 es' v2" "edges t \<noteq> []"
  shows "numbered maxId (SEdge us None (Some t) # es) v (SEdge us None (Some (SNode ts')) # es') v2"
  using assms unfolding numbered_def by (intro conjI allI) (simp_all add: upt_append)

lemma numbered_last:
  assumes "numbered maxId es v1 es' v3" "edges t = []" "unnumbered f' = unnumbered f" "fragId f' = nextFrag v" "nextSelectorId f' = 0"
    "scheduleFragmentsList v1 = scheduleFragmentsList v @ [f']" "nextFrag v1 = nextFrag v + 1" "nextSelector v1 = nextSelector v"
  shows "numbered maxId (SEdge us (Some f) (Some t) # es) v (SEdge us (Some f') None # es') v3"
  using assms unfolding numbered_def by (intro conjI allI) (simp_all add: upt_conv_Cons)

lemma numbered_followed:
  assumes "numbered maxId (edges t) v1 ts' v2" "numbered maxId es v2 es' v3" "edges t \<noteq> []" "unnumbered f' = unnumbered f"
    "fragId f' = nextFrag v" "nextSelectorId f' = nextSelector v" "scheduleFragmentsList v1 = scheduleFragmentsList v @ [f']"
    "nextFrag v1 = nextFrag v + 1" "nextSelector v1 = nextSelector v + 1" "0 < nextSelector v"
    "\<not> exitsProgram f" "lastNodeId f \<noteq> maxId (hbGraph f)"
  shows "numbered maxId (SEdge us (Some f) (Some t) # es) v (SEdge us (Some f') (Some (SNode ts')) # es') v3"
  using assms unnumbered_eqD [OF assms(4)] unfolding numbered_def by (intro conjI allI) (simp_all add: upt_conv_Cons upt_append)

lemma number_edges_ok:
  assumes "numberable maxId st es" "0 < nextSelector v"
  shows "\<exists>es' v'. number_edges used st es v = Some (es', v') \<and> numbered maxId es v es' v'"
  using assms
proof (induction maxId st es arbitrary: v rule: numberable.induct)
  case (2 maxId st us fr n es)
  then obtain t where n: "n = Some t" "numberable maxId st (edges t)" "numberable maxId st es" by (auto split: option.splits)
  note IH = "2.IH"(1) [OF n(1,2)] "2.IH"(2) [OF n(3)]
  show ?case
  proof (cases fr)
    case None
    then have ne: "edges t \<noteq> []" using "2.prems" n(1) by simp
    obtain ts' v1 where ts: "number_edges used st (edges t) v = Some (ts', v1)" "numbered maxId (edges t) v ts' v1"
      using IH(1) "2.prems"(2) by blast
    moreover from ts(2) have "0 < nextSelector v1" using "2.prems"(2) by (auto simp: numbered_def)
    then obtain es' v2 where "number_edges used st es v1 = Some (es', v2)" "numbered maxId es v1 es' v2" using IH(2) by blast
    ultimately show ?thesis using n(1) None ne numbered_partial by simp
  next
    case (Some f)
    have f: "fragId f = 0" "nextSelectorId f = 0" "list_all (\<lambda>i. hb_getNode (hbGraph f) i st \<noteq> None) [firstNodeId f ..< lastNodeId f + 1]"
      "exitsProgram f \<or> lastNodeId f = maxId (hbGraph f) \<longrightarrow> edges t = []"
      using "2.prems" n(1) Some by (simp_all del: upt_Suc)
    obtain f' v1 where f': "number_fragment used st (edges t \<noteq> []) f v = Some (f', v1)" "unnumbered f' = unnumbered f"
      "fragId f' = nextFrag v" "nextSelectorId f' = (if edges t \<noteq> [] then nextSelector v else 0)"
      "scheduleFragmentsList v1 = scheduleFragmentsList v @ [f']" "nextFrag v1 = nextFrag v + 1"
      "nextSelector v1 = (if edges t \<noteq> [] then nextSelector v + 1 else nextSelector v)"
      by (rule number_fragment_ok [OF f(1-3), of used "edges t \<noteq> []" v])
    have "0 < nextSelector v1" using f'(7) "2.prems"(2) by simp
    then obtain ts' v2 where ts: "number_edges used st (edges t) v1 = Some (ts', v2)" "numbered maxId (edges t) v1 ts' v2"
      using IH(1) by blast
    moreover have "0 < nextSelector v2" using ts(2) \<open>0 < nextSelector v1\<close> by (auto simp: numbered_def)
    then obtain es' v3 where es: "number_edges used st es v2 = Some (es', v3)" "numbered maxId es v2 es' v3" using IH(2) by blast
    show ?thesis
    proof (cases "edges t = []")
      case True
      then have "ts' = [] \<and> v2 = v1" using ts(1) by simp
      then show ?thesis using n(1) Some True f' es numbered_last [of maxId es v1 es' v3 t f' f v us] by simp
    next
      case False
      then show ?thesis using n(1) Some f' ts es f(4) "2.prems"(2) numbered_followed [OF ts(2) es(2) False f'(2), of v us] by simp
    qed
  qed
qed simp

subsection \<open>All trees\<close>

definition all_frags :: "('t, 'o) ftree list \<Rightarrow> ('o ScheduleFragment \<times> bool) list" where
  "all_frags ts = concat (map (\<lambda>t. frag_edges (edges t)) ts)"

lemma all_frags_Cons [simp]: "all_frags [] = []" "all_frags (t # ts) = frag_edges (edges t) @ all_frags ts"
  by (simp_all add: all_frags_def)

definition numbered_trees ::
  "(nat \<Rightarrow> nat) \<Rightarrow> ('t, 'o) ftree list \<Rightarrow> 'o NumberingVisitor \<Rightarrow> ('t, 'o) ftree list \<Rightarrow> 'o NumberingVisitor \<Rightarrow> bool" where
  "numbered_trees maxId ts v ts' v' \<longleftrightarrow>
     list_all2 (\<lambda>t t'. validate_edges maxId (edges t') \<and>
       (\<forall>P. map_option unnumbered (pick P (edges t')) = map_option unnumbered (pick P (edges t)))) ts ts' \<and>
     nextFrag v \<le> nextFrag v' \<and> nextSelector v \<le> nextSelector v' \<and>
     map (\<lambda>x. fragId (fst x)) (all_frags ts') = [nextFrag v ..< nextFrag v'] \<and>
     map (\<lambda>x. nextSelectorId (fst x)) (filter snd (all_frags ts')) = [nextSelector v ..< nextSelector v'] \<and>
     scheduleFragmentsList v' = scheduleFragmentsList v @ map fst (all_frags ts')"

lemma numbered_trees_Cons:
  assumes "numbered maxId (edges t) v es v1" "numbered_trees maxId ts v1 ts' v2"
  shows "numbered_trees maxId (t # ts) v (SNode es # ts') v2"
  using assms unfolding numbered_def numbered_trees_def by (intro conjI) (simp_all add: upt_append)

lemma number_trees_ok:
  "list_all (\<lambda>t. numberable maxId st (edges t)) ts \<Longrightarrow> 0 < nextSelector v \<Longrightarrow>
     \<exists>ts' v'. number_trees used st ts v = Some (ts', v') \<and> numbered_trees maxId ts v ts' v'"
proof (induction ts arbitrary: v)
  case (Cons t ts)
  then have t: "numberable maxId st (edges t)" "list_all (\<lambda>t. numberable maxId st (edges t)) ts" by simp_all
  obtain es v1 where es: "number_edges used st (edges t) v = Some (es, v1)" "numbered maxId (edges t) v es v1"
    using number_edges_ok [OF t(1) Cons.prems(2)] by blast
  then have "0 < nextSelector v1" using Cons.prems(2) by (auto simp: numbered_def)
  then obtain ts' v2 where "number_trees used st ts v1 = Some (ts', v2)" "numbered_trees maxId ts v1 ts' v2"
    using Cons.IH [OF t(2)] by blast
  then show ?case using es numbered_trees_Cons [OF es(2)] by simp
qed (simp add: numbered_trees_def)


definition demo_fragment :: "nat \<Rightarrow> nat \<Rightarrow> unit ScheduleFragment" where
  "demo_fragment g l = \<lparr> hbGraph = g, firstNodeId = 1, lastNodeId = l, nextThreadLeader = ThreadUid 0 0, exitsProgram = False,
     schedId = 1, fragId = 0, nextSelectorId = 0, inputIds = Map.empty \<rparr>"

definition demo_trees :: "(nat, unit) ftree list" where
  "demo_trees =
     [SNode [SEdge [0] (Some (demo_fragment 0 0)) (Some (SNode [SEdge [1] (Some (demo_fragment 1 0)) (Some (SNode []))]))],
      SNode [SEdge [2] None (Some (SNode [SEdge [3] (Some (demo_fragment 2 0)) (Some (SNode [])), SEdge [4] (Some (demo_fragment 3 0)) (Some (SNode []))]))]]"


end
