(* ===== verification/Selector_Code.thy ===== *)
theory Selector_Code
  imports Schedule_Numbering
begin

text \<open>
  The code of the schedule selectors (\<^verbatim>\<open>BuildExprEvaluator\<close>,
  \<^verbatim>\<open>BuildBooleanEvaluator\<close>, \<^verbatim>\<open>BuildScheduleSelector\<close> of
  \<^verbatim>\<open>lib/ICS/Instrumentor.cpp\<close>). The instructions that compute a value are a tree
  \<^verbatim>\<open>lval\<close>; basic blocks that end in a branch are a decision tree \<^verbatim>\<open>bflow\<close>
  whose exits are the success and the failure block. The value of a read of memory, which
  \<^verbatim>\<open>BuildSymbolicRead\<close> loads, is a leaf \<^verbatim>\<open>LRead\<close>. The caches of an environment
  hold values that were computed before and are left out; what remains of an environment is its set of
  constraints. The constraint manager and the solver are the parameter \<^verbatim>\<open>S\<close>.
\<close>

subsection \<open>Reads in order\<close>

definition isReadExprAtOffset :: "'u expr \<Rightarrow> 'u \<Rightarrow> 'u expr \<Rightarrow> 'u expr \<Rightarrow> bool option" where
  "isReadExprAtOffset e u index offset =
     (case e of
        ReadExpr u' index' \<Rightarrow> if u' \<noteq> u then Some False else map_option (\<lambda>d. d = offset) (mk Sub index' index)
      | _ \<Rightarrow> Some False)"

fun ordered_tail :: "int \<Rightarrow> 'u \<Rightarrow> 'u expr \<Rightarrow> 'u expr \<Rightarrow> 'u expr \<Rightarrow> 'u expr option option" where
  "ordered_tail stride u index offset (ConcatExpr x y) = do {
     offset \<leftarrow> mk Add offset (ConstantExpr (getWidth index) (take_bit (getWidth index) stride));
     ok \<leftarrow> isReadExprAtOffset x u index offset;
     if ok then ordered_tail stride u index offset y else Some None
   }"
| "ordered_tail stride u index offset e = do {
     offset \<leftarrow> mk Add offset (ConstantExpr (getWidth index) (take_bit (getWidth index) stride));
     ok \<leftarrow> isReadExprAtOffset e u index offset;
     Some (if ok then Some e else None)
   }"

definition hasOrderedReads :: "'u expr \<Rightarrow> int \<Rightarrow> 'u expr option option" where
  "hasOrderedReads e stride = do {
     assert_opt (stride = 1 \<or> stride = -1);
     (case e of
        ReadExpr u i \<Rightarrow> Some (Some e)
      | ConcatExpr (ReadExpr u index) y \<Rightarrow> do {
          r \<leftarrow> ordered_tail stride u index (ConstantExpr (getWidth index) 0) y;
          Some (map_option (\<lambda>last. if stride = -1 then last else ReadExpr u index) r)
        }
      | _ \<Rightarrow> Some None)
   }"

subsection \<open>Environments\<close>

datatype Validity = VTrue | VFalse | VUnknown

text \<open>The constraint manager: adding a constraint may fail its assertion. The solver may fail to answer.\<close>

record ('m, 'u) solvers =
  addConstraint :: "'m \<Rightarrow> 'u expr \<Rightarrow> 'm option"
  cmSimplify :: "'m \<Rightarrow> 'u expr \<Rightarrow> 'u expr"
  solverMayBeTrue :: "'m \<Rightarrow> 'u expr \<Rightarrow> bool option"
  solverEvaluate :: "'m \<Rightarrow> 'u expr \<Rightarrow> Validity option"
  orderedReadsEnabled :: bool
  littleEndian :: bool

definition cloneTrue :: "('m, 'u) solvers \<Rightarrow> 'm \<Rightarrow> 'u expr \<Rightarrow> 'm option" where
  "cloneTrue S m cond = addConstraint S m cond"

definition cloneFalse :: "('m, 'u) solvers \<Rightarrow> 'm \<Rightarrow> 'u expr \<Rightarrow> 'm option" where
  "cloneFalse S m cond = do { z \<leftarrow> createIsZero mk cond; addConstraint S m z }"

text \<open>The result \<^verbatim>\<open>Some None\<close> is the null reference.\<close>

definition cloneFalseCanFail :: "('m, 'u) solvers \<Rightarrow> 'm \<Rightarrow> 'u expr \<Rightarrow> 'm option option" where
  "cloneFalseCanFail S m cond = do {
     z \<leftarrow> createIsZero mk cond;
     if solverMayBeTrue S m z = Some True then map_option Some (addConstraint S m z) else Some None
   }"

definition checkValidity :: "('m, 'u) solvers \<Rightarrow> 'm \<Rightarrow> 'u expr \<Rightarrow> Validity" where
  "checkValidity S m cond = (case solverEvaluate S m cond of Some res \<Rightarrow> res | None \<Rightarrow> VUnknown)"

subsection \<open>Emitted code\<close>

datatype 'u lval =
    LConst nat int
  | LNot "'u lval"
  | LZExt "'u lval" nat
  | LSExt "'u lval" nat
  | LTrunc "'u lval" nat
  | LCmp Kind "'u lval" "'u lval"
  | LBin Kind "'u lval" "'u lval"
  | LSelect "'u lval" "'u lval" "'u lval"
  | LPhi "'u bflow" "'u lval" "'u lval"
  | LRead "'u expr"
and 'u bflow = BExit bool | BBranch "'u lval" "'u bflow" "'u bflow"

text \<open>Continuing a decision at its exits.\<close>

primrec bseq :: "'u bflow \<Rightarrow> 'u bflow \<Rightarrow> 'u bflow \<Rightarrow> 'u bflow" where
  "bseq (BExit b) x y = (if b then x else y)"
| "bseq (BBranch v a b) x y = BBranch v (bseq a x y) (bseq b x y)"

subsection \<open>The generator\<close>

type_synonym ('m, 'u) build_expr = "'m \<Rightarrow> 'u expr \<Rightarrow> 'u lval option"

type_synonym ('m, 'u) build_bool = "'m \<Rightarrow> 'u expr \<Rightarrow> 'u bflow option"

definition ImpliesExpr_simplify :: "'u expr \<Rightarrow> 'u expr \<Rightarrow> 'u expr option" where
  "ImpliesExpr_simplify l r = SelectExpr_create l r TrueE"

definition BuildExprEvaluator_body ::
  "('m, 'u) solvers \<Rightarrow> ('m, 'u) build_expr \<Rightarrow> ('m, 'u) build_bool \<Rightarrow> ('m, 'u) build_expr" where
  "BuildExprEvaluator_body S bee bbe m e =
     (case e of
        ConstantExpr w v \<Rightarrow> do { assert_opt (w \<le> 64); Some (LConst w v) }
      | NotExpr x \<Rightarrow> map_option LNot (bee m x)
      | ZExtExpr x w \<Rightarrow> map_option (\<lambda>a. LZExt a w) (bee m x)
      | SExtExpr x w \<Rightarrow> map_option (\<lambda>a. LSExt a w) (bee m x)
      | BinaryExpr k l r \<Rightarrow>
          if is_cmp k then do { a \<leftarrow> bee m l; b \<leftarrow> bee m r; Some (LCmp k a b) }
          else if k = Implies then do { s \<leftarrow> ImpliesExpr_simplify l r; bee m s }
          else do { a \<leftarrow> bee m l; b \<leftarrow> bee m r; Some (LBin k a b) }
      | SelectExpr c t f \<Rightarrow>
          if is_const t \<and> is_const f then do { a \<leftarrow> bee m c; x \<leftarrow> bee m t; y \<leftarrow> bee m f; Some (LSelect a x y) }
          else (case checkValidity S m c of
              VTrue \<Rightarrow> bee m t
            | VFalse \<Rightarrow> bee m f
            | VUnknown \<Rightarrow> do {
                b \<leftarrow> bbe m c;
                mt \<leftarrow> cloneTrue S m c;
                x \<leftarrow> bee mt t;
                mf \<leftarrow> cloneFalse S m c;
                y \<leftarrow> bee mf f;
                Some (LPhi b x y)
              })
      | ExtractExpr x off w \<Rightarrow> do {
          a \<leftarrow> bee m x;
          Some (LTrunc (if off > 0 then LBin LShr a (LConst (getWidth x) (int off)) else a) w)
        }
      | ReadExpr u i \<Rightarrow> Some (LRead e)
      | ConcatExpr l r \<Rightarrow> do {
          ordered \<leftarrow> (if orderedReadsEnabled S then hasOrderedReads e (if littleEndian S then -1 else 1) else Some None);
          if ordered \<noteq> None then Some (LRead e)
          else do {
            a \<leftarrow> bee m l;
            b \<leftarrow> bee m r;
            let w = getWidth e;
            Some (LBin Or (LBin Shl (LZExt a w) (LConst w (int (getWidth r)))) (LZExt b w))
          }
        }
      | _ \<Rightarrow> None)"

definition boolean_leaf :: "('m, 'u) solvers \<Rightarrow> ('m, 'u) build_expr \<Rightarrow> ('m, 'u) build_bool" where
  "boolean_leaf S bee m e = do {
     let e = cmSimplify S m e;
     let e = (case checkValidity S m e of VTrue \<Rightarrow> TrueE | VFalse \<Rightarrow> FalseE | VUnknown \<Rightarrow> e);
     v \<leftarrow> bee m e;
     Some (BBranch v (BExit True) (BExit False))
   }"

definition BuildBooleanEvaluator_body ::
  "('m, 'u) solvers \<Rightarrow> ('m, 'u) build_expr \<Rightarrow> ('m, 'u) build_bool \<Rightarrow> ('m, 'u) build_bool" where
  "BuildBooleanEvaluator_body S bee bbe m e =
     (if getWidth e = 1 then
        (case e of
           BinaryExpr And l r \<Rightarrow>
             (case checkValidity S m l of
                VTrue \<Rightarrow> bbe m r
              | VFalse \<Rightarrow> bbe m FalseE
              | VUnknown \<Rightarrow> do { a \<leftarrow> bbe m l; m' \<leftarrow> cloneTrue S m l; b \<leftarrow> bbe m' r; Some (bseq a b (BExit False)) })
         | BinaryExpr Or l r \<Rightarrow>
             (case checkValidity S m l of
                VTrue \<Rightarrow> bbe m TrueE
              | VFalse \<Rightarrow> bbe m r
              | VUnknown \<Rightarrow> do { m' \<leftarrow> cloneFalse S m l; a \<leftarrow> bbe m l; b \<leftarrow> bbe m' r; Some (bseq a (BExit True) b) })
         | _ \<Rightarrow> boolean_leaf S bee m e)
      else do { v \<leftarrow> bee m e; Some (BBranch v (BExit True) (BExit False)) })"

primrec build :: "('m, 'u) solvers \<Rightarrow> nat \<Rightarrow> ('m, 'u) build_expr \<times> ('m, 'u) build_bool" where
  "build S 0 = (\<lambda>m e. None, \<lambda>m e. None)"
| "build S (Suc n) = (BuildExprEvaluator_body S (fst (build S n)) (snd (build S n)), BuildBooleanEvaluator_body S (fst (build S n)) (snd (build S n)))"

subsection \<open>Running the code\<close>

primrec lwidth :: "'u lval \<Rightarrow> nat" where
  "lwidth (LConst w v) = w"
| "lwidth (LNot a) = lwidth a"
| "lwidth (LZExt a w) = w"
| "lwidth (LSExt a w) = w"
| "lwidth (LTrunc a w) = w"
| "lwidth (LCmp k a b) = 1"
| "lwidth (LBin k a b) = lwidth a"
| "lwidth (LSelect c a b) = lwidth a"
| "lwidth (LPhi f a b) = lwidth a"
| "lwidth (LRead e) = getWidth e"

text \<open>The instructions of LLVM differ from the operations on constants where they have no defined result:
  shifts by the width or more, division by zero, and the overflow of a signed division.\<close>

definition lop :: "Kind \<Rightarrow> nat \<Rightarrow> int \<Rightarrow> int \<Rightarrow> int option" where
  "lop k w a b =
     (if k \<in> {Shl, LShr, AShr} \<and> b \<ge> int w then None
      else if k \<in> {SDiv, SRem} \<and> as_signed w a = - (2 ^ (w - 1)) \<and> as_signed w b = -1 then None
      else ap_op k w a b)"

primrec leval :: "('u \<Rightarrow> int \<Rightarrow> int) \<Rightarrow> (string \<Rightarrow> int) \<Rightarrow> 'u lval \<Rightarrow> int option"
  and brun :: "('u \<Rightarrow> int \<Rightarrow> int) \<Rightarrow> (string \<Rightarrow> int) \<Rightarrow> 'u bflow \<Rightarrow> bool option" where
  "leval rd q (LConst w v) = Some v"
| "leval rd q (LNot a) = do { x \<leftarrow> leval rd q a; Some (mask (lwidth a) - x) }"
| "leval rd q (LZExt a w) = leval rd q a"
| "leval rd q (LSExt a w) = do { x \<leftarrow> leval rd q a; Some (take_bit w (as_signed (lwidth a) x)) }"
| "leval rd q (LTrunc a w) = do { x \<leftarrow> leval rd q a; Some (take_bit w x) }"
| "leval rd q (LCmp k a b) = do { x \<leftarrow> leval rd q a; y \<leftarrow> leval rd q b; ap_op k (lwidth a) x y }"
| "leval rd q (LBin k a b) = do { x \<leftarrow> leval rd q a; y \<leftarrow> leval rd q b; lop k (lwidth a) x y }"
| "leval rd q (LSelect c a b) = do { z \<leftarrow> leval rd q c; x \<leftarrow> leval rd q a; y \<leftarrow> leval rd q b; Some (if z = 1 then x else y) }"
| "leval rd q (LPhi f a b) = do { c \<leftarrow> brun rd q f; if c then leval rd q a else leval rd q b }"
| "leval rd q (LRead e) = eval rd q e"
| "brun rd q (BExit b) = Some b"
| "brun rd q (BBranch v a b) = do { x \<leftarrow> leval rd q v; if x = 1 then brun rd q a else brun rd q b }"

lemma brun_bseq: "brun rd q (bseq a x y) = do { c \<leftarrow> brun rd q a; if c then brun rd q x else brun rd q y }"
  by (induction a rule: bflow.induct [of "\<lambda>_. True"]) (simp_all split: bind_split)

subsection \<open>The generator is sound\<close>

text \<open>What the code relies on: a constraint that holds in an assignment may be added, simplification under
  constraints that hold keeps the value, and the solver's answers are right where the constraints hold.\<close>

definition sound_solvers ::
  "('m, 'u) solvers \<Rightarrow> ('m \<Rightarrow> ('u \<Rightarrow> int \<Rightarrow> int) \<Rightarrow> (string \<Rightarrow> int) \<Rightarrow> bool) \<Rightarrow> bool" where
  "sound_solvers S holds \<longleftrightarrow>
     (\<forall>m c m' rd q. addConstraint S m c = Some m' \<longrightarrow> holds m rd q \<longrightarrow> eval rd q c = Some 1 \<longrightarrow> holds m' rd q) \<and>
     (\<forall>m e. wfe e \<longrightarrow> wfe (cmSimplify S m e) \<and> getWidth (cmSimplify S m e) = getWidth e) \<and>
     (\<forall>m e rd q v. wfe e \<longrightarrow> holds m rd q \<longrightarrow> eval rd q e = Some v \<longrightarrow> eval rd q (cmSimplify S m e) = Some v) \<and>
     (\<forall>m e rd q v. solverEvaluate S m e = Some VTrue \<longrightarrow> holds m rd q \<longrightarrow> eval rd q e = Some v \<longrightarrow> v = 1) \<and>
     (\<forall>m e rd q v. solverEvaluate S m e = Some VFalse \<longrightarrow> holds m rd q \<longrightarrow> eval rd q e = Some v \<longrightarrow> v = 0) \<and>
     (\<forall>m e. solverMayBeTrue S m e \<noteq> None) \<and>
     (\<forall>m e rd q. solverMayBeTrue S m e = Some False \<longrightarrow> holds m rd q \<longrightarrow> eval rd q e \<noteq> Some 1)"

lemma sound_solversD:
  assumes "sound_solvers S holds"
  shows "addConstraint S m c = Some m' \<Longrightarrow> holds m rd q \<Longrightarrow> eval rd q c = Some 1 \<Longrightarrow> holds m' rd q"
    "wfe e \<Longrightarrow> wfe (cmSimplify S m e)" "wfe e \<Longrightarrow> getWidth (cmSimplify S m e) = getWidth e"
    "wfe e \<Longrightarrow> holds m rd q \<Longrightarrow> eval rd q e = Some v \<Longrightarrow> eval rd q (cmSimplify S m e) = Some v"
    "solverEvaluate S m e = Some VTrue \<Longrightarrow> holds m rd q \<Longrightarrow> eval rd q e = Some v \<Longrightarrow> v = 1"
    "solverEvaluate S m e = Some VFalse \<Longrightarrow> holds m rd q \<Longrightarrow> eval rd q e = Some v \<Longrightarrow> v = 0"
    "solverMayBeTrue S m e \<noteq> Some True \<Longrightarrow> holds m rd q \<Longrightarrow> eval rd q e \<noteq> Some 1"
proof -
  note H1 = iffD1 [OF sound_solvers_def assms]
  note H2 = conjunct2 [OF H1] note H3 = conjunct2 [OF H2] note H4 = conjunct2 [OF H3] note H5 = conjunct2 [OF H4]
  note H6 = conjunct2 [OF H5]
  note H = conjunct1 [OF H1, rule_format] conjunct1 [OF H2, rule_format] conjunct1 [OF H3, rule_format]
    conjunct1 [OF H4, rule_format] conjunct1 [OF H5, rule_format] conjunct1 [OF H6, rule_format] conjunct2 [OF H6, rule_format]
  show "addConstraint S m c = Some m' \<Longrightarrow> holds m rd q \<Longrightarrow> eval rd q c = Some 1 \<Longrightarrow> holds m' rd q" by (rule H(1))
  show "wfe e \<Longrightarrow> wfe (cmSimplify S m e)" "wfe e \<Longrightarrow> getWidth (cmSimplify S m e) = getWidth e" using H(2) by simp_all
  show "wfe e \<Longrightarrow> holds m rd q \<Longrightarrow> eval rd q e = Some v \<Longrightarrow> eval rd q (cmSimplify S m e) = Some v" by (rule H(3))
  show "solverEvaluate S m e = Some VTrue \<Longrightarrow> holds m rd q \<Longrightarrow> eval rd q e = Some v \<Longrightarrow> v = 1" by (rule H(4))
  show "solverEvaluate S m e = Some VFalse \<Longrightarrow> holds m rd q \<Longrightarrow> eval rd q e = Some v \<Longrightarrow> v = 0" by (rule H(5))
  show "eval rd q e \<noteq> Some 1" if "solverMayBeTrue S m e \<noteq> Some True" "holds m rd q"
    using H(6) [of m e] H(7) [of m e rd q] that by (cases "solverMayBeTrue S m e") auto
qed

definition agrees :: "'a option \<Rightarrow> 'a \<Rightarrow> bool" where
  "agrees x v \<longleftrightarrow> x = None \<or> x = Some v"

lemma agreesE: "agrees x v \<Longrightarrow> x = Some u \<Longrightarrow> u = v"
  by (simp add: agrees_def)

lemma agrees_Some [simp]: "agrees (Some u) v \<longleftrightarrow> u = v" "agrees None v"
  by (simp_all add: agrees_def)

lemma agrees_bind: "agrees x u \<Longrightarrow> agrees (f u) v \<Longrightarrow> agrees (Option.bind x f) v"
  by (auto simp: agrees_def)

lemma agrees_lop: "ap_op k w a b = Some v \<Longrightarrow> agrees (lop k w a b) v"
  by (simp add: agrees_def lop_def)

definition sound_expr :: "('m \<Rightarrow> ('u \<Rightarrow> int \<Rightarrow> int) \<Rightarrow> (string \<Rightarrow> int) \<Rightarrow> bool) \<Rightarrow> ('m, 'u) build_expr \<Rightarrow> bool" where
  "sound_expr holds bee \<longleftrightarrow> (\<forall>m e a. bee m e = Some a \<longrightarrow> wfe e \<longrightarrow> lwidth a = getWidth e \<and>
     (\<forall>rd q v. holds m rd q \<longrightarrow> eval rd q e = Some v \<longrightarrow> agrees (leval rd q a) v))"

definition sound_bool :: "('m \<Rightarrow> ('u \<Rightarrow> int \<Rightarrow> int) \<Rightarrow> (string \<Rightarrow> int) \<Rightarrow> bool) \<Rightarrow> ('m, 'u) build_bool \<Rightarrow> bool" where
  "sound_bool holds bbe \<longleftrightarrow> (\<forall>m e a. bbe m e = Some a \<longrightarrow> wfe e \<longrightarrow> getWidth e = 1 \<longrightarrow>
     (\<forall>rd q v. holds m rd q \<longrightarrow> eval rd q e = Some v \<longrightarrow> agrees (brun rd q a) (v = 1)))"

lemma sound_exprD:
  assumes "sound_expr holds bee" "bee m e = Some a" "wfe e"
  shows "lwidth a = getWidth e" "holds m rd q \<Longrightarrow> eval rd q e = Some v \<Longrightarrow> agrees (leval rd q a) v"
  using assms unfolding sound_expr_def by blast+

lemma sound_boolD:
  "sound_bool holds bbe \<Longrightarrow> bbe m e = Some a \<Longrightarrow> wfe e \<Longrightarrow> getWidth e = 1 \<Longrightarrow> holds m rd q \<Longrightarrow> eval rd q e = Some v \<Longrightarrow>
     agrees (brun rd q a) (v = 1)"
  unfolding sound_bool_def by blast

lemma cloneTrue_holds:
  assumes "sound_solvers S holds" "cloneTrue S m c = Some m'" "holds m rd q" "eval rd q c = Some 1"
  shows "holds m' rd q"
  by (rule sound_solversD(1) [OF assms(1), OF assms(2) [unfolded cloneTrue_def] assms(3,4)])

lemma isZero_value:
  assumes "createIsZero mk c = Some z" "wfe c" "eval rd q c = Some v"
  shows "eval rd q z = Some (of_bool (v = 0))"
proof -
  obtain z' where z: "createIsZero mk c = Some z'" "implements Eq c (ConstantExpr (getWidth c) 0) z'"
    using mk_isZero [OF assms(2)] by blast
  have "eval rd q (BinaryExpr Eq c (ConstantExpr (getWidth c) 0)) = Some (of_bool (v = 0))" using assms(3) by simp
  then show ?thesis using z assms(1) implements_eval [OF z(2)] by simp
qed

lemma cloneFalse_holds:
  assumes "sound_solvers S holds" "cloneFalse S m c = Some m'" "wfe c" "holds m rd q" "eval rd q c = Some 0"
  shows "holds m' rd q"
proof -
  obtain z where z: "createIsZero mk c = Some z" "addConstraint S m z = Some m'" using assms(2) by (auto simp: cloneFalse_def)
  have "eval rd q z = Some 1" using isZero_value [OF z(1) assms(3,5)] by simp
  with assms(1) z(2) assms(4) show ?thesis by (rule sound_solversD(1))
qed

lemma checkValidity_sound:
  assumes "sound_solvers S holds" "holds m rd q" "eval rd q c = Some v"
  shows "checkValidity S m c = VTrue \<Longrightarrow> v = 1" "checkValidity S m c = VFalse \<Longrightarrow> v = 0"
  using sound_solversD(5,6) [OF assms(1), OF _ assms(2,3)] unfolding checkValidity_def by (auto split: option.splits)

lemma agrees_bin:
  assumes "agrees x a" "agrees y b" "ap_op k w a b = Some v"
  shows "agrees (do { u \<leftarrow> x; u' \<leftarrow> y; lop k w u u' }) v" "agrees (do { u \<leftarrow> x; u' \<leftarrow> y; ap_op k w u u' }) v"
  using assms agrees_lop [OF assms(3)] by (auto simp: agrees_def)

lemma agrees_if: "agrees x c \<Longrightarrow> (c \<Longrightarrow> agrees y v) \<Longrightarrow> (\<not> c \<Longrightarrow> agrees z v) \<Longrightarrow> agrees (do { b \<leftarrow> x; if b then y else z }) v"
  by (auto simp: agrees_def)

lemma shift_left_value:
  assumes "fits wl a" "fits wr b"
  shows "ap_op Shl (wl + wr) a (int wr) = Some (push_bit wr a)" "ap_op Or (wl + wr) (push_bit wr a) b = Some (push_bit wr a + b)"
proof -
  have "take_bit (wl + wr) (push_bit wr a) = push_bit wr (take_bit wl a)" by (simp add: push_bit_take_bit add.commute)
  then show "ap_op Shl (wl + wr) a (int wr) = Some (push_bit wr a)" using assms(1) by (simp add: ap_shift_def)
  show "ap_op Or (wl + wr) (push_bit wr a) b = Some (push_bit wr a + b)" using concat_bits [OF assms(2)] by simp
qed

lemma concat_code:
  assumes "sound_expr holds bee" "bee m l = Some a" "bee m r = Some b" "wfe l" "wfe r" "holds m rd q" "eval rd q (ConcatExpr l r) = Some v"
  shows "agrees (leval rd q (LBin Or (LBin Shl (LZExt a (getWidth l + getWidth r)) (LConst (getWidth l + getWidth r) (int (getWidth r))))
    (LZExt b (getWidth l + getWidth r)))) v"
proof -
  obtain x y where x: "eval rd q l = Some x" "eval rd q r = Some y" "v = push_bit (getWidth r) x + y" using assms(7) by auto
  note sh = shift_left_value [OF eval_fits [OF assms(4) x(1)] eval_fits [OF assms(5) x(2)]]
  note a = sound_exprD(2) [OF assms(1), OF assms(2,4,6) x(1)] and b = sound_exprD(2) [OF assms(1), OF assms(3,5,6) x(2)]
  have "agrees (leval rd q (LBin Shl (LZExt a (getWidth l + getWidth r)) (LConst (getWidth l + getWidth r) (int (getWidth r))))) (push_bit (getWidth r) x)"
    using agrees_bin(1) [OF a _ sh(1), of "Some (int (getWidth r))"] by simp
  from agrees_bin(1) [OF this b sh(2)] show ?thesis using x(3) by simp
qed

lemma extract_code:
  assumes "sound_expr holds bee" "bee m x = Some a" "wfe (ExtractExpr x off w)" "holds m rd q" "eval rd q (ExtractExpr x off w) = Some v"
  shows "agrees (leval rd q (LTrunc (if off > 0 then LBin LShr a (LConst (getWidth x) (int off)) else a) w)) v"
proof -
  obtain y where y: "eval rd q x = Some y" "v = take_bit w (drop_bit off y)" using assms(5) by auto
  have x: "wfe x" "off < getWidth x" using assms(3) by auto
  note a = sound_exprD(2) [OF assms(1), OF assms(2) x(1) assms(4) y(1)] and w = sound_exprD(1) [OF assms(1), OF assms(2) x(1)]
  have "ap_op LShr (getWidth x) y (int off) = Some (drop_bit off y)" using x(2) by (simp add: ap_shift_def)
  from agrees_bin(1) [OF a _ this, of "Some (int off)"]
  have "agrees (leval rd q (LBin LShr a (LConst (getWidth x) (int off)))) (drop_bit off y)" using w by simp
  then have "agrees (leval rd q (if off > 0 then LBin LShr a (LConst (getWidth x) (int off)) else a)) (drop_bit off y)"
    using a by simp
  from agrees_bind [OF this, of "\<lambda>x. Some (take_bit w x)" v] show ?thesis using y(2) by simp
qed

lemma select_code:
  assumes "sound_solvers S holds" "sound_expr holds bee" "sound_bool holds bbe"
    "bbe m c = Some b" "cloneTrue S m c = Some mt" "bee mt t = Some x" "cloneFalse S m c = Some mf" "bee mf f = Some y"
    "wfe (SelectExpr c t f)" "holds m rd q" "eval rd q (SelectExpr c t f) = Some v"
  shows "agrees (leval rd q (LPhi b x y)) v"
proof -
  have w: "wfe c" "wfe t" "wfe f" "getWidth c = 1" using assms(9) by auto
  obtain k p r where k: "eval rd q c = Some k" "eval rd q t = Some p" "eval rd q f = Some r" "v = (if k = 1 then p else r)"
    by (rule eval_SelectE [OF assms(11)])
  have bool: "k = 0 \<or> k = 1" by (rule eval_bool [OF w(1,4) k(1)])
  show ?thesis
    unfolding leval.simps
  proof (rule agrees_if [OF sound_boolD [OF assms(3), OF assms(4) w(1,4) assms(10) k(1)]])
    assume 1: "k = 1"
    then have "eval rd q c = Some 1" using k(1) by simp
    from cloneTrue_holds [OF assms(1), OF assms(5,10) this] have "holds mt rd q" .
    from sound_exprD(2) [OF assms(2), OF assms(6) w(2) this k(2)] show "agrees (leval rd q x) v" using 1 k(4) by simp
  next
    assume 0: "k \<noteq> 1"
    then have "eval rd q c = Some 0" using k(1) bool by simp
    from cloneFalse_holds [OF assms(1), OF assms(7) w(1) assms(10) this] have "holds mf rd q" .
    from sound_exprD(2) [OF assms(2), OF assms(8) w(3) this k(3)] show "agrees (leval rd q y) v" using 0 k(4) by simp
  qed
qed

lemma sound_exprI:
  assumes "\<And>m e a. bee m e = Some a \<Longrightarrow> wfe e \<Longrightarrow> lwidth a = getWidth e"
    "\<And>m e a rd q v. bee m e = Some a \<Longrightarrow> wfe e \<Longrightarrow> holds m rd q \<Longrightarrow> eval rd q e = Some v \<Longrightarrow> agrees (leval rd q a) v"
  shows "sound_expr holds bee"
  using assms unfolding sound_expr_def by blast

lemma implies_select:
  assumes "wfe (BinaryExpr Implies l r)"
  obtains s where "ImpliesExpr_simplify l r = Some s" "refines (BinaryExpr Implies l r) s 1"
proof -
  have w: "wfe l" "wfe r" "getWidth l = 1" "getWidth r = 1" using assms by auto
  obtain s where s: "ImpliesExpr_simplify l r = Some s" "refines (SelectExpr l r TrueE) s 1"
    using SelectExpr_create_correct [of l r TrueE] w by (auto simp: ImpliesExpr_simplify_def)
  have "eval rd q s = Some v" if v: "eval rd q (BinaryExpr Implies l r) = Some v" for rd q v
  proof -
    obtain a b where ab: "eval rd q l = Some a" "eval rd q r = Some b" "v = of_bool (a = 1 \<longrightarrow> b = 1)" using v by auto
    have "b = 0 \<or> b = 1" by (rule eval_bool [OF w(2,4) ab(2)])
    then have "eval rd q (SelectExpr l r TrueE) = Some v" using ab by auto
    then show ?thesis using s(2) by (simp add: refines_def)
  qed
  then have "refines (BinaryExpr Implies l r) s 1" using s(2) by (auto simp: refines_def)
  then show ?thesis using s(1) that by blast
qed

lemma body_Binary:
  assumes "BuildExprEvaluator_body S bee bbe m (BinaryExpr k l r) = Some a" "k \<noteq> Implies"
  obtains x y where "bee m l = Some x" "bee m r = Some y" "a = (if is_cmp k then LCmp k x y else LBin k x y)"
  using assms by (cases "is_cmp k") (auto simp: BuildExprEvaluator_body_def)

lemma body_Implies:
  assumes "BuildExprEvaluator_body S bee bbe m (BinaryExpr Implies l r) = Some a" "wfe (BinaryExpr Implies l r)"
  obtains s where "bee m s = Some a" "refines (BinaryExpr Implies l r) s 1"
proof -
  obtain s where s: "ImpliesExpr_simplify l r = Some s" "refines (BinaryExpr Implies l r) s 1"
    by (rule implies_select [OF assms(2)])
  moreover have "bee m s = Some a" using assms(1) s(1) by (simp add: BuildExprEvaluator_body_def)
  ultimately show ?thesis using that by blast
qed

lemma body_Select:
  assumes "BuildExprEvaluator_body S bee bbe m (SelectExpr c t f) = Some a"
  obtains (const) x y z where "bee m c = Some x" "bee m t = Some y" "bee m f = Some z" "a = LSelect x y z"
  | (true) "checkValidity S m c = VTrue" "bee m t = Some a"
  | (false) "checkValidity S m c = VFalse" "bee m f = Some a"
  | (phi) b mt x mf y where "bbe m c = Some b" "cloneTrue S m c = Some mt" "bee mt t = Some x" "cloneFalse S m c = Some mf"
      "bee mf f = Some y" "a = LPhi b x y"
proof (cases "is_const t \<and> is_const f")
  case True
  then show ?thesis using assms const by (auto simp: BuildExprEvaluator_body_def)
next
  case False
  then show ?thesis
    using assms true false phi by (cases "checkValidity S m c") (auto simp: BuildExprEvaluator_body_def)
qed

lemma body_Concat:
  assumes "BuildExprEvaluator_body S bee bbe m (ConcatExpr l r) = Some a"
  obtains (read) "a = LRead (ConcatExpr l r)"
  | (shift) x y where "bee m l = Some x" "bee m r = Some y" "a = LBin Or (LBin Shl (LZExt x (getWidth l + getWidth r))
      (LConst (getWidth l + getWidth r) (int (getWidth r)))) (LZExt y (getWidth l + getWidth r))"
  using assms by (auto simp: BuildExprEvaluator_body_def Let_def split: if_splits)

lemma body_unary:
  "BuildExprEvaluator_body S bee bbe m (NotExpr e) = Some a \<Longrightarrow> \<exists>x. bee m e = Some x \<and> a = LNot x"
  "BuildExprEvaluator_body S bee bbe m (ZExtExpr e w) = Some a \<Longrightarrow> \<exists>x. bee m e = Some x \<and> a = LZExt x w"
  "BuildExprEvaluator_body S bee bbe m (SExtExpr e w) = Some a \<Longrightarrow> \<exists>x. bee m e = Some x \<and> a = LSExt x w"
  "BuildExprEvaluator_body S bee bbe m (ExtractExpr e off w) = Some a \<Longrightarrow> \<exists>x. bee m e = Some x \<and>
     a = LTrunc (if off > 0 then LBin LShr x (LConst (getWidth e) (int off)) else x) w"
  "BuildExprEvaluator_body S bee bbe m (ConstantExpr w c) = Some a \<Longrightarrow> a = LConst w c"
  "BuildExprEvaluator_body S bee bbe m (ReadExpr u e) = Some a \<Longrightarrow> a = LRead (ReadExpr u e)"
  by (auto simp: BuildExprEvaluator_body_def split: if_splits)

lemma BuildExprEvaluator_width:
  assumes "sound_expr holds bee" "BuildExprEvaluator_body S bee bbe m e = Some a" "wfe e"
  shows "lwidth a = getWidth e"
proof (cases e)
  case (BinaryExpr k l r)
  note code = assms(2) [unfolded BinaryExpr]
  have w: "wfe l" using assms(3) BinaryExpr by simp
  show ?thesis
  proof (cases "k = Implies")
    case True
    obtain s where "bee m s = Some a" "refines (BinaryExpr Implies l r) s 1"
      using body_Implies [OF code [unfolded True]] assms(3) BinaryExpr True by blast
    then show ?thesis using sound_exprD(1) [OF assms(1)] assms(3) BinaryExpr True by (auto simp: refines_def)
  next
    case False
    obtain x y where "bee m l = Some x" "a = (if is_cmp k then LCmp k x y else LBin k x y)" by (rule body_Binary [OF code False])
    then show ?thesis using sound_exprD(1) [OF assms(1), OF _ w] BinaryExpr by simp
  qed
next
  case (SelectExpr c t f)
  have w: "wfe t" "wfe f" "getWidth t = getWidth f" using assms(3) SelectExpr by auto
  from assms(2) [unfolded SelectExpr] show ?thesis
    by (cases rule: body_Select) (use w SelectExpr sound_exprD(1) [OF assms(1)] in auto)
next
  case (ConcatExpr l r)
  from assms(2) [unfolded ConcatExpr] show ?thesis by (cases rule: body_Concat) (use ConcatExpr in simp_all)
next
  case (NotExpr x)
  then show ?thesis using body_unary(1) assms(2,3) sound_exprD(1) [OF assms(1)] by fastforce
qed (use assms(2) body_unary in \<open>fastforce simp: BuildExprEvaluator_body_def\<close>)+

lemma select_value:
  assumes "sound_solvers S holds" "sound_expr holds bee" "sound_bool holds bbe"
    "BuildExprEvaluator_body S bee bbe m (SelectExpr c t f) = Some a" "wfe (SelectExpr c t f)" "holds m rd q" "eval rd q (SelectExpr c t f) = Some v"
  shows "agrees (leval rd q a) v"
proof -
  have w: "wfe c" "wfe t" "wfe f" using assms(5) by auto
  obtain k p r where k: "eval rd q c = Some k" "eval rd q t = Some p" "eval rd q f = Some r" "v = (if k = 1 then p else r)"
    by (rule eval_SelectE [OF assms(7)])
  note D = sound_exprD(2) [OF assms(2)]
  from assms(4) show ?thesis
  proof (cases rule: body_Select)
    case (const x y z)
    then show ?thesis
      using D [OF const(1) w(1) assms(6) k(1)] D [OF const(2) w(2) assms(6) k(2)] D [OF const(3) w(3) assms(6) k(3)] k(4)
      by (auto simp: agrees_def)
  next
    case true
    then show ?thesis using D [OF true(2) w(2) assms(6) k(2)] checkValidity_sound(1) [OF assms(1), OF assms(6) k(1)] k(4) by simp
  next
    case false
    then show ?thesis using D [OF false(2) w(3) assms(6) k(3)] checkValidity_sound(2) [OF assms(1), OF assms(6) k(1)] k(4) by simp
  next
    case (phi b mt x mf y)
    then show ?thesis using select_code [OF assms(1), OF assms(2), OF assms(3), OF phi(1-5) assms(5-7)] by simp
  qed
qed

lemma binary_value:
  assumes "sound_expr holds bee" "BuildExprEvaluator_body S bee bbe m (BinaryExpr k l r) = Some a" "wfe (BinaryExpr k l r)"
    "holds m rd q" "eval rd q (BinaryExpr k l r) = Some v"
  shows "agrees (leval rd q a) v"
proof (cases "k = Implies")
  case True
  obtain s where s: "bee m s = Some a" "refines (BinaryExpr Implies l r) s 1"
    by (rule body_Implies [OF assms(2,3) [unfolded True]])
  have "eval rd q s = Some v" using refinesD(3) [OF s(2)] assms(5) True by simp
  from sound_exprD(2) [OF assms(1), OF s(1) refinesD(1) [OF s(2)] assms(4) this] show ?thesis .
next
  case False
  obtain x y where xy: "bee m l = Some x" "bee m r = Some y" "a = (if is_cmp k then LCmp k x y else LBin k x y)"
    by (rule body_Binary [OF assms(2) False])
  obtain p r' where v: "eval rd q l = Some p" "eval rd q r = Some r'" "ap_op k (getWidth l) p r' = Some v" using assms(5) by auto
  have w: "wfe l" "wfe r" using assms(3) by auto
  from agrees_bin [OF sound_exprD(2) [OF assms(1), OF xy(1) w(1) assms(4) v(1)] sound_exprD(2) [OF assms(1), OF xy(2) w(2) assms(4) v(2)] v(3)]
  show ?thesis using xy(3) sound_exprD(1) [OF assms(1), OF xy(1) w(1)] by simp
qed

lemma unary_value:
  assumes "sound_expr holds bee" "bee m x = Some b" "wfe x" "holds m rd q" "eval rd q x = Some y"
  shows "agrees (leval rd q (LNot b)) (mask (getWidth x) - y)" "agrees (leval rd q (LZExt b w)) y"
    "agrees (leval rd q (LSExt b w)) (take_bit w (as_signed (getWidth x) y))"
  using sound_exprD(2) [OF assms(1), OF assms(2-5)] sound_exprD(1) [OF assms(1), OF assms(2,3)] by (auto simp: agrees_def)

lemma BuildExprEvaluator_value:
  assumes "sound_solvers S holds" "sound_expr holds bee" "sound_bool holds bbe"
    "BuildExprEvaluator_body S bee bbe m e = Some a" "wfe e" "holds m rd q" "eval rd q e = Some v"
  shows "agrees (leval rd q a) v"
proof (cases e)
  case (BinaryExpr k l r)
  from assms(2) assms(4,5) [unfolded BinaryExpr] assms(6) assms(7) [unfolded BinaryExpr] show ?thesis by (rule binary_value)
next
  case (SelectExpr c t f)
  from assms(1-3) assms(4,5) [unfolded SelectExpr] assms(6) assms(7) [unfolded SelectExpr] show ?thesis by (rule select_value)
next
  case (ConcatExpr l r)
  have w: "wfe l" "wfe r" using assms(5) ConcatExpr by auto
  from assms(4) [unfolded ConcatExpr] show ?thesis
  proof (cases rule: body_Concat)
    case (shift x y)
    then show ?thesis using concat_code [OF assms(2), OF shift(1,2) w assms(6) assms(7) [unfolded ConcatExpr]] by simp
  qed (use assms(7) ConcatExpr in simp)
next
  case (ExtractExpr x off w)
  obtain b where b: "bee m x = Some b" "a = LTrunc (if off > 0 then LBin LShr b (LConst (getWidth x) (int off)) else b) w"
    using body_unary(4) [OF assms(4) [unfolded ExtractExpr]] by blast
  from extract_code [OF assms(2), OF b(1) assms(5) [unfolded ExtractExpr] assms(6) assms(7) [unfolded ExtractExpr]] show ?thesis using b(2) by simp
next
  case (NotExpr x)
  obtain b where b: "bee m x = Some b" "a = LNot b" using body_unary(1) [OF assms(4) [unfolded NotExpr]] by blast
  obtain y where y: "eval rd q x = Some y" "v = mask (getWidth x) - y" using assms(7) NotExpr by auto
  have "wfe x" using assms(5) NotExpr by simp
  from unary_value(1) [OF assms(2), OF b(1) this assms(6) y(1)] show ?thesis unfolding b(2) y(2) .
next
  case (ZExtExpr x w)
  obtain b where b: "bee m x = Some b" "a = LZExt b w" using body_unary(2) [OF assms(4) [unfolded ZExtExpr]] by blast
  have y: "wfe x" "eval rd q x = Some v" using assms(5,7) ZExtExpr by simp_all
  from unary_value(2) [OF assms(2), OF b(1) y(1) assms(6) y(2)] show ?thesis unfolding b(2) .
next
  case (SExtExpr x w)
  obtain b where b: "bee m x = Some b" "a = LSExt b w" using body_unary(3) [OF assms(4) [unfolded SExtExpr]] by blast
  obtain y where y: "eval rd q x = Some y" "v = take_bit w (as_signed (getWidth x) y)" using assms(7) SExtExpr by auto
  have "wfe x" using assms(5) SExtExpr by simp
  from unary_value(3) [OF assms(2), OF b(1) this assms(6) y(1)] show ?thesis unfolding b(2) y(2) .
next
  case (ConstantExpr w c)
  then show ?thesis using body_unary(5) assms(4,7) by fastforce
next
  case (ReadExpr u i)
  then show ?thesis using body_unary(6) assms(4,7) by fastforce
qed (use assms(4) in \<open>simp_all add: BuildExprEvaluator_body_def\<close>)

lemma branch_value:
  assumes "agrees (leval rd q a) v"
  shows "agrees (brun rd q (BBranch a (BExit True) (BExit False))) (v = 1)"
  using assms by (cases "v = 1") (auto simp: agrees_def)

lemma leaf_value:
  assumes "sound_solvers S holds" "sound_expr holds bee" "boolean_leaf S bee m e = Some b" "wfe e" "getWidth e = 1" "holds m rd q"
    "eval rd q e = Some v"
  shows "agrees (brun rd q b) (v = 1)"
proof -
  define s where "s = cmSimplify S m e"
  have s: "wfe s" "eval rd q s = Some v"
    using sound_solversD(2,4) [OF assms(1)] assms(4,6,7) by (simp_all add: s_def)
  define e' where "e' = (case checkValidity S m s of VTrue \<Rightarrow> TrueE | VFalse \<Rightarrow> FalseE | VUnknown \<Rightarrow> s)"
  have e': "wfe e' \<and> eval rd q e' = Some v"
    using checkValidity_sound [OF assms(1), OF assms(6) s(2)] s by (cases "checkValidity S m s") (simp_all add: e'_def)
  obtain a where a: "bee m e' = Some a" "b = BBranch a (BExit True) (BExit False)"
    using assms(3) unfolding boolean_leaf_def Let_def s_def [symmetric] e'_def [symmetric] by auto
  have "agrees (leval rd q a) v" by (rule sound_exprD(2) [OF assms(2), OF a(1) conjunct1 [OF e'] assms(6) conjunct2 [OF e']])
  from branch_value [OF this] show ?thesis unfolding a(2) .
qed

lemma body_And:
  assumes "BuildBooleanEvaluator_body S bee bbe m (BinaryExpr And l r) = Some b" "getWidth l = 1"
  obtains (true) "checkValidity S m l = VTrue" "bbe m r = Some b"
  | (false) "checkValidity S m l = VFalse" "bbe m FalseE = Some b"
  | (both) x m' y where "bbe m l = Some x" "cloneTrue S m l = Some m'" "bbe m' r = Some y" "b = bseq x y (BExit False)"
  using assms by (cases "checkValidity S m l") (auto simp: BuildBooleanEvaluator_body_def)

lemma body_Or:
  assumes "BuildBooleanEvaluator_body S bee bbe m (BinaryExpr Or l r) = Some b" "getWidth l = 1"
  obtains (true) "checkValidity S m l = VTrue" "bbe m TrueE = Some b"
  | (false) "checkValidity S m l = VFalse" "bbe m r = Some b"
  | (both) x m' y where "cloneFalse S m l = Some m'" "bbe m l = Some x" "bbe m' r = Some y" "b = bseq x (BExit True) y"
  using assms by (cases "checkValidity S m l") (auto simp: BuildBooleanEvaluator_body_def)

lemma and_value:
  assumes "sound_solvers S holds" "sound_bool holds bbe" "BuildBooleanEvaluator_body S bee bbe m (BinaryExpr And l r) = Some b"
    "wfe (BinaryExpr And l r)" "getWidth l = 1" "holds m rd q" "eval rd q (BinaryExpr And l r) = Some v"
  shows "agrees (brun rd q b) (v = 1)"
proof -
  have w: "wfe l" "wfe r" "getWidth r = 1" using assms(4,5) by auto
  obtain x y where x: "eval rd q l = Some x" "eval rd q r = Some y" "v = x AND y" using assms(7) by auto
  have bool: "x = 0 \<or> x = 1" "y = 0 \<or> y = 1" by (rule eval_bool [OF w(1) assms(5) x(1)], rule eval_bool [OF w(2,3) x(2)])
  note D = sound_boolD [OF assms(2)]
  from assms(3,5) show ?thesis
  proof (cases rule: body_And)
    case true
    then have "v = y" using checkValidity_sound(1) [OF assms(1), OF assms(6) x(1)] x(3) bool by auto
    then show ?thesis using D [OF true(2) w(2,3) assms(6) x(2)] by simp
  next
    case false
    then have "v = 0" using checkValidity_sound(2) [OF assms(1), OF assms(6) x(1)] x(3) by simp
    moreover have "agrees (brun rd q b) ((0 :: int) = 1)" by (rule D [OF false(2) _ _ assms(6)]) simp_all
    ultimately show ?thesis by simp
  next
    case (both p m' p')
    show ?thesis
      unfolding both(4) brun_bseq
    proof (rule agrees_if [OF D [OF both(1) w(1) assms(5,6) x(1)]])
      assume 1: "x = 1"
      then have "eval rd q l = Some 1" using x(1) by simp
      from cloneTrue_holds [OF assms(1), OF both(2) assms(6) this] have h: "holds m' rd q" .
      have "v = y" using x(3) bool 1 by auto
      then show "agrees (brun rd q p') (v = 1)" using D [OF both(3) w(2,3) h x(2)] by simp
    next
      assume "x \<noteq> 1"
      then show "agrees (brun rd q (BExit False)) (v = 1)" using bool x(3) by auto
    qed
  qed
qed

lemma or_value:
  assumes "sound_solvers S holds" "sound_bool holds bbe" "BuildBooleanEvaluator_body S bee bbe m (BinaryExpr Or l r) = Some b"
    "wfe (BinaryExpr Or l r)" "getWidth l = 1" "holds m rd q" "eval rd q (BinaryExpr Or l r) = Some v"
  shows "agrees (brun rd q b) (v = 1)"
proof -
  have w: "wfe l" "wfe r" "getWidth r = 1" using assms(4,5) by auto
  obtain x y where x: "eval rd q l = Some x" "eval rd q r = Some y" "v = x OR y" using assms(7) by auto
  have bool: "x = 0 \<or> x = 1" "y = 0 \<or> y = 1" by (rule eval_bool [OF w(1) assms(5) x(1)], rule eval_bool [OF w(2,3) x(2)])
  note D = sound_boolD [OF assms(2)]
  from assms(3,5) show ?thesis
  proof (cases rule: body_Or)
    case true
    then have "v = 1" using checkValidity_sound(1) [OF assms(1), OF assms(6) x(1)] x(3) bool by auto
    moreover have "agrees (brun rd q b) ((1 :: int) = 1)" by (rule D [OF true(2) _ _ assms(6)]) simp_all
    ultimately show ?thesis by simp
  next
    case false
    then have "v = y" using checkValidity_sound(2) [OF assms(1), OF assms(6) x(1)] x(3) by simp
    then show ?thesis using D [OF false(2) w(2,3) assms(6) x(2)] by simp
  next
    case (both p m' p')
    show ?thesis
      unfolding both(4) brun_bseq
    proof (rule agrees_if [OF D [OF both(2) w(1) assms(5,6) x(1)]])
      assume "x = 1"
      then show "agrees (brun rd q (BExit True)) (v = 1)" using bool x(3) by auto
    next
      assume "x \<noteq> 1"
      then have 0: "x = 0" "eval rd q l = Some 0" using bool x(1) by simp_all
      from cloneFalse_holds [OF assms(1), OF both(1) w(1) assms(6) 0(2)] have h: "holds m' rd q" .
      have "v = y" using x(3) 0(1) by simp
      then show "agrees (brun rd q p') (v = 1)" using D [OF both(3) w(2,3) h x(2)] by simp
    qed
  qed
qed

lemma BuildBooleanEvaluator_value:
  assumes "sound_solvers S holds" "sound_expr holds bee" "sound_bool holds bbe" "BuildBooleanEvaluator_body S bee bbe m e = Some b"
    "wfe e" "getWidth e = 1" "holds m rd q" "eval rd q e = Some v"
  shows "agrees (brun rd q b) (v = 1)"
proof -
  consider (both) l r where "e = BinaryExpr And l r" | (any) l r where "e = BinaryExpr Or l r" | (leaf) "boolean_leaf S bee m e = Some b"
    using assms(4,6) unfolding BuildBooleanEvaluator_body_def by (auto split: expr.splits Kind.splits)
  then show ?thesis
  proof cases
    case both
    have "getWidth l = 1" using assms(6) both by simp
    from assms(1,3) assms(4,5) [unfolded both] this assms(7) assms(8) [unfolded both] show ?thesis by (rule and_value)
  next
    case any
    have "getWidth l = 1" using assms(6) any by simp
    from assms(1,3) assms(4,5) [unfolded any] this assms(7) assms(8) [unfolded any] show ?thesis by (rule or_value)
  next
    case leaf
    from assms(1,2) leaf assms(5-8) show ?thesis by (rule leaf_value)
  qed
qed

lemma build_sound:
  assumes "sound_solvers S holds"
  shows "sound_expr holds (fst (build S n)) \<and> sound_bool holds (snd (build S n))"
proof (induction n)
  case 0
  then show ?case by (simp add: sound_expr_def sound_bool_def)
next
  case (Suc n)
  have "sound_expr holds (BuildExprEvaluator_body S (fst (build S n)) (snd (build S n)))"
    by (rule sound_exprI) (erule (1) BuildExprEvaluator_width [OF conjunct1 [OF Suc]],
      erule (3) BuildExprEvaluator_value [OF assms conjunct1 [OF Suc] conjunct2 [OF Suc]])
  moreover have "sound_bool holds (BuildBooleanEvaluator_body S (fst (build S n)) (snd (build S n)))"
    unfolding sound_bool_def
    using BuildBooleanEvaluator_value [OF assms conjunct1 [OF Suc] conjunct2 [OF Suc]] by blast
  ultimately show ?case by simp
qed

end
