(* ===== verification/Selector_Defined.thy ===== *)
theory Selector_Defined
  imports Selector_Code
begin

text \<open>
  Expressions without shifts and divisions: the emitted code for them always has a value. For other
  expressions the instructions of LLVM may be undefined where the operations on constants are defined.
\<close>

definition plain_kind :: "Kind \<Rightarrow> bool" where
  "plain_kind k \<longleftrightarrow> is_cmp k \<or> k \<in> {Add, Sub, Mul, And, Or, Xor}"

fun plain :: "'u expr \<Rightarrow> bool" where
  "plain (ConstantExpr w v) = True"
| "plain (ReadExpr u i) = plain i"
| "plain (SelectExpr c t f) \<longleftrightarrow> plain c \<and> plain t \<and> plain f"
| "plain (ConcatExpr l r) \<longleftrightarrow> plain l \<and> plain r"
| "plain (ExtractExpr e off w) = plain e"
| "plain (ZExtExpr e w) = plain e"
| "plain (SExtExpr e w) = plain e"
| "plain (NotExpr e) = plain e"
| "plain (BinaryExpr k l r) \<longleftrightarrow> plain_kind k \<and> plain l \<and> plain r"
| "plain _ = False"

lemma plain_op: "plain_kind k \<Longrightarrow> ap_op k w a b \<noteq> None" "plain_kind k \<Longrightarrow> lop k w a b \<noteq> None"
  by (cases k; simp add: plain_kind_def lop_def)+

lemma bind_None [simp]: "(Option.bind x f \<noteq> None) \<longleftrightarrow> (\<exists>v. x = Some v \<and> f v \<noteq> None)"
  by (cases x) simp_all

lemma plain_value: "plain e \<Longrightarrow> eval rd q e \<noteq> None"
proof (induction e rule: plain.induct)
  case (9 k l r)
  then obtain x y where "eval rd q l = Some x" "eval rd q r = Some y" by auto
  then show ?case using 9 plain_op(1) [of k] by simp
qed auto

lemma case_not_const: "\<not> is_const l \<Longrightarrow> (case l of ConstantExpr w a \<Rightarrow> f w a | _ \<Rightarrow> x) = x"
  by (cases l) simp_all

lemma scan_terms_result: "scan_terms l r stop ts = Some e \<Longrightarrow> e = r \<or> e = stop"
  by (induction ts) (auto split: if_splits)

lemma plain_partial: "AndExpr_createPartial y w c = Some x \<Longrightarrow> plain y \<Longrightarrow> plain x"
  by (auto simp: AndExpr_createPartial_def plain_kind_def split: if_splits)

lemma plain_And:
  assumes "plain l" "plain r" "create n And l r = Some e"
  shows "plain e"
  using assms
proof (induction n arbitrary: l r e)
  case (Suc n)
  have gen: "plain e" if c: "AndExpr_create (create n) l r = Some e"
  proof (cases "\<exists>a b. l = BinaryExpr And a b")
    case True
    then obtain a b where l: "l = BinaryExpr And a b" by blast
    then obtain x where x: "create n And b r = Some x" "create n And a x = Some e" using c by (auto simp: AndExpr_create_def)
    have ab: "plain a" "plain b" using Suc.prems(1) l by simp_all
    show ?thesis by (rule Suc.IH [OF ab(1) Suc.IH [OF ab(2) Suc.prems(2) x(1)] x(2)])
  next
    case False
    then have "AndExpr_create (create n) l r = (case (if getWidth l = 1 then scan_terms l r FalseE (nary And r) else None) of
        Some e \<Rightarrow> Some e | None \<Rightarrow> Some (BinaryExpr And l r))"
      unfolding AndExpr_create_def by (simp split: expr.split Kind.split)
    then show ?thesis using c Suc.prems(1,2) scan_terms_result [of l r FalseE "nary And r"]
      by (auto simp: plain_kind_def split: option.splits if_splits)
  qed
  note defs = create_body_def partialR_def partialL_def general_def fold_op_def
  have code: "create_body (create n) And l r = Some e" using Suc.prems(3) by simp
  show ?case
  proof (cases "is_const l")
    case True
    then obtain w v where l: "l = ConstantExpr w v" by (auto simp: is_const_iff)
    show ?thesis
    proof (cases "is_const r")
      case True
      then show ?thesis using code l by (auto simp: is_const_iff defs split: if_splits)
    next
      case False
      then show ?thesis using code l Suc.prems(2) plain_partial [of r w v e] by (simp add: defs case_not_const split: if_splits)
    qed
  next
    case l: False
    show ?thesis
    proof (cases "is_const r")
      case True
      then obtain w v where "r = ConstantExpr w v" by (auto simp: is_const_iff)
      then show ?thesis using code l Suc.prems(1) plain_partial [of l w v e] by (simp add: defs case_not_const split: if_splits)
    next
      case False
      then show ?thesis using code l gen by (simp add: defs case_not_const split: if_splits)
    qed
  qed
qed simp

lemma plain_mk_And: "plain l \<Longrightarrow> plain r \<Longrightarrow> mk And l r = Some e \<Longrightarrow> plain e"
  unfolding mk_def by (rule plain_And)

subsection \<open>Code for plain expressions\<close>

text \<open>Simplification introduces no shift and no division.\<close>

definition plain_solvers :: "('m, 'u) solvers \<Rightarrow> bool" where
  "plain_solvers S \<longleftrightarrow> (\<forall>m e. plain e \<longrightarrow> plain (cmSimplify S m e))"

definition defined_expr :: "('m, 'u) build_expr \<Rightarrow> bool" where
  "defined_expr bee \<longleftrightarrow> (\<forall>m e a rd q. bee m e = Some a \<longrightarrow> wfe e \<longrightarrow> plain e \<longrightarrow> leval rd q a \<noteq> None)"

definition defined_bool :: "('m, 'u) build_bool \<Rightarrow> bool" where
  "defined_bool bbe \<longleftrightarrow> (\<forall>m e b rd q. bbe m e = Some b \<longrightarrow> wfe e \<longrightarrow> plain e \<longrightarrow> brun rd q b \<noteq> None)"

lemma defined_exprD: "defined_expr bee \<Longrightarrow> bee m e = Some a \<Longrightarrow> wfe e \<Longrightarrow> plain e \<Longrightarrow> \<exists>v. leval rd q a = Some v"
  unfolding defined_expr_def by blast

lemma defined_boolD: "defined_bool bbe \<Longrightarrow> bbe m e = Some a \<Longrightarrow> wfe e \<Longrightarrow> plain e \<Longrightarrow> \<exists>v. brun rd q a = Some v"
  unfolding defined_bool_def by blast

lemma select_defined:
  assumes "defined_expr bee" "defined_bool bbe" "BuildExprEvaluator_body S bee bbe m (SelectExpr c t f) = Some a"
    "wfe (SelectExpr c t f)" "plain (SelectExpr c t f)"
  shows "leval rd q a \<noteq> None"
proof -
  have w: "wfe c" "wfe t" "wfe f" "plain c" "plain t" "plain f" using assms(4,5) by auto
  note E = defined_exprD [OF assms(1), of _ _ _ rd q]
  from assms(3) show ?thesis
  proof (cases rule: body_Select)
    case (const x y z)
    then show ?thesis using E [OF const(1) w(1,4)] E [OF const(2) w(2,5)] E [OF const(3) w(3,6)] by auto
  next
    case (phi b mt x mf y)
    then show ?thesis
      using defined_boolD [OF assms(2), OF phi(1) w(1,4), of rd q] E [OF phi(3) w(2,5)] E [OF phi(5) w(3,6)] by auto
  qed (use w E in fastforce)+
qed

lemma binary_defined:
  assumes "defined_expr bee" "BuildExprEvaluator_body S bee bbe m (BinaryExpr k l r) = Some a" "wfe (BinaryExpr k l r)" "plain (BinaryExpr k l r)"
  shows "leval rd q a \<noteq> None"
proof -
  have k: "plain_kind k" "k \<noteq> Implies" "plain l" "plain r" "wfe l" "wfe r" using assms(3,4) by (auto simp: plain_kind_def is_cmp_def)
  obtain x y where xy: "bee m l = Some x" "bee m r = Some y" "a = (if is_cmp k then LCmp k x y else LBin k x y)"
    by (rule body_Binary [OF assms(2) k(2)])
  obtain u v where "leval rd q x = Some u" "leval rd q y = Some v"
    using defined_exprD [OF assms(1), OF xy(1) k(5,3), of rd q] defined_exprD [OF assms(1), OF xy(2) k(6,4), of rd q] by blast
  then show ?thesis using xy(3) plain_op [OF k(1)] by simp
qed

lemma concat_defined:
  assumes "defined_expr bee" "BuildExprEvaluator_body S bee bbe m (ConcatExpr l r) = Some a" "wfe (ConcatExpr l r)" "plain (ConcatExpr l r)"
  shows "leval rd q a \<noteq> None"
  using assms(2)
proof (cases rule: body_Concat)
  case read
  then show ?thesis using plain_value [OF assms(4)] by simp
next
  case (shift x y)
  have w: "wfe l" "wfe r" "plain l" "plain r" "0 < getWidth l" using assms(3,4) wfe_width by auto
  obtain u v where "leval rd q x = Some u" "leval rd q y = Some v"
    using defined_exprD [OF assms(1), OF shift(1) w(1,3), of rd q] defined_exprD [OF assms(1), OF shift(2) w(2,4), of rd q] by blast
  then show ?thesis using shift(3) w(5) by (simp add: lop_def)
qed

lemma extract_defined:
  assumes "sound_expr holds bee" "defined_expr bee" "BuildExprEvaluator_body S bee bbe m (ExtractExpr e off w) = Some a"
    "wfe (ExtractExpr e off w)" "plain (ExtractExpr e off w)"
  shows "leval rd q a \<noteq> None"
proof -
  obtain x where x: "bee m e = Some x" "a = LTrunc (if off > 0 then LBin LShr x (LConst (getWidth e) (int off)) else x) w"
    using body_unary(4) [OF assms(3)] by blast
  have w: "wfe e" "plain e" "off < getWidth e" using assms(4,5) by auto
  have "lwidth x = getWidth e" by (rule sound_exprD(1) [OF assms(1), OF x(1) w(1)])
  moreover obtain v where "leval rd q x = Some v" using defined_exprD [OF assms(2), OF x(1) w(1,2)] by blast
  ultimately show ?thesis using x(2) w(3) by (simp add: lop_def)
qed

lemma BuildExprEvaluator_defined:
  assumes "sound_expr holds bee" "defined_expr bee" "defined_bool bbe" "BuildExprEvaluator_body S bee bbe m e = Some a" "wfe e" "plain e"
  shows "leval rd q a \<noteq> None"
proof (cases e)
  case (BinaryExpr k l r)
  from assms(2) assms(4-6) [unfolded BinaryExpr] show ?thesis by (rule binary_defined)
next
  case (SelectExpr c t f)
  from assms(2,3) assms(4-6) [unfolded SelectExpr] show ?thesis by (rule select_defined)
next
  case (ConcatExpr l r)
  from assms(2) assms(4-6) [unfolded ConcatExpr] show ?thesis by (rule concat_defined)
next
  case (ExtractExpr x off w)
  from assms(1,2) assms(4-6) [unfolded ExtractExpr] show ?thesis by (rule extract_defined)
next
  case (NotExpr x)
  then show ?thesis using body_unary(1) assms(4-6) defined_exprD [OF assms(2), of m x _ rd q] by fastforce
next
  case (ZExtExpr x w)
  then show ?thesis using body_unary(2) assms(4-6) defined_exprD [OF assms(2), of m x _ rd q] by fastforce
next
  case (SExtExpr x w)
  then show ?thesis using body_unary(3) assms(4-6) defined_exprD [OF assms(2), of m x _ rd q] by fastforce
next
  case (ConstantExpr w c)
  then show ?thesis using body_unary(5) assms(4) by fastforce
next
  case (ReadExpr u i)
  then show ?thesis using body_unary(6) assms(4) plain_value [OF assms(6), of rd q] by fastforce
qed (use assms(6) in simp_all)

lemma leaf_defined:
  assumes "sound_solvers S holds" "plain_solvers S" "defined_expr bee" "boolean_leaf S bee m e = Some b" "wfe e" "plain e"
  shows "brun rd q b \<noteq> None"
proof -
  define s where "s = cmSimplify S m e"
  have s: "wfe s" "plain s" using sound_solversD(2) [OF assms(1)] assms(2,5,6) by (simp_all add: s_def plain_solvers_def)
  define e' where "e' = (case checkValidity S m s of VTrue \<Rightarrow> TrueE | VFalse \<Rightarrow> FalseE | VUnknown \<Rightarrow> s)"
  have e': "wfe e'" "plain e'" using s by (cases "checkValidity S m s"; simp add: e'_def)+
  obtain a where a: "bee m e' = Some a" "b = BBranch a (BExit True) (BExit False)"
    using assms(4) unfolding boolean_leaf_def Let_def s_def [symmetric] e'_def [symmetric] by auto
  then show ?thesis using defined_exprD [OF assms(3), OF a(1) e', of rd q] by auto
qed

lemma BuildBooleanEvaluator_defined:
  assumes "sound_solvers S holds" "plain_solvers S" "defined_expr bee" "defined_bool bbe" "BuildBooleanEvaluator_body S bee bbe m e = Some b"
    "wfe e" "plain e"
  shows "brun rd q b \<noteq> None"
proof -
  note D = defined_boolD [OF assms(4), of _ _ _ rd q]
  consider (both) l r where "e = BinaryExpr And l r" "getWidth l = 1" | (any) l r where "e = BinaryExpr Or l r" "getWidth l = 1"
    | (leaf) "boolean_leaf S bee m e = Some b" | (wide) v where "bee m e = Some v" "b = BBranch v (BExit True) (BExit False)"
    using assms(5) unfolding BuildBooleanEvaluator_body_def by (cases "getWidth e = 1") (auto split: expr.splits Kind.splits)
  then show ?thesis
  proof cases
    case both
    then have w: "wfe l" "wfe r" "plain l" "plain r" using assms(6,7) by auto
    from assms(5) [unfolded both(1)] both(2) show ?thesis
    proof (cases rule: body_And)
      case (both x m' y)
      then show ?thesis using D [OF both(1) w(1,3)] D [OF both(3) w(2,4)] by (auto simp: brun_bseq)
    qed (use D w in fastforce)+
  next
    case any
    then have w: "wfe l" "wfe r" "plain l" "plain r" using assms(6,7) by auto
    from assms(5) [unfolded any(1)] any(2) show ?thesis
    proof (cases rule: body_Or)
      case (both x m' y)
      then show ?thesis using D [OF both(2) w(1,3)] D [OF both(3) w(2,4)] by (auto simp: brun_bseq)
    qed (use D w in fastforce)+
  next
    case leaf
    from assms(1-3) leaf assms(6,7) show ?thesis by (rule leaf_defined)
  next
    case wide
    then show ?thesis using defined_exprD [OF assms(3), OF wide(1) assms(6,7), of rd q] by auto
  qed
qed

lemma build_defined:
  assumes "sound_solvers S holds" "plain_solvers S"
  shows "defined_expr (fst (build S n)) \<and> defined_bool (snd (build S n))"
proof (induction n)
  case 0
  then show ?case by (simp add: defined_expr_def defined_bool_def)
next
  case (Suc n)
  note E = BuildExprEvaluator_defined [OF conjunct1 [OF build_sound [OF assms(1)]], of n, OF conjunct1 [OF Suc] conjunct2 [OF Suc]]
  note B = BuildBooleanEvaluator_defined [OF assms(1), OF assms(2) conjunct1 [OF Suc] conjunct2 [OF Suc]]
  have "defined_expr (BuildExprEvaluator_body S (fst (build S n)) (snd (build S n)))" unfolding defined_expr_def using E by blast
  moreover have "defined_bool (BuildBooleanEvaluator_body S (fst (build S n)) (snd (build S n)))" unfolding defined_bool_def using B by blast
  ultimately show ?case by simp
qed

end
