(* ===== verification/Schedule_Selector.thy ===== *)
theory Schedule_Selector
  imports Selector_Defined
begin

text \<open>
  The selector of a schedule tree (\<^verbatim>\<open>getSummary\<close>, \<^verbatim>\<open>ReverseConjunction\<close> and
  \<^verbatim>\<open>BuildScheduleSelector\<close> of \<^verbatim>\<open>lib/ICS/Instrumentor.cpp\<close>): the code tests
  the constraints of the edges one after the other, returns the schedule of the first edge that holds,
  goes on with the node behind a shared prefix, and panics when no edge holds.
\<close>

subsection \<open>Conjunctions\<close>

fun getSummary :: "'u expr list \<Rightarrow> 'u expr option" where
  "getSummary [] = Some TrueE"
| "getSummary (t # ts) = do { cond \<leftarrow> getSummary ts; mk And t cond }"

fun reverse_onto :: "'u expr list \<Rightarrow> 'u expr \<Rightarrow> 'u expr option" where
  "reverse_onto [] res = Some res"
| "reverse_onto (t # ts) res = do { res \<leftarrow> mk And t res; reverse_onto ts res }"

definition ReverseConjunction :: "'u expr \<Rightarrow> 'u expr option" where
  "ReverseConjunction e = reverse_onto (nary And e) TrueE"

definition truth :: "'u expr \<Rightarrow> bool" where
  "truth e \<longleftrightarrow> wfe e \<and> getWidth e = 1"

lemma mk_And:
  assumes "truth l" "truth r"
  obtains e where "mk And l r = Some e" "truth e"
    "\<And>rd q x y. eval rd q l = Some x \<Longrightarrow> eval rd q r = Some y \<Longrightarrow> eval rd q e = Some (x AND y)"
proof -
  have t: "typed And l r" "div_ok And l r" using assms by (auto simp: typed_def truth_def div_ok_def)
  obtain e where e: "mk And l r = Some e" "implements And l r e" by (rule mk_total [OF t])
  have "eval rd q e = Some (x AND y)" if "eval rd q l = Some x" "eval rd q r = Some y" for rd q x y
    using implements_eval [OF e(2)] that by simp
  moreover have "truth e" using e(2) assms by (auto simp: implements_def truth_def op_width_def)
  ultimately show ?thesis using e(1) that by blast
qed

lemma truth_value: "truth e \<Longrightarrow> eval rd q e = Some v \<Longrightarrow> v = 0 \<or> v = 1"
  unfolding truth_def using eval_bool by blast

lemma getSummary_value:
  assumes "list_all truth ts"
  shows "\<exists>s. getSummary ts = Some s \<and> truth s \<and>
    (\<forall>rd q. list_all (\<lambda>t. eval rd q t \<noteq> None) ts \<longrightarrow> eval rd q s = Some (of_bool (list_all (\<lambda>t. eval rd q t = Some 1) ts)))"
  using assms
proof (induction ts)
  case (Cons t ts)
  then obtain s where s: "getSummary ts = Some s" "truth s"
    "\<And>rd q. list_all (\<lambda>t. eval rd q t \<noteq> None) ts \<Longrightarrow> eval rd q s = Some (of_bool (list_all (\<lambda>t. eval rd q t = Some 1) ts))" by auto
  have t: "truth t" using Cons.prems by simp
  obtain e where e: "mk And t s = Some e" "truth e"
    "\<And>rd q x y. eval rd q t = Some x \<Longrightarrow> eval rd q s = Some y \<Longrightarrow> eval rd q e = Some (x AND y)"
    using mk_And [OF t s(2)] by blast
  have "eval rd q e = Some (of_bool (list_all (\<lambda>t. eval rd q t = Some 1) (t # ts)))" if def: "list_all (\<lambda>t. eval rd q t \<noteq> None) (t # ts)" for rd q
  proof -
    obtain x where x: "eval rd q t = Some x" using def by auto
    have "eval rd q e = Some (x AND of_bool (list_all (\<lambda>t. eval rd q t = Some 1) ts))" using e(3) [OF x] s(3) def by simp
    then show ?thesis using truth_value [OF t x] x by auto
  qed
  then show ?case using s(1) e(1,2) by auto
qed (simp add: truth_def)

subsection \<open>The selector\<close>

datatype ('u, 'o) selector =
    SReturn "'o ScheduleFragment"
  | SPanic
  | SUnreachable
  | STest "'u bflow" "('u, 'o) selector" "('u, 'o) selector"

fun BuildScheduleSelector ::
  "('m, 'u) solvers \<Rightarrow> nat \<Rightarrow> 'm \<Rightarrow> ('u expr, 'o) fedge list \<Rightarrow> ('u, 'o) selector \<Rightarrow> ('u, 'o) selector option" where
  "BuildScheduleSelector S n m [] failBlock = None"
| "BuildScheduleSelector S n m (SEdge ts fr nx # es) failBlock = do {
     summary \<leftarrow> getSummary ts;
     test \<leftarrow> snd (build S n) m summary;
     nextEnv \<leftarrow> (if es = [] then Some None else cloneFalseCanFail S m summary);
     successBlock \<leftarrow> (case fr of
        Some f \<Rightarrow> do {
          assert_opt (fragId f \<noteq> 0);
          assert_opt (nx \<noteq> None \<longrightarrow> nextSelectorId f \<noteq> 0);
          Some (SReturn f)
        }
      | None \<Rightarrow> (case nx of None \<Rightarrow> None | Some t \<Rightarrow> BuildScheduleSelector S n m (edges t) failBlock));
     nextBlock \<leftarrow> (if es = [] then Some failBlock
       else (case nextEnv of None \<Rightarrow> Some SUnreachable | Some m' \<Rightarrow> BuildScheduleSelector S n m' es failBlock));
     Some (STest test successBlock nextBlock)
   }"

text \<open>A run of the selector: \<^verbatim>\<open>None\<close> when an instruction has no defined result.\<close>

datatype 'o outcome = Returns "'o ScheduleFragment" | Panics | Unreachable

primrec srun :: "('u \<Rightarrow> int \<Rightarrow> int) \<Rightarrow> (string \<Rightarrow> int) \<Rightarrow> ('u, 'o) selector \<Rightarrow> 'o outcome option" where
  "srun rd q (SReturn f) = Some (Returns f)"
| "srun rd q SPanic = Some Panics"
| "srun rd q SUnreachable = Some Unreachable"
| "srun rd q (STest b x y) = do { c \<leftarrow> brun rd q b; if c then srun rd q x else srun rd q y }"

subsection \<open>The selector follows the tree\<close>

text \<open>All terms of a tree are truth values, respectively have a value.\<close>

fun all_terms :: "('t \<Rightarrow> bool) \<Rightarrow> ('t, 'f) sedge list \<Rightarrow> bool" where
  "all_terms P [] = True"
| "all_terms P (SEdge ts fr n # es) \<longleftrightarrow> list_all P ts \<and> (fr = None \<longrightarrow> (case n of None \<Rightarrow> True | Some t \<Rightarrow> all_terms P (edges t))) \<and> all_terms P es"

definition chosen :: "'o ScheduleFragment option \<Rightarrow> 'o outcome" where
  "chosen r = (case r of Some f \<Rightarrow> Returns f | None \<Rightarrow> Panics)"

lemma cloneFalseCanFail_sound:
  assumes "sound_solvers S holds" "truth c" "holds m rd q" "eval rd q c = Some 0" "cloneFalseCanFail S m c = Some r"
  shows "\<exists>m'. r = Some m' \<and> holds m' rd q"
proof -
  obtain z where z: "createIsZero mk c = Some z" using assms(5) by (auto simp: cloneFalseCanFail_def)
  have 1: "eval rd q z = Some 1" using isZero_value [OF z _ assms(4)] assms(2) by (simp add: truth_def)
  have "solverMayBeTrue S m z = Some True"
  proof (rule ccontr)
    assume "solverMayBeTrue S m z \<noteq> Some True"
    from sound_solversD(7) [OF assms(1), OF this assms(3)] show False using 1 by simp
  qed
  then obtain m' where m': "addConstraint S m z = Some m'" "r = Some m'" using assms(5) z by (auto simp: cloneFalseCanFail_def)
  have "holds m' rd q" by (rule sound_solversD(1) [OF assms(1), OF m'(1) assms(3) 1])
  then show ?thesis using m'(2) by simp
qed

lemma selector_edge:
  assumes "BuildScheduleSelector S n m (SEdge ts fr nx # es) failBlock = Some code"
  obtains summary test succ nextBlock where "getSummary ts = Some summary" "snd (build S n) m summary = Some test"
    "code = STest test succ nextBlock"
    "\<forall>f. fr = Some f \<longrightarrow> succ = SReturn f" "fr = None \<longrightarrow> (\<exists>t. nx = Some t \<and> BuildScheduleSelector S n m (edges t) failBlock = Some succ)"
    "es = [] \<and> nextBlock = failBlock \<or> (\<exists>r. es \<noteq> [] \<and> cloneFalseCanFail S m summary = Some r \<and>
       (case r of None \<Rightarrow> nextBlock = SUnreachable | Some m' \<Rightarrow> BuildScheduleSelector S n m' es failBlock = Some nextBlock))"
proof -
  from assms obtain summary test succ nextBlock nextEnv where c: "getSummary ts = Some summary" "snd (build S n) m summary = Some test"
    "(if es = [] then Some None else cloneFalseCanFail S m summary) = Some nextEnv"
    "(case fr of Some f \<Rightarrow> do { assert_opt (fragId f \<noteq> 0); assert_opt (nx \<noteq> None \<longrightarrow> nextSelectorId f \<noteq> 0); Some (SReturn f) }
      | None \<Rightarrow> (case nx of None \<Rightarrow> None | Some t \<Rightarrow> BuildScheduleSelector S n m (edges t) failBlock)) = Some succ"
    "(if es = [] then Some failBlock else (case nextEnv of None \<Rightarrow> Some SUnreachable | Some m' \<Rightarrow> BuildScheduleSelector S n m' es failBlock)) = Some nextBlock"
    "code = STest test succ nextBlock"
    unfolding BuildScheduleSelector.simps by (elim bind_eq_SomeE) simp
  show ?thesis
    by (rule that [OF c(1,2,6)]) (use c(3-5) in \<open>auto split: option.splits if_splits\<close>)
qed

lemma selector_follows_tree:
  assumes "sound_solvers S holds" "srun rd q failBlock = Some Panics"
  shows "BuildScheduleSelector S n m es failBlock = Some code \<Longrightarrow> all_terms truth es \<Longrightarrow>
    all_terms (\<lambda>t. eval rd q t \<noteq> None) es \<Longrightarrow> holds m rd q \<Longrightarrow>
    agrees (srun rd q code) (chosen (pick (\<lambda>t. eval rd q t = Some 1) es))"
proof (induction "\<lambda>t. eval rd q t = Some (1 :: int)" es arbitrary: m code rule: pick.induct)
  case (2 ts fr nx es)
  let ?P = "\<lambda>t. eval rd q t = Some 1"
  obtain summary test succ nextBlock where c: "getSummary ts = Some summary" "snd (build S n) m summary = Some test"
    "code = STest test succ nextBlock"
    "\<forall>f. fr = Some f \<longrightarrow> succ = SReturn f" "fr = None \<longrightarrow> (\<exists>t. nx = Some t \<and> BuildScheduleSelector S n m (edges t) failBlock = Some succ)"
    "es = [] \<and> nextBlock = failBlock \<or> (\<exists>r. es \<noteq> [] \<and> cloneFalseCanFail S m summary = Some r \<and>
       (case r of None \<Rightarrow> nextBlock = SUnreachable | Some m' \<Rightarrow> BuildScheduleSelector S n m' es failBlock = Some nextBlock))"
    by (rule selector_edge [OF "2.prems"(1)])
  have ts: "list_all truth ts" "list_all (\<lambda>t. eval rd q t \<noteq> None) ts" using "2.prems"(2,3) by auto
  have s: "truth summary" "eval rd q summary = Some (of_bool (list_all ?P ts))"
    using getSummary_value [OF ts(1)] c(1) ts(2) by auto
  have "agrees (brun rd q test) (of_bool (list_all ?P ts) = (1 :: int))"
    by (rule sound_boolD [OF conjunct2 [OF build_sound [OF assms(1)]], OF c(2) _ _ "2.prems"(4) s(2)]) (use s(1) in \<open>auto simp: truth_def\<close>)
  then have test: "agrees (brun rd q test) (list_all ?P ts)" by simp
  show ?case
    unfolding c(3) srun.simps
  proof (rule agrees_if [OF test])
    assume true: "list_all ?P ts"
    show "agrees (srun rd q succ) (chosen (pick ?P (SEdge ts fr nx # es)))"
    proof (cases fr)
      case None
      obtain t where t: "nx = Some t" "BuildScheduleSelector S n m (edges t) failBlock = Some succ" using c(5) None by blast
      have "agrees (srun rd q succ) (chosen (pick ?P (edges t)))"
        by (rule "2.hyps"(1) [OF true None t]) (use "2.prems"(2-4) None t(1) in simp_all)
      then show ?thesis using true None t(1) by simp
    qed (use true c(4) in \<open>simp add: chosen_def\<close>)
  next
    assume false: "\<not> list_all ?P ts"
    then have 0: "eval rd q summary = Some 0" using s(2) by simp
    show "agrees (srun rd q nextBlock) (chosen (pick ?P (SEdge ts fr nx # es)))"
      using c(6)
    proof (elim disjE conjE exE)
      assume "es = []" "nextBlock = failBlock"
      then show ?thesis using assms(2) false by (simp add: chosen_def)
    next
      fix r assume r: "cloneFalseCanFail S m summary = Some r"
        "case r of None \<Rightarrow> nextBlock = SUnreachable | Some m' \<Rightarrow> BuildScheduleSelector S n m' es failBlock = Some nextBlock"
      obtain m' where m': "r = Some m'" "holds m' rd q" using cloneFalseCanFail_sound [OF assms(1), OF s(1) "2.prems"(4) 0 r(1)] by blast
      have "agrees (srun rd q nextBlock) (chosen (pick ?P es))"
        by (rule "2.hyps"(2) [OF false]) (use "2.prems"(2,3) m' r(2) in simp_all)
      then show ?thesis using false by simp
    qed
  qed
qed simp

subsection \<open>The code is defined\<close>

lemma getSummary_plain: "list_all plain ts \<Longrightarrow> getSummary ts = Some s \<Longrightarrow> plain s"
proof (induction ts arbitrary: s)
  case (Cons t ts)
  then obtain c where c: "getSummary ts = Some c" "mk And t c = Some s" by auto
  have "plain c" "plain t" using Cons.IH [OF _ c(1)] Cons.prems(1) by simp_all
  then show ?case using plain_mk_And c(2) by blast
qed simp

lemma selector_defined:
  fixes es :: "('u expr, 'o) fedge list"
  assumes "sound_solvers S holds" "plain_solvers S" "srun rd q failBlock \<noteq> None"
  shows "BuildScheduleSelector S n m es failBlock = Some code \<Longrightarrow> all_terms truth es \<Longrightarrow> all_terms plain es \<Longrightarrow> srun rd q code \<noteq> None"
proof (induction "plain :: 'u expr \<Rightarrow> bool" es arbitrary: m code rule: all_terms.induct)
  case (2 ts fr nx es)
  obtain summary test succ nextBlock where c: "getSummary ts = Some summary" "snd (build S n) m summary = Some test"
    "code = STest test succ nextBlock"
    "\<forall>f. fr = Some f \<longrightarrow> succ = SReturn f" "fr = None \<longrightarrow> (\<exists>t. nx = Some t \<and> BuildScheduleSelector S n m (edges t) failBlock = Some succ)"
    "es = [] \<and> nextBlock = failBlock \<or> (\<exists>r. es \<noteq> [] \<and> cloneFalseCanFail S m summary = Some r \<and>
       (case r of None \<Rightarrow> nextBlock = SUnreachable | Some m' \<Rightarrow> BuildScheduleSelector S n m' es failBlock = Some nextBlock))"
    by (rule selector_edge [OF "2.prems"(1)])
  have "list_all truth ts" "list_all plain ts" using "2.prems"(2,3) by auto
  then have sum: "wfe summary" "plain summary" using getSummary_value [of ts] getSummary_plain c(1) by (auto simp: truth_def)
  obtain b where b: "brun rd q test = Some b"
    using defined_boolD [OF conjunct2 [OF build_defined [OF assms(1), OF assms(2)]], OF c(2) sum] by blast
  have "srun rd q succ \<noteq> None"
  proof (cases fr)
    case None
    then obtain t where t: "nx = Some t" "BuildScheduleSelector S n m (edges t) failBlock = Some succ" using c(5) by blast
    show ?thesis by (rule "2.hyps"(1) [OF None t]) (use "2.prems"(2,3) None t(1) in simp_all)
  qed (use c(4) in simp)
  moreover have "srun rd q nextBlock \<noteq> None"
    using c(6)
  proof (elim disjE conjE exE)
    fix r assume r: "case r of None \<Rightarrow> nextBlock = SUnreachable | Some m' \<Rightarrow> BuildScheduleSelector S n m' es failBlock = Some nextBlock"
    show ?thesis
    proof (cases r)
      case (Some m')
      show ?thesis by (rule "2.hyps"(2) [of m']) (use r Some "2.prems"(2,3) in simp_all)
    qed (use r in simp)
  qed (use assms(3) in simp)
  ultimately show ?case using b c(3) by simp
qed simp

lemma all_terms_mono: "(\<And>t. P t \<Longrightarrow> Q t) \<Longrightarrow> all_terms P es \<Longrightarrow> all_terms Q es"
  by (induction P es rule: all_terms.induct) (auto simp: list_all_iff split: option.splits)

text \<open>The run of a selector: the result of the tree, never undefined.\<close>

lemma selector_result:
  assumes "sound_solvers S holds" "plain_solvers S" "BuildScheduleSelector S n m es SPanic = Some code"
    "all_terms truth es" "all_terms plain es" "holds m rd q"
  shows "srun rd q code = Some (chosen (pick (\<lambda>t. eval rd q t = Some 1) es))"
proof -
  have "all_terms (\<lambda>t. eval rd q t \<noteq> None) es"
    by (rule all_terms_mono [OF plain_value assms(5)])
  then have "agrees (srun rd q code) (chosen (pick (\<lambda>t. eval rd q t = Some 1) es))"
    by (intro selector_follows_tree [OF assms(1), OF _ assms(3,4) _ assms(6)]) simp_all
  moreover have "srun rd q code \<noteq> None" by (rule selector_defined [OF assms(1), OF assms(2) _ assms(3-5)]) simp
  ultimately show ?thesis by (auto simp: agrees_def)
qed

end
