(* ===== verification/Schedule_Choice.thy ===== *)
theory Schedule_Choice
  imports Schedule_Selector
begin

text \<open>
  From the constraints of a region's schedules to the code of its selector: what adding the constraints
  to a tree and numbering its fragments keep of what the selector relies on.
\<close>

subsection \<open>A tree that was built can be numbered\<close>

definition fresh_fragment :: "(ThreadUid, 'c, 'o) hbnode fstate \<Rightarrow> 'o ScheduleFragment \<Rightarrow> bool" where
  "fresh_fragment st f \<longleftrightarrow> fragId f = 0 \<and> nextSelectorId f = 0 \<and>
     list_all (\<lambda>i. hb_getNode (hbGraph f) i st \<noteq> None) [firstNodeId f ..< lastNodeId f + 1]"

lemma numberable_all: "numberable maxId st es \<longleftrightarrow> (\<forall>e \<in> set es. numberable maxId st [e])"
proof (induction es)
  case (Cons e es)
  then show ?case by (cases e) auto
qed simp

lemma numberable_update:
  assumes "numberable maxId st es" "numberable maxId st [e]"
  shows "numberable maxId st (es[k := e])"
  using assms set_update_subset_insert [of es k e] unfolding numberable_all [of _ _ "es[k := e]"] numberable_all [of _ _ es] by blast

lemma numberable_append: "numberable maxId st (es @ es') \<longleftrightarrow> numberable maxId st es \<and> numberable maxId st es'"
  unfolding numberable_all [of _ _ "es @ es'"] numberable_all [of _ _ es] numberable_all [of _ _ es'] by auto

lemma numberable_new: "fresh_fragment st f \<Longrightarrow> numberable maxId st [SEdge ts (Some f) (Some (SNode []))]"
  by (simp add: fresh_fragment_def del: upt_Suc)

lemma numberable_terms: "numberable maxId st [SEdge ts fr n] \<Longrightarrow> numberable maxId st [SEdge us fr n]"
  by (simp del: upt_Suc)

lemma numberable_partial: "numberable maxId st (edges t) \<Longrightarrow> edges t \<noteq> [] \<Longrightarrow> numberable maxId st [SEdge ts None (Some t)]"
  by simp

lemma addEdge_edges: "addEdge dbg feq tru ts f t = Some (t', p) \<Longrightarrow> edges t' \<noteq> []"
proof (induction dbg feq tru ts f t arbitrary: t' p rule: addEdge.induct)
  case (1 dbg feq tru ts f es)
  show ?case
    using "1.prems" find_edge_SomeD [of ts es] by (auto split: option.splits if_splits prod.splits)
qed

lemma numberable_split:
  assumes "fresh_fragment st f" "numberable maxId st [SEdge us fr n]"
  shows "numberable maxId st [SEdge vs None (Some (SNode [SEdge ts (Some f) (Some (SNode [])), SEdge ws fr n]))]"
proof -
  have "numberable maxId st ([SEdge ts (Some f) (Some (SNode []))] @ [SEdge ws fr n])"
    unfolding numberable_append using numberable_new [OF assms(1)] numberable_terms [OF assms(2)] by blast
  then show ?thesis by (intro numberable_partial) simp_all
qed

lemma addEdge_numberable:
  assumes "fresh_fragment st f" "numberable maxId st (edges t)" "addEdge dbg feq tru ts f t = Some (t', p)"
  shows "numberable maxId st (edges t')"
  using assms
proof (induction dbg feq tru ts f t arbitrary: t' p rule: addEdge.induct)
  case (1 dbg feq tru ts f es)
  have all: "numberable maxId st es" using "1.prems"(2) by simp
  show ?case
  proof (cases "find_edge ts es")
    case (Some r)
    show ?thesis
    proof (cases r)
      case None
      then have "edges t' = es @ [SEdge (if dbg then sort_terms es ts else ts) (Some f) (Some (SNode []))]"
        using "1.prems"(3) Some by auto
      then show ?thesis using all numberable_new [OF "1.prems"(1)] numberable_append by metis
    next
      case (Some x)
      obtain k s where x: "x = (k, s)" by (cases x)
      have found: "find_edge ts es = Some (Some (k, s))" using \<open>find_edge ts es = Some r\<close> Some x by simp
      obtain us fr n where e: "es ! k = SEdge us fr n" by (cases "es ! k")
      have ke: "numberable maxId st [SEdge us fr n]" using all find_edge_SomeD [OF found] e numberable_all nth_mem by metis
      obtain nx where n: "n = Some nx" using "1.prems"(3) found e by (cases n) auto
      show ?thesis
      proof (cases fr)
        case None
        show ?thesis
        proof (cases "s = length us")
          case True
          obtain nx' q where a: "addEdge dbg feq tru (or_true tru (drop s ts)) f nx = Some (nx', q)"
            "edges t' = es[k := SEdge us None (Some nx')]" using "1.prems"(3) found e n None True by auto
          have "numberable maxId st (edges nx')"
            by (rule "1.IH" [OF found _ refl]) (use e n None True "1.prems"(1) ke a(1) in auto)
          then show ?thesis unfolding a(2) by (intro numberable_update [OF all] numberable_partial addEdge_edges [OF a(1)])
        next
          case False
          then show ?thesis using "1.prems"(3) found e n None numberable_update [OF all numberable_split [OF "1.prems"(1) ke]] by auto
        qed
      next
        case (Some g)
        show ?thesis
        proof (cases "s = length ts \<and> s = length us")
          case True
          then have "edges t' = es" using "1.prems"(3) found e n Some by (auto split: if_splits)
          then show ?thesis using all by simp
        next
          case False
          then show ?thesis
            using "1.prems"(3) found e n Some numberable_update [OF all numberable_split [OF "1.prems"(1) ke]] by (auto split: if_splits)
        qed
      qed
    qed
  qed (use "1.prems"(3) in simp)
qed

lemma addEdges_numberable:
  "\<forall>c \<in> set cs. fresh_fragment st (snd c) \<Longrightarrow> numberable maxId st (edges t) \<Longrightarrow> addEdges dbg feq tru cs t = Some t' \<Longrightarrow>
     numberable maxId st (edges t')"
proof (induction cs arbitrary: t)
  case (Cons c cs)
  obtain ts f where c: "c = (ts, f)" by (cases c)
  then obtain t1 p where t1: "addEdge dbg feq tru ts f t = Some (t1, p)" "addEdges dbg feq tru cs t1 = Some t'" using Cons.prems(3) by auto
  have "numberable maxId st (edges t1)" by (rule addEdge_numberable [OF _ Cons.prems(2) t1(1)]) (use Cons.prems(1) c in simp)
  then show ?case using Cons.IH [OF _ _ t1(2)] Cons.prems(1) by simp
qed simp

subsection \<open>The terms of a tree\<close>

lemma trie_has_path:
  fixes t :: "('t, 'f) stree" and e :: "('t, 'f) sedge"
  shows "trie t \<Longrightarrow> edges t \<noteq> [] \<Longrightarrow> paths t \<noteq> []" "etrie e \<Longrightarrow> epaths e \<noteq> []"
proof (induction t and e rule: trie_etrie.induct)
  case (1 es)
  then obtain e where "e \<in> set es" by (cases es) auto
  then show ?case using 1 by auto
qed simp_all

lemma all_terms_paths:
  "trie (SNode es) \<Longrightarrow> \<forall>p \<in> set (paths (SNode es)). list_all P (fst p) \<Longrightarrow> all_terms P es"
proof (induction P es rule: all_terms.induct)
  case (2 P ts fr n es)
  have rest: "all_terms P es" using "2.IH"(2) "2.prems" by simp
  show ?case
  proof (cases fr)
    case None
    then obtain t where t: "n = Some t" "edges t \<noteq> []" "trie t" using "2.prems"(1) by (cases n) auto
    have node: "SNode (edges t) = t" by (cases t) simp
    obtain p where p: "p \<in> set (paths t)" using trie_has_path(1) [OF t(3,2)] by (cases "paths t") auto
    have sub: "(ts @ fst p, snd p) \<in> set (paths (SNode (SEdge ts fr n # es)))" if "p \<in> set (paths t)" for p
      using None t(1) that by (cases p) (auto intro!: image_eqI [of _ _ p])
    have ts: "list_all P (ts @ fst p)" if "p \<in> set (paths t)" for p using bspec [OF "2.prems"(2) sub [OF that]] by simp
    have "all_terms P (edges t)"
      by (rule "2.IH"(1) [OF None t(1), unfolded node, OF t(3)]) (use ts in \<open>simp add: list_all_append\<close>)
    then show ?thesis using rest t(1) ts [OF p] by simp
  qed (use rest "2.prems"(2) in simp)
qed simp

lemma number_all_terms: "number_edges used st es v = Some (es', v') \<Longrightarrow> all_terms P es' = all_terms P es"
proof (induction used st es v arbitrary: es' v' rule: number_edges.induct)
  case (2 used st ts fr n es v)
  obtain t where n: "n = Some t" using "2.prems" by (cases n) auto
  obtain fr' v1 ne v2 es1 where c: "number_edges used st (edges t) v1 = Some (ne, v2)" "number_edges used st es v2 = Some (es1, v')"
    "es' = SEdge ts fr' (if edges t \<noteq> [] then Some (SNode ne) else None) # es1" "(fr' = None) = (fr = None)"
    "(case fr of None \<Rightarrow> Some (None, v) | Some f \<Rightarrow> do { (f, v) \<leftarrow> number_fragment used st (edges t \<noteq> []) f v; Some (Some f, v) }) = Some (fr', v1)"
    using "2.prems" n by (cases fr) (auto simp: Let_def)
  have "all_terms P ne = all_terms P (edges t)" by (rule "2.IH"(1) [OF n refl c(5) refl c(1)])
  moreover have "all_terms P es1 = all_terms P es" by (rule "2.IH"(2) [OF n refl c(5) refl c(1) refl c(2)])
  moreover have "edges t = [] \<longrightarrow> all_terms P (edges t)" by simp
  ultimately show ?case using c(3,4) n by auto
qed simp

subsection \<open>The selector of a region\<close>

text \<open>Two terms exclude each other if no assignment makes both true.\<close>

definition exclusive :: "'u expr \<Rightarrow> 'u expr \<Rightarrow> bool" where
  "exclusive x y \<longleftrightarrow> (\<forall>rd q. \<not> (eval rd q x = Some 1 \<and> eval rd q y = Some 1))"

lemma symp_exclusive: "symp exclusive"
  by (auto simp: symp_def exclusive_def)

text \<open>The constraints of a region in the order of its schedules: every constraint has terms, which are truth
  values, and repeats an earlier one with an equal fragment or diverges from it.\<close>

definition region_constraints :: "(ThreadUid, 'c, 'o) hbnode fstate \<Rightarrow> ('u expr list \<times> 'o ScheduleFragment) list \<Rightarrow> bool" where
  "region_constraints st cs \<longleftrightarrow>
     (\<forall>c \<in> set cs. fst c \<noteq> [] \<and> list_all (\<lambda>t. truth t \<and> plain t) (fst c) \<and> fresh_fragment st (snd c)) \<and>
     sorted_wrt (compatible (\<lambda>f g. schedfrag_equal f g st) exclusive) cs"

text \<open>The choice at a node: a constraint that holds selects its fragment, or the equal one that was there; if
  none holds, nothing is selected.\<close>

definition selects ::
  "(ThreadUid, 'c, 'o) hbnode fstate \<Rightarrow> ('u expr list \<times> 'o ScheduleFragment) list \<Rightarrow> ('u expr \<Rightarrow> bool) \<Rightarrow> 'o ScheduleFragment option \<Rightarrow> bool" where
  "selects st cs P r \<longleftrightarrow>
     (\<forall>c \<in> set cs. list_all P (fst c) \<longrightarrow>
       (\<exists>f g. r = Some f \<and> unnumbered f = unnumbered g \<and> (g = snd c \<or> schedfrag_equal (snd c) g st = Some True))) \<and>
     ((\<forall>c \<in> set cs. \<not> list_all P (fst c)) \<longrightarrow> r = None)"

lemma tree_selects:
  assumes "trie t" "separate exclusive t" "set (paths t) \<subseteq> set cs"
    "\<forall>c \<in> set cs. \<exists>g. (fst c, g) \<in> set (paths t) \<and> (g = snd c \<or> schedfrag_equal (snd c) g st = Some True)"
    "map_option unnumbered r = map_option unnumbered (pick P (edges t))" "\<And>x y. exclusive x y \<Longrightarrow> \<not> (P x \<and> P y)"
  shows "selects st cs P r"
proof -
  have iff: "pick P (edges t) = Some f \<longleftrightarrow> (\<exists>us. (us, f) \<in> set (paths t) \<and> list_all P us)" for f
    by (rule pick_added [OF assms(1,2)]) (rule assms(6))
  have "\<exists>f g. r = Some f \<and> unnumbered f = unnumbered g \<and> (g = snd c \<or> schedfrag_equal (snd c) g st = Some True)"
    if c: "c \<in> set cs" "list_all P (fst c)" for c
  proof -
    obtain g where g: "(fst c, g) \<in> set (paths t)" "g = snd c \<or> schedfrag_equal (snd c) g st = Some True" using assms(4) c(1) by blast
    then have "pick P (edges t) = Some g" using iff c(2) by blast
    then show ?thesis using assms(5) g(2) by auto
  qed
  moreover have "r = None" if none: "\<forall>c \<in> set cs. \<not> list_all P (fst c)"
  proof -
    have "pick P (edges t) \<noteq> Some f" for f using iff assms(3) none by fastforce
    then show ?thesis using assms(5) by (cases "pick P (edges t)") auto
  qed
  ultimately show ?thesis unfolding selects_def by blast
qed

lemma region_tree:
  fixes cs :: "('u expr list \<times> 'o ScheduleFragment) list"
  assumes "region_constraints st cs" "0 < nextSelector v"
  obtains t es v' where "addEdges False (\<lambda>f g. schedfrag_equal f g st) TrueE cs (SNode []) = Some t"
    "number_edges used st (edges t) v = Some (es, v')" "all_terms truth es" "all_terms plain es"
    "\<forall>P. (\<forall>x y. exclusive x y \<longrightarrow> \<not> (P x \<and> P y)) \<longrightarrow> selects st cs P (pick P es)"
proof -
  let ?feq = "\<lambda>f g. schedfrag_equal f g st"
  have start: "trie (SNode [])" "separate exclusive (SNode [])" by (simp_all add: separate_def)
  obtain t where t: "addEdges False ?feq TrueE cs (SNode []) = Some t" "trie t" "separate exclusive t" "set (paths t) \<subseteq> set cs"
    "\<forall>c \<in> set cs. \<exists>g. (fst c, g) \<in> set (paths t) \<and> (g = snd c \<or> ?feq (snd c) g = Some True)"
    using addEdges_trie [OF symp_exclusive _ start, of False cs ?feq TrueE] assms(1) by (auto simp: region_constraints_def)
  have "numberable (\<lambda>_. 0) st (edges t)"
    using addEdges_numberable [OF _ _ t(1)] assms(1) by (auto simp: region_constraints_def)
  then obtain es v' where es: "number_edges used st (edges t) v = Some (es, v')" "numbered (\<lambda>_. 0) (edges t) v es v'"
    using number_edges_ok [OF _ assms(2)] by blast
  have node: "SNode (edges t) = t" by (cases t) simp
  have all: "all_terms P es" if "\<forall>c \<in> set cs. list_all P (fst c)" for P
    unfolding number_all_terms [OF es(1)] by (rule all_terms_paths, unfold node) (use t(2,4) that in auto)
  have terms: "all_terms truth es" "all_terms plain es"
    using assms(1) by (auto intro!: all simp: region_constraints_def list_all_iff)
  have "selects st cs P (pick P es)" if "\<forall>x y. exclusive x y \<longrightarrow> \<not> (P x \<and> P y)" for P
    by (rule tree_selects [OF t(2-5)]) (use es(2) that in \<open>auto simp: numbered_def\<close>)
  then show ?thesis using that [OF t(1) es(1) terms] by blast
qed

subsection \<open>A small region\<close>

definition demo_term :: "int \<Rightarrow> nat expr" where
  "demo_term c = BinaryExpr Eq (ConstantExpr 8 c) (ReadExpr 0 (ConstantExpr 32 0))"

definition demo_constraints :: "(nat expr list \<times> unit ScheduleFragment) list" where
  "demo_constraints = [([demo_term 5], demo_fragment 0 0), ([demo_term 6], demo_fragment 1 0)]"

definition demo_solvers :: "(unit, nat) solvers" where
  "demo_solvers = \<lparr> addConstraint = (\<lambda>m e. Some m), cmSimplify = (\<lambda>m e. e), solverMayBeTrue = (\<lambda>m e. Some True),
     solverEvaluate = (\<lambda>m e. None), orderedReadsEnabled = False, littleEndian = True \<rparr>"

definition demo_visitor :: "unit NumberingVisitor" where
  "demo_visitor = \<lparr> scheduleFragmentsList = [], nextFrag = 1, nextSelector = 2, nextInput = 2 \<rparr>"

definition demo_edges :: "(nat expr, unit) fedge list" where
  "demo_edges = [SEdge [demo_term 5] (Some ((demo_fragment 0 0)\<lparr>fragId := 1\<rparr>)) None, SEdge [demo_term 6] (Some ((demo_fragment 1 0)\<lparr>fragId := 2\<rparr>)) None]"

definition demo_test :: "int \<Rightarrow> nat bflow" where
  "demo_test c = BBranch (LCmp Eq (LConst 8 c) (LRead (ReadExpr 0 (ConstantExpr 32 0)))) (BExit True) (BExit False)"

lemma demo_summary: "getSummary [demo_term c] = Some (demo_term c)"
  by (simp add: demo_term_def mk_def create_body_def partialL_def AndExpr_createPartial_def isAllOnes_def)

lemma demo_build: "snd (build demo_solvers 3) m (demo_term c) = Some (demo_test c)"
  by (simp add: demo_term_def demo_test_def demo_solvers_def numeral_3_eq_3 BuildBooleanEvaluator_body_def boolean_leaf_def
      BuildExprEvaluator_body_def checkValidity_def)

lemma demo_zero:
  assumes "take_bit 8 c = c"
  shows "cloneFalseCanFail demo_solvers m (demo_term c) = Some (Some ())"
proof -
  have "\<exists>z. createIsZero mk (demo_term c) = Some z"
    using mk_isZero [of "demo_term c"] assms by (auto simp: demo_term_def)
  then show ?thesis by (auto simp: cloneFalseCanFail_def demo_solvers_def)
qed

lemma demo_code:
  "BuildScheduleSelector demo_solvers 3 () demo_edges SPanic =
     Some (STest (demo_test 5) (SReturn ((demo_fragment 0 0)\<lparr>fragId := 1\<rparr>)) (STest (demo_test 6) (SReturn ((demo_fragment 1 0)\<lparr>fragId := 2\<rparr>)) SPanic))"
  by (simp add: demo_edges_def demo_summary demo_build demo_zero demo_fragment_def del: getSummary.simps)

lemma demo_sound: "sound_solvers demo_solvers (\<lambda>_ _ _. True)" "plain_solvers demo_solvers"
  by (simp_all add: sound_solvers_def plain_solvers_def demo_solvers_def)

lemma demo_region: "region_constraints (init_fstate :: (ThreadUid, nat list, unit) hbnode fstate) demo_constraints"
proof -
  have "exclusive (demo_term 5) (demo_term 6)" by (auto simp: exclusive_def demo_term_def)
  then show ?thesis
    by (simp add: region_constraints_def demo_constraints_def compatible_def demo_term_def truth_def plain_kind_def fresh_fragment_def demo_fragment_def)
qed

lemma demo_tree:
  "addEdges False feq TrueE demo_constraints (SNode []) = Some (SNode [SEdge [demo_term 5] (Some (demo_fragment 0 0)) (Some (SNode [])),
     SEdge [demo_term 6] (Some (demo_fragment 1 0)) (Some (SNode []))])"
  "number_edges used st [SEdge [demo_term 5] (Some (demo_fragment 0 0)) (Some (SNode [])), SEdge [demo_term 6] (Some (demo_fragment 1 0)) (Some (SNode []))] demo_visitor =
     Some (demo_edges, demo_visitor\<lparr>scheduleFragmentsList := [(demo_fragment 0 0)\<lparr>fragId := 1\<rparr>, (demo_fragment 1 0)\<lparr>fragId := 2\<rparr>], nextFrag := 3\<rparr>)"
  by (simp_all add: demo_constraints_def demo_term_def demo_visitor_def demo_edges_def number_fragment_def demo_fragment_def Let_def)

end
