(* ===== verification/Schedule_Build.thy ===== *)
theory Schedule_Build
  imports Schedule_Selector
begin

text \<open>
  Cutting the schedules of a region into fragments (\<^verbatim>\<open>EnumerateUsedInputsInHbGraph\<close>,
  \<^verbatim>\<open>ScheduleTreeNode::addEdge\<close> on a condition and \<^verbatim>\<open>BuildScheduleTree\<close> of
  \<^verbatim>\<open>lib/ICS/Instrumentor.cpp\<close>). A reference to a node of the tree that is being built is the path of
  edge numbers from the root. The constraint manager is the parameter \<^verbatim>\<open>C\<close>.
\<close>

subsection \<open>Definitions\<close>

record 'u Entry =
  isInputConstraint :: bool
  constraintExpr :: "'u expr"
  currHbNodeId :: nat

record 'u CoveredSchedule =
  scheduleId :: nat
  scheduleGraph :: nat
  inputConstraint :: "'u Entry list"
  scheduleExits :: bool

record ('k, 'u) manager =
  cmNew :: 'k
  cmAdd :: "'k \<Rightarrow> 'u expr \<Rightarrow> 'k option"
  cmSummary :: "'k \<Rightarrow> 'u expr"

fun enumerate_inputs :: "('o \<Rightarrow> bool) \<Rightarrow> (ThreadUid, 'c, 'o) hbnode fstate \<Rightarrow> nat \<Rightarrow> nat list \<Rightarrow> nat list option" where
  "enumerate_inputs used st g [] = Some []"
| "enumerate_inputs used st g (i # is) = do {
     node \<leftarrow> hb_getNode g i st;
     rest \<leftarrow> enumerate_inputs used st g is;
     Some (case inputObj node of Some obj \<Rightarrow> if used obj then i # rest else rest | None \<Rightarrow> rest)
   }"

definition EnumerateUsedInputsInHbGraph :: "('o \<Rightarrow> bool) \<Rightarrow> (ThreadUid, 'c, 'o) hbnode fstate \<Rightarrow> nat \<Rightarrow> nat list option" where
  "EnumerateUsedInputsInHbGraph used st g = do { mx \<leftarrow> hb_size g st; enumerate_inputs used st g [1 ..< Suc mx] }"

text \<open>The overload of \<^verbatim>\<open>addEdge\<close> on a condition, which also sets the thread that runs the next selector.\<close>

definition addEdge_cond ::
  "bool \<Rightarrow> (ThreadUid, 'c, 'o) hbnode fstate \<Rightarrow> 'u expr \<Rightarrow> 'o ScheduleFragment \<Rightarrow> ('u expr, 'o) ftree \<Rightarrow> (('u expr, 'o) ftree \<times> nat list) option" where
  "addEdge_cond dbg st cond f t = do {
     mx \<leftarrow> hb_size (hbGraph f) st;
     f \<leftarrow> (if mx \<noteq> 0 then do {
         node \<leftarrow> hb_getNode (hbGraph f) (lastNodeId f) st;
         Some (f\<lparr> nextThreadLeader := tuid node \<rparr>)
       }
       else Some f);
     assert_opt (schedId f \<noteq> 0);
     addEdge dbg (\<lambda>f g. schedfrag_equal f g st) TrueE (nary And cond) f t
   }"

text \<open>An operation on the node at the end of a path; the result has the path of the new node.\<close>

fun at_path :: "nat list \<Rightarrow> (('t, 'f) stree \<Rightarrow> (('t, 'f) stree \<times> nat list) option) \<Rightarrow> ('t, 'f) stree \<Rightarrow> (('t, 'f) stree \<times> nat list) option" where
  "at_path [] h t = h t"
| "at_path (k # p) h (SNode es) = do {
     assert_opt (k < length es);
     t \<leftarrow> nextNode (es ! k);
     (t, r) \<leftarrow> at_path p h t;
     Some (SNode (es[k := SEdge (terms (es ! k)) (schedfrag (es ! k)) (Some t)]), k # r)
   }"

text \<open>The inner loop: the inputs before \<^verbatim>\<open>now\<close>, as far as one thread reads them.\<close>

fun merge_inputs ::
  "(ThreadUid, 'c, 'o) hbnode fstate \<Rightarrow> nat \<Rightarrow> nat \<Rightarrow> nat list \<Rightarrow> nat \<Rightarrow> ThreadUid \<Rightarrow> (nat \<times> nat list) option" where
  "merge_inputs st g now [] lastInput lastTuid = Some (lastInput, [])"
| "merge_inputs st g now (i # is) lastInput lastTuid =
     (if i \<le> now then do {
        node \<leftarrow> hb_getNode g i st;
        if lastInput \<noteq> 0 \<and> tuid node \<noteq> lastTuid then Some (lastInput, i # is)
        else merge_inputs st g now is i (tuid node)
      }
      else Some (lastInput, i # is))"

fun constraint_loop ::
  "('k, 'u) manager \<Rightarrow> bool \<Rightarrow> (ThreadUid, 'c, 'o) hbnode fstate \<Rightarrow> nat \<Rightarrow> 'u Entry list \<Rightarrow> nat list \<Rightarrow>
     ('u expr, 'o) ftree \<Rightarrow> nat list \<Rightarrow> 'o ScheduleFragment \<Rightarrow> 'k \<Rightarrow>
     (('u expr, 'o) ftree \<times> nat list \<times> 'o ScheduleFragment \<times> 'k) option" where
  "constraint_loop C dbg st g [] q root node f cm = Some (root, node, f, cm)"
| "constraint_loop C dbg st g (it # its) q root node f cm =
     (if \<not> isInputConstraint it then constraint_loop C dbg st g its q root node f cm
      else do {
        (lastInput, q) \<leftarrow> merge_inputs st g (currHbNodeId it) q 0 (ThreadUid 0 0);
        (root, node, f, cm) \<leftarrow> (if lastInput \<noteq> 0 then do {
            let f = f\<lparr> firstNodeId := lastNodeId f + 1, lastNodeId := lastInput \<rparr>;
            (root, node) \<leftarrow> at_path node (addEdge_cond dbg st (cmSummary C cm) f) root;
            Some (root, node, f, cmNew C)
          }
          else Some (root, node, f, cm));
        cm \<leftarrow> cmAdd C cm (constraintExpr it);
        constraint_loop C dbg st g its q root node f cm
      })"

definition first_fragment :: "'u CoveredSchedule \<Rightarrow> 'o ScheduleFragment" where
  "first_fragment sched = \<lparr> hbGraph = scheduleGraph sched, firstNodeId = 1, lastNodeId = 0, nextThreadLeader = ThreadUid 0 0,
     exitsProgram = False, schedId = scheduleId sched, fragId = 0, nextSelectorId = 0, inputIds = Map.empty \<rparr>"

definition add_schedule ::
  "('k, 'u) manager \<Rightarrow> bool \<Rightarrow> ('o \<Rightarrow> bool) \<Rightarrow> (ThreadUid, 'c, 'o) hbnode fstate \<Rightarrow> 'u CoveredSchedule \<Rightarrow> ('u expr, 'o) ftree \<Rightarrow> ('u expr, 'o) ftree option" where
  "add_schedule C dbg used st sched root = do {
     q \<leftarrow> EnumerateUsedInputsInHbGraph used st (scheduleGraph sched);
     (root, node, f, cm) \<leftarrow> constraint_loop C dbg st (scheduleGraph sched) (inputConstraint sched) q root [] (first_fragment sched) (cmNew C);
     mx \<leftarrow> hb_size (scheduleGraph sched) st;
     let f = f\<lparr> firstNodeId := lastNodeId f + 1, lastNodeId := mx, exitsProgram := scheduleExits sched \<rparr>;
     cond \<leftarrow> ReverseConjunction (cmSummary C cm);
     (root, _) \<leftarrow> at_path node (addEdge_cond dbg st cond f) root;
     Some root
   }"

fun add_schedules ::
  "('k, 'u) manager \<Rightarrow> bool \<Rightarrow> ('o \<Rightarrow> bool) \<Rightarrow> (ThreadUid, 'c, 'o) hbnode fstate \<Rightarrow> 'u CoveredSchedule list \<Rightarrow> ('u expr, 'o) ftree \<Rightarrow> ('u expr, 'o) ftree option" where
  "add_schedules C dbg used st [] root = Some root"
| "add_schedules C dbg used st (sched # scheds) root = do {
     root \<leftarrow> add_schedule C dbg used st sched root;
     add_schedules C dbg used st scheds root
   }"

definition BuildScheduleTree ::
  "('k, 'u) manager \<Rightarrow> bool \<Rightarrow> ('o \<Rightarrow> bool) \<Rightarrow> (ThreadUid, 'c, 'o) hbnode fstate \<Rightarrow> 'u CoveredSchedule list \<Rightarrow> ('u expr, 'o) ftree option" where
  "BuildScheduleTree C dbg used st schedules = add_schedules C dbg used st schedules (SNode [])"

subsection \<open>The pieces of a schedule\<close>

text \<open>A piece has the constraints that are tested before its fragment runs, and the first and the last node
  of the fragment.\<close>

type_synonym 'u piece = "'u Entry list \<times> nat \<times> nat"

fun cut_schedule ::
  "(ThreadUid, 'c, 'o) hbnode fstate \<Rightarrow> nat \<Rightarrow> 'u Entry list \<Rightarrow> nat list \<Rightarrow> nat \<Rightarrow> 'u Entry list \<Rightarrow> ('u piece list \<times> nat \<times> 'u Entry list) option" where
  "cut_schedule st g [] q l ks = Some ([], l, ks)"
| "cut_schedule st g (it # its) q l ks =
     (if \<not> isInputConstraint it then cut_schedule st g its q l ks
      else do {
        (b, q) \<leftarrow> merge_inputs st g (currHbNodeId it) q 0 (ThreadUid 0 0);
        if b \<noteq> 0 then do { (ps, l', ks') \<leftarrow> cut_schedule st g its q b [it]; Some ((ks, l + 1, b) # ps, l', ks') }
        else cut_schedule st g its q l (ks @ [it])
      })"

fun cm_all :: "('k, 'u) manager \<Rightarrow> 'k \<Rightarrow> 'u Entry list \<Rightarrow> 'k option" where
  "cm_all C cm [] = Some cm"
| "cm_all C cm (e # es) = do { cm \<leftarrow> cmAdd C cm (constraintExpr e); cm_all C cm es }"

fun add_pieces ::
  "('k, 'u) manager \<Rightarrow> bool \<Rightarrow> (ThreadUid, 'c, 'o) hbnode fstate \<Rightarrow> 'o ScheduleFragment \<Rightarrow> 'u piece list \<Rightarrow>
     nat list \<Rightarrow> ('u expr, 'o) ftree \<Rightarrow> (('u expr, 'o) ftree \<times> nat list \<times> 'o ScheduleFragment) option" where
  "add_pieces C dbg st f [] node root = Some (root, node, f)"
| "add_pieces C dbg st f ((ks, a, b) # ps) node root = do {
     cm \<leftarrow> cm_all C (cmNew C) ks;
     let f = f\<lparr> firstNodeId := a, lastNodeId := b \<rparr>;
     (root, node) \<leftarrow> at_path node (addEdge_cond dbg st (cmSummary C cm) f) root;
     add_pieces C dbg st f ps node root
   }"

lemma cm_all_snoc: "cm_all C cm (ks @ [e]) = do { cm \<leftarrow> cm_all C cm ks; cmAdd C cm (constraintExpr e) }"
  by (induction ks arbitrary: cm) (auto split: bind_split)

definition cut_rest ::
  "('k, 'u) manager \<Rightarrow> bool \<Rightarrow> (ThreadUid, 'c, 'o) hbnode fstate \<Rightarrow> 'o ScheduleFragment \<Rightarrow> nat list \<Rightarrow> ('u expr, 'o) ftree \<Rightarrow>
     ('u piece list \<times> nat \<times> 'u Entry list) option \<Rightarrow> (('u expr, 'o) ftree \<times> nat list \<times> 'o ScheduleFragment \<times> 'k) option" where
  "cut_rest C dbg st f node root r = do {
     (ps, l, ks) \<leftarrow> r;
     (root, node, f) \<leftarrow> add_pieces C dbg st f ps node root;
     cm \<leftarrow> cm_all C (cmNew C) ks;
     Some (root, node, f, cm)
   }"

lemma cut_rest_None: "cut_rest C dbg st f node root None = None"
  by (simp add: cut_rest_def)

lemma cut_rest_stuck: "cm_all C (cmNew C) ks = None \<Longrightarrow> cut_rest C dbg st f node root (cut_schedule st g its q l ks) = None"
proof (induction its arbitrary: q ks)
  case (Cons it its)
  show ?case
  proof (cases "isInputConstraint it")
    case True
    show ?thesis
    proof (cases "merge_inputs st g (currHbNodeId it) q 0 (ThreadUid 0 0)")
      case (Some x)
      obtain b q' where x: "x = (b, q')" by (cases x)
      show ?thesis
      proof (cases "b = 0")
        case b: True
        have "cut_rest C dbg st f node root (cut_schedule st g its q' l (ks @ [it])) = None"
          by (rule Cons.IH) (simp add: cm_all_snoc Cons.prems)
        then show ?thesis using True Some x b by simp
      next
        case False
        then show ?thesis using True Some x Cons.prems by (simp add: cut_rest_def split: bind_split)
      qed
    qed (use True in \<open>simp add: cut_rest_None\<close>)
  qed (use Cons in simp)
qed (simp add: cut_rest_def)

text \<open>The loop adds the pieces one after the other.\<close>

lemma constraint_loop_cut:
  "cm_all C (cmNew C) ks = Some cm \<Longrightarrow>
    constraint_loop C dbg st g its q root node f cm = cut_rest C dbg st f node root (cut_schedule st g its q (lastNodeId f) ks)"
proof (induction its arbitrary: q root node f cm ks)
  case (Cons it its)
  show ?case
  proof (cases "isInputConstraint it")
    case True
    show ?thesis
    proof (cases "merge_inputs st g (currHbNodeId it) q 0 (ThreadUid 0 0)")
      case (Some x)
      obtain b q' where x: "x = (b, q')" by (cases x)
      show ?thesis
      proof (cases "b = 0")
        case b: True
        show ?thesis
        proof (cases "cmAdd C cm (constraintExpr it)")
          case None
          then have "cm_all C (cmNew C) (ks @ [it]) = None" using Cons.prems by (simp add: cm_all_snoc)
          then show ?thesis using True Some x b None by (simp add: cut_rest_stuck)
        next
          case (Some cm')
          then have "cm_all C (cmNew C) (ks @ [it]) = Some cm'" using Cons.prems by (simp add: cm_all_snoc)
          then show ?thesis using Cons.IH True \<open>merge_inputs _ _ _ _ _ _ = Some x\<close> x b Some by simp
        qed
      next
        case False
        let ?f = "f\<lparr> firstNodeId := lastNodeId f + 1, lastNodeId := b \<rparr>"
        let ?a = "at_path node (addEdge_cond dbg st (cmSummary C cm) ?f) root"
        have piece: "cut_rest C dbg st f node root (cut_schedule st g (it # its) q (lastNodeId f) ks) =
            do { (root, node) \<leftarrow> ?a; cut_rest C dbg st ?f node root (cut_schedule st g its q' b [it]) }"
          using True Some x False Cons.prems
          by (cases "cut_schedule st g its q' b [it]"; cases ?a) (auto simp: cut_rest_def Let_def)
        show ?thesis
        proof (cases "cmAdd C (cmNew C) (constraintExpr it)")
          case None
          then have "cm_all C (cmNew C) [it] = None" by simp
          then show ?thesis unfolding piece using True \<open>merge_inputs _ _ _ _ _ _ = Some x\<close> x False None
            by (cases ?a) (auto simp: cut_rest_stuck Let_def)
        next
          case (Some cm')
          then have "cm_all C (cmNew C) [it] = Some cm'" by simp
          from Cons.IH [OF this] show ?thesis unfolding piece using True \<open>merge_inputs _ _ _ _ _ _ = Some x\<close> x False Some
            by (cases ?a) (auto simp: Let_def)
        qed
      qed
    qed (use True in \<open>simp add: cut_rest_None\<close>)
  qed (use Cons in simp)
qed (simp add: cut_rest_def)

subsection \<open>The pieces are a partition\<close>

lemma merge_inputs_ok:
  assumes "\<forall>i \<in> set q. hb_getNode g i st \<noteq> None"
  obtains pre q' where "merge_inputs st g now q l u = Some (if pre = [] then l else last pre, q')" "q = pre @ q'" "\<forall>i \<in> set pre. i \<le> now"
  using assms
proof (induction q arbitrary: l u thesis)
  case (Cons i q)
  obtain n where n: "hb_getNode g i st = Some n" using Cons.prems(2) by auto
  show ?case
  proof (cases "i \<le> now \<and> \<not> (l \<noteq> 0 \<and> tuid n \<noteq> u)")
    case True
    obtain pre q' where "merge_inputs st g now q i (tuid n) = Some (if pre = [] then i else last pre, q')" "q = pre @ q'" "\<forall>i \<in> set pre. i \<le> now"
      using Cons.IH [of i "tuid n"] Cons.prems(2) by auto
    then show ?thesis using True n by (intro Cons.prems(1) [of "i # pre" q']) auto
  next
    case False
    then show ?thesis using n by (intro Cons.prems(1) [of "[]" "i # q"]) auto
  qed
qed simp

lemma sorted_wrt_last_le: "sorted_wrt (<) xs \<Longrightarrow> xs \<noteq> [] \<Longrightarrow> \<forall>x \<in> set xs. x \<le> (last xs :: nat)"
  by (induction xs) (auto simp: less_imp_le)

lemma merge_inputs_same:
  "\<forall>i \<in> set q. map_option tuid (hb_getNode g i st) = Some t \<Longrightarrow> l \<noteq> 0 \<longrightarrow> u = t \<Longrightarrow> sorted_wrt (<) q \<Longrightarrow>
    merge_inputs st g now q l u = Some (b, q') \<Longrightarrow> \<forall>i \<in> set q'. now < i"
proof (induction q arbitrary: l u)
  case (Cons i q)
  obtain n where n: "hb_getNode g i st = Some n" "tuid n = t" using Cons.prems(1) by auto
  show ?case
  proof (cases "i \<le> now")
    case True
    then show ?thesis using Cons.IH [of i t] Cons.prems n by auto
  next
    case False
    then show ?thesis using Cons.prems(3,4) by fastforce
  qed
qed simp

definition piece_nodes :: "'u piece \<Rightarrow> nat list" where
  "piece_nodes p = [fst (snd p) ..< Suc (snd (snd p))]"

lemma cut_partition:
  assumes "\<forall>i \<in> set q. hb_getNode g i st \<noteq> None \<and> l < i \<and> i \<le> mx" "sorted_wrt (<) q" "l \<le> mx"
  shows "\<exists>ps l' ks'. cut_schedule st g its q l ks = Some (ps, l', ks') \<and> l \<le> l' \<and> l' \<le> mx \<and>
    concat (map piece_nodes ps) = [Suc l ..< Suc l'] \<and> concat (map fst ps) @ ks' = ks @ filter isInputConstraint its"
  using assms
proof (induction its arbitrary: q l ks)
  case (Cons it its)
  show ?case
  proof (cases "isInputConstraint it")
    case True
    have ex: "\<forall>i \<in> set q. hb_getNode g i st \<noteq> None" using Cons.prems(1) by blast
    obtain pre q' where m: "merge_inputs st g (currHbNodeId it) q 0 (ThreadUid 0 0) = Some (if pre = [] then 0 else last pre, q')" "q = pre @ q'"
      "\<forall>i \<in> set pre. i \<le> currHbNodeId it" by (rule merge_inputs_ok [OF ex])
    show ?thesis
    proof (cases "pre = []")
      case pre: True
      have "\<exists>ps l' ks'. cut_schedule st g its q' l (ks @ [it]) = Some (ps, l', ks') \<and> l \<le> l' \<and> l' \<le> mx \<and>
          concat (map piece_nodes ps) = [Suc l ..< Suc l'] \<and> concat (map fst ps) @ ks' = (ks @ [it]) @ filter isInputConstraint its"
        by (rule Cons.IH) (use Cons.prems m(2) pre in auto)
      then show ?thesis using True m(1) pre by simp
    next
      case False
      let ?b = "last pre"
      have b: "l < ?b" "?b \<le> mx" "\<forall>i \<in> set q'. ?b < i" using Cons.prems m(2) False by (auto simp: sorted_wrt_append)
      obtain ps l' ks' where r: "cut_schedule st g its q' ?b [it] = Some (ps, l', ks')" "?b \<le> l'" "l' \<le> mx"
          "concat (map piece_nodes ps) = [Suc ?b ..< Suc l']" "concat (map fst ps) @ ks' = [it] @ filter isInputConstraint its"
        using Cons.IH [of q' ?b "[it]"] Cons.prems m(2) b by (auto simp: sorted_wrt_append)
      have "[Suc l ..< Suc ?b] @ [Suc ?b ..< Suc l'] = [Suc l ..< Suc l']" by (rule upt_append) (use b r(2) in simp_all)
      then have "concat (map piece_nodes ((ks, l + 1, ?b) # ps)) = [Suc l ..< Suc l']"
        using r(4) by (simp add: piece_nodes_def del: upt_Suc)
      moreover have "cut_schedule st g (it # its) q l ks = Some ((ks, l + 1, ?b) # ps, l', ks')" using True m(1) False r(1) b(1) by simp
      moreover have "concat (map fst ((ks, l + 1, ?b) # ps)) @ ks' = ks @ filter isInputConstraint (it # its)" using r(5) True by simp
      ultimately show ?thesis using r(2,3) b(1) by (meson less_imp_le order_trans)
    qed
  qed (use Cons in simp)
qed simp

text \<open>With the inputs of one thread, a piece does not test a constraint before the inputs that precede it.\<close>

lemma cut_after_inputs:
  assumes "\<forall>i \<in> set q. map_option tuid (hb_getNode g i st) = Some t" "sorted_wrt (<) q" "\<forall>i \<in> U. i \<in> set q \<or> i \<le> l"
    "\<forall>c \<in> set ks. \<forall>i \<in> U. i \<le> currHbNodeId c \<longrightarrow> i \<le> l" "\<forall>i \<in> set q. l < i" "cut_schedule st g its q l ks = Some (ps, l', ks')"
  shows "(\<forall>p \<in> set ps. \<forall>c \<in> set (fst p). \<forall>i \<in> U. i \<le> currHbNodeId c \<longrightarrow> i < fst (snd p)) \<and>
    (\<forall>c \<in> set ks'. \<forall>i \<in> U. i \<le> currHbNodeId c \<longrightarrow> i \<le> l')"
  using assms
proof (induction its arbitrary: q l ks ps)
  case (Cons it its)
  show ?case
  proof (cases "isInputConstraint it")
    case True
    have ex: "\<forall>i \<in> set q. hb_getNode g i st \<noteq> None" using Cons.prems(1) by fastforce
    obtain pre q' where m: "merge_inputs st g (currHbNodeId it) q 0 (ThreadUid 0 0) = Some (if pre = [] then 0 else last pre, q')" "q = pre @ q'"
      "\<forall>i \<in> set pre. i \<le> currHbNodeId it" by (rule merge_inputs_ok [OF ex])
    have later: "\<forall>i \<in> set q'. currHbNodeId it < i" by (rule merge_inputs_same [OF Cons.prems(1) _ Cons.prems(2) m(1)]) simp
    show ?thesis
    proof (cases "pre = []")
      case pre: True
      show ?thesis
        by (rule Cons.IH [of q' l "ks @ [it]"]) (use Cons.prems m pre later True in \<open>fastforce+\<close>)
    next
      case False
      let ?b = "last pre"
      have b: "l < ?b" "\<forall>i \<in> set q'. ?b < i" "\<forall>i \<in> set pre. i \<le> ?b"
        using Cons.prems(2,5) m(2) False sorted_wrt_last_le [of pre] by (auto simp: sorted_wrt_append)
      obtain ps' where r: "cut_schedule st g its q' ?b [it] = Some (ps', l', ks')" "ps = (ks, l + 1, ?b) # ps'"
        using Cons.prems(6) True m(1) False b(1) by auto
      have "(\<forall>p \<in> set ps'. \<forall>c \<in> set (fst p). \<forall>i \<in> U. i \<le> currHbNodeId c \<longrightarrow> i < fst (snd p)) \<and>
          (\<forall>c \<in> set ks'. \<forall>i \<in> U. i \<le> currHbNodeId c \<longrightarrow> i \<le> l')"
      proof (rule Cons.IH [of q' ?b "[it]"])
        show U: "\<forall>i \<in> U. i \<in> set q' \<or> i \<le> ?b" using Cons.prems(3) m(2) b by fastforce
        show "\<forall>c \<in> set [it]. \<forall>i \<in> U. i \<le> currHbNodeId c \<longrightarrow> i \<le> ?b" using U later by fastforce
      qed (use Cons.prems(1,2) m(2) b(2) r(1) in \<open>auto simp: sorted_wrt_append\<close>)
      then show ?thesis using r(2) Cons.prems(4) by fastforce
    qed
  qed (use Cons in \<open>simp\<close>)
qed simp

subsection \<open>Adding a schedule\<close>

text \<open>Adding the pieces of a schedule; the condition of the last one is reversed.\<close>

definition add_all ::
  "('k, 'u) manager \<Rightarrow> bool \<Rightarrow> (ThreadUid, 'c, 'o) hbnode fstate \<Rightarrow> 'u CoveredSchedule \<Rightarrow> 'u piece list \<Rightarrow> 'u piece \<Rightarrow> ('u expr, 'o) ftree \<Rightarrow> ('u expr, 'o) ftree option" where
  "add_all C dbg st sched ps p root = do {
     (root, node, f) \<leftarrow> add_pieces C dbg st (first_fragment sched) ps [] root;
     cm \<leftarrow> cm_all C (cmNew C) (fst p);
     cond \<leftarrow> ReverseConjunction (cmSummary C cm);
     (root, _) \<leftarrow> at_path node (addEdge_cond dbg st cond
       (f\<lparr> firstNodeId := fst (snd p), lastNodeId := snd (snd p), exitsProgram := scheduleExits sched \<rparr>)) root;
     Some root
   }"

lemma add_pieces_last:
  "cut_schedule st g its q (lastNodeId f) ks = Some (ps, l, ks') \<Longrightarrow> add_pieces C dbg st f ps node root = Some (root', node', f') \<Longrightarrow>
     lastNodeId f' = l"
proof (induction its arbitrary: q f ks ps node root)
  case (Cons it its)
  show ?case
  proof (cases "isInputConstraint it")
    case True
    then obtain b q' where m: "merge_inputs st g (currHbNodeId it) q 0 (ThreadUid 0 0) = Some (b, q')" using Cons.prems(1) by auto
    show ?thesis
    proof (cases "b = 0")
      case False
      let ?f = "f\<lparr> firstNodeId := lastNodeId f + 1, lastNodeId := b \<rparr>"
      obtain ps' where p: "cut_schedule st g its q' b [it] = Some (ps', l, ks')" "ps = (ks, lastNodeId f + 1, b) # ps'"
        using Cons.prems(1) True m False by auto
      obtain node1 root1 where "add_pieces C dbg st ?f ps' node1 root1 = Some (root', node', f')"
        using Cons.prems(2) p(2) by (auto simp: Let_def)
      from Cons.IH [OF _ this, of q' "[it]"] p(1) show ?thesis by simp
    qed (use Cons.IH Cons.prems True m in simp)
  qed (use Cons in simp)
qed simp

lemma add_schedule_cut:
  fixes st :: "(ThreadUid, 'c, 'o) hbnode fstate"
  assumes "EnumerateUsedInputsInHbGraph used st (scheduleGraph sched) = Some q" "hb_size (scheduleGraph sched) st = Some mx"
    "cut_schedule st (scheduleGraph sched) (inputConstraint sched) q 0 [] = Some (ps, l, ks)"
  shows "add_schedule C dbg used st sched root = add_all C dbg st sched ps (ks, l + 1, mx) root"
proof -
  let ?f = "first_fragment sched :: 'o ScheduleFragment"
  have cut: "cut_schedule st (scheduleGraph sched) (inputConstraint sched) q (lastNodeId ?f) [] = Some (ps, l, ks)"
    using assms(3) by (simp add: first_fragment_def)
  have loop: "constraint_loop C dbg st (scheduleGraph sched) (inputConstraint sched) q root [] ?f (cmNew C) =
      cut_rest C dbg st ?f [] root (Some (ps, l, ks))"
    using constraint_loop_cut [of C "[]" "cmNew C" dbg st "scheduleGraph sched" "inputConstraint sched" q root "[]" ?f] cut by simp
  show ?thesis
  proof (cases "add_pieces C dbg st ?f ps [] root")
    case None
    then show ?thesis by (simp add: add_schedule_def loop assms(1,2) cut_rest_def add_all_def)
  next
    case (Some r)
    obtain root' node' f' where r: "r = (root', node', f')" by (cases r)
    have "lastNodeId f' = l" by (rule add_pieces_last [OF cut]) (use Some r in simp)
    then show ?thesis using Some r
      by (cases "cm_all C (cmNew C) ks") (simp_all add: add_schedule_def loop assms(1,2) cut_rest_def add_all_def Let_def)
  qed
qed

definition reads_used_input :: "('o \<Rightarrow> bool) \<Rightarrow> (ThreadUid, 'c, 'o) hbnode fstate \<Rightarrow> nat \<Rightarrow> nat \<Rightarrow> bool" where
  "reads_used_input used st g i \<longleftrightarrow> (case hb_getNode g i st of None \<Rightarrow> False | Some n \<Rightarrow> (case inputObj n of None \<Rightarrow> False | Some obj \<Rightarrow> used obj))"

lemma enumerate_inputs_filter:
  "\<forall>i \<in> set is. hb_getNode g i st \<noteq> None \<Longrightarrow> enumerate_inputs used st g is = Some (filter (reads_used_input used st g) is)"
  by (induction "is") (auto simp: reads_used_input_def split: option.splits)

lemma inputs_in_order:
  assumes "hb_size g st = Some mx" "\<forall>i \<in> {1..mx}. hb_getNode g i st \<noteq> None"
  obtains q where "EnumerateUsedInputsInHbGraph used st g = Some q" "set q = {i \<in> {1..mx}. reads_used_input used st g i}" "sorted_wrt (<) q"
    "\<forall>i \<in> set q. hb_getNode g i st \<noteq> None \<and> 0 < i \<and> i \<le> mx"
proof -
  let ?q = "filter (reads_used_input used st g) [1 ..< Suc mx]"
  have nodes: "\<forall>i \<in> set [1 ..< Suc mx]. hb_getNode g i st \<noteq> None" using assms(2) by (simp del: upt_Suc)
  have "EnumerateUsedInputsInHbGraph used st g = Some ?q"
    unfolding EnumerateUsedInputsInHbGraph_def assms(1) using enumerate_inputs_filter [OF nodes] by simp
  moreover have "set ?q = {i \<in> {1..mx}. reads_used_input used st g i}" by (auto simp del: upt_Suc)
  moreover have "sorted_wrt (<) ?q" by (simp add: sorted_wrt_filter del: upt_Suc)
  moreover have "\<forall>i \<in> set ?q. hb_getNode g i st \<noteq> None \<and> 0 < i \<and> i \<le> mx" using nodes by (auto simp del: upt_Suc)
  ultimately show ?thesis by (rule that)
qed

subsection \<open>Properties\<close>

text \<open>C7. Cutting a schedule into fragments is a partition: the fragments that are added to the tree, one
  behind the other, have consecutive ranges of nodes that make up the whole graph, and their
  conditions have the input constraints of the schedule, each exactly once and in order. If one
  thread reads all inputs, a constraint is tested only in front of a fragment that starts after the
  inputs that precede the constraint, so that the inputs it depends on have arrived.\<close>

theorem schedule_partitioned:
  assumes "hb_size (scheduleGraph sched) st = Some mx" "\<forall>i \<in> {1..mx}. hb_getNode (scheduleGraph sched) i st \<noteq> None"
  shows "\<exists>ps p. (\<forall>C dbg root. add_schedule C dbg used st sched root = add_all C dbg st sched ps p root) \<and>
    concat (map piece_nodes (ps @ [p])) = [1 ..< Suc mx] \<and>
    concat (map fst (ps @ [p])) = filter isInputConstraint (inputConstraint sched) \<and>
    ((\<exists>t. \<forall>i \<in> {1..mx}. reads_used_input used st (scheduleGraph sched) i \<longrightarrow> map_option tuid (hb_getNode (scheduleGraph sched) i st) = Some t) \<longrightarrow>
      (\<forall>p' \<in> set (ps @ [p]). \<forall>c \<in> set (fst p'). \<forall>i \<in> {1..mx}.
        reads_used_input used st (scheduleGraph sched) i \<longrightarrow> i \<le> currHbNodeId c \<longrightarrow> i < fst (snd p')))"
proof -
  let ?g = "scheduleGraph sched"
  obtain q where q: "EnumerateUsedInputsInHbGraph used st ?g = Some q" "set q = {i \<in> {1..mx}. reads_used_input used st ?g i}" "sorted_wrt (<) q"
    "\<forall>i \<in> set q. hb_getNode ?g i st \<noteq> None \<and> 0 < i \<and> i \<le> mx" by (rule inputs_in_order [OF assms])
  obtain ps l ks where c: "cut_schedule st ?g (inputConstraint sched) q 0 [] = Some (ps, l, ks)" "l \<le> mx"
    "concat (map piece_nodes ps) = [Suc 0 ..< Suc l]" "concat (map fst ps) @ ks = filter isInputConstraint (inputConstraint sched)"
    using cut_partition [OF q(4,3), of "inputConstraint sched" "[]"] by auto
  have "concat (map piece_nodes (ps @ [(ks, l + 1, mx)])) = [1 ..< Suc mx]"
    using c(2) upt_append [of 1 "Suc l" "Suc mx"] by (simp add: c(3) piece_nodes_def del: upt_Suc)
  moreover have "\<forall>p' \<in> set (ps @ [(ks, l + 1, mx)]). \<forall>c \<in> set (fst p'). \<forall>i \<in> {1..mx}. reads_used_input used st ?g i \<longrightarrow> i \<le> currHbNodeId c \<longrightarrow> i < fst (snd p')"
    if "\<forall>i \<in> {1..mx}. reads_used_input used st ?g i \<longrightarrow> map_option tuid (hb_getNode ?g i st) = Some t" for t
  proof -
    have "\<forall>i \<in> set q. map_option tuid (hb_getNode ?g i st) = Some t" using that q(2) by blast
    from cut_after_inputs [OF this q(3), of "set q" 0 "[]", OF _ _ _ c(1)] q(4)
    have after: "\<forall>p \<in> set ps. \<forall>c \<in> set (fst p). \<forall>i \<in> set q. i \<le> currHbNodeId c \<longrightarrow> i < fst (snd p)"
      "\<forall>c \<in> set ks. \<forall>i \<in> set q. i \<le> currHbNodeId c \<longrightarrow> i \<le> l" by simp_all
    show ?thesis using after unfolding q(2) by fastforce
  qed
  ultimately show ?thesis
    using add_schedule_cut [OF q(1) assms(1) c(1)] c(4) by (intro exI [of _ ps] exI [of _ "(ks, l + 1, mx)"] conjI allI impI) (assumption | simp | blast)+
qed

definition demo_input :: "nat \<Rightarrow> (ThreadUid, nat list, nat) hbnode" where
  "demo_input t = \<lparr> threadOrder = 1, tuid = ThreadUid t 0, callctx = [], inputObj = Some t, incoming = [] \<rparr>"

definition demo_graphs :: "nat list \<Rightarrow> (ThreadUid, nat list, nat) hbnode fstate" where
  "demo_graphs ts = \<lparr> heap = [0 \<mapsto> \<lparr> refCount = 1, data = map demo_input ts \<rparr>], nextAddr = 1, traces = [0 \<mapsto> \<lparr> nodes = [0], nelems = length ts \<rparr>] \<rparr>"

definition demo_entry :: "nat \<Rightarrow> nat Entry" where
  "demo_entry c = \<lparr> isInputConstraint = True, constraintExpr = BinaryExpr Eq (ConstantExpr 8 (int c)) (ReadExpr c (ConstantExpr 32 0)), currHbNodeId = 2 \<rparr>"

definition demo_schedule :: "nat CoveredSchedule" where
  "demo_schedule = \<lparr> scheduleId = 1, scheduleGraph = 0, inputConstraint = [demo_entry 1, demo_entry 2], scheduleExits = False \<rparr>"

lemma demo_getNode: "hb_getNode 0 1 (demo_graphs [a, b]) = Some (demo_input a)" "hb_getNode 0 2 (demo_graphs [a, b]) = Some (demo_input b)"
  "hb_size 0 (demo_graphs [a, b]) = Some 2"
  by (simp_all add: hb_getNode_def hb_size_def ft_getElementAt_def demo_graphs_def)

lemma demo_simps: "[1 ..< Suc 2] = [1, 2]" "scheduleGraph demo_schedule = 0"
  "filter isInputConstraint (inputConstraint demo_schedule) = [demo_entry 1, demo_entry 2]"
  by (simp_all add: upt_rec demo_schedule_def demo_entry_def)

lemma demo_enumerate: "EnumerateUsedInputsInHbGraph (\<lambda>_. True) (demo_graphs [a, b]) 0 = Some [1, 2]"
  unfolding EnumerateUsedInputsInHbGraph_def demo_getNode(3) bind.bind_lunit demo_simps(1) enumerate_inputs.simps demo_getNode(1,2)
  by (simp add: demo_input_def)

lemma demo_same_thread:
  "i \<in> {1..2} \<Longrightarrow> hb_getNode 0 i (demo_graphs [7, 7]) = Some (demo_input 7)"
  "i \<in> {1..2} \<Longrightarrow> reads_used_input (\<lambda>_. True) (demo_graphs [7, 7]) 0 i"
proof -
  assume "i \<in> {1..2}"
  then have "i = 1 \<or> i = 2" by auto
  then show node: "hb_getNode 0 i (demo_graphs [7, 7]) = Some (demo_input 7)" using demo_getNode [of 7 7] by blast
  show "reads_used_input (\<lambda>_. True) (demo_graphs [7, 7]) 0 i" unfolding reads_used_input_def node by (simp add: demo_input_def)
qed

theorem schedule_partitioned_witness:
  "\<exists>ps p. (\<forall>(C :: (nat list, nat) manager) dbg root. add_schedule C dbg (\<lambda>_. True) (demo_graphs [7, 7]) demo_schedule root = add_all C dbg (demo_graphs [7, 7]) demo_schedule ps p root) \<and>
     concat (map piece_nodes (ps @ [p])) = [1, 2] \<and> concat (map fst (ps @ [p])) = [demo_entry 1, demo_entry 2] \<and>
     (\<forall>p' \<in> set (ps @ [p]). \<forall>c \<in> set (fst p'). \<forall>i \<in> {1..2}. i \<le> currHbNodeId c \<longrightarrow> i < fst (snd p'))"
proof -
  have "hb_size (scheduleGraph demo_schedule) (demo_graphs [7, 7]) = Some 2" unfolding demo_simps(2) by (rule demo_getNode(3))
  moreover have "\<forall>i \<in> {1..2}. hb_getNode (scheduleGraph demo_schedule) i (demo_graphs [7, 7]) \<noteq> None"
    unfolding demo_simps(2) by (simp add: demo_same_thread(1))
  moreover have "\<exists>t. \<forall>i \<in> {1..2}. reads_used_input (\<lambda>_. True) (demo_graphs [7, 7]) 0 i \<longrightarrow> map_option tuid (hb_getNode 0 i (demo_graphs [7, 7])) = Some t"
    by (simp add: demo_same_thread(1))
  ultimately show ?thesis
    using schedule_partitioned [of demo_schedule "demo_graphs [7, 7]" 2 "\<lambda>_. True", unfolded demo_simps(1,3)]
    unfolding demo_simps(2) using demo_same_thread(2) by blast
qed

text \<open>C37. With the inputs of two threads a constraint may be tested before its input is read. If a schedule
  has the inputs \<^verbatim>\<open>i < j\<close> of different threads and two constraints that were recorded after both, the
  first constraint is put in the condition that selects the fragment from \<^verbatim>\<open>i + 1\<close> to \<^verbatim>\<open>j\<close>, in which the
  input \<^verbatim>\<open>j\<close> is still to be read.\<close>

theorem constraint_before_input:
  assumes "EnumerateUsedInputsInHbGraph used st (scheduleGraph sched) = Some [i, j]" "hb_size (scheduleGraph sched) st = Some mx"
    "hb_getNode (scheduleGraph sched) i st = Some ni" "hb_getNode (scheduleGraph sched) j st = Some nj" "tuid ni \<noteq> tuid nj" "0 < i" "i < j"
    "inputConstraint sched = [e, e']" "isInputConstraint e" "isInputConstraint e'" "j \<le> currHbNodeId e" "j \<le> currHbNodeId e'"
  shows "add_schedule C dbg used st sched root = add_all C dbg st sched [([], 1, i), ([e], i + 1, j)] ([e'], j + 1, mx) root"
  by (rule add_schedule_cut [OF assms(1,2)]) (use assms in simp)

theorem constraint_before_input_witness:
  "\<forall>(C :: (nat list, nat) manager) root. add_schedule C False (\<lambda>_. True) (demo_graphs [7, 8]) demo_schedule root =
     add_all C False (demo_graphs [7, 8]) demo_schedule [([], 1, 1), ([demo_entry 1], 2, 2)] ([demo_entry 2], 3, 2) root"
proof (intro allI)
  fix C :: "(nat list, nat) manager" and root :: "(nat expr, nat) ftree"
  have "EnumerateUsedInputsInHbGraph (\<lambda>_. True) (demo_graphs [7, 8]) (scheduleGraph demo_schedule) = Some [1, 2]"
    unfolding demo_simps(2) by (rule demo_enumerate)
  moreover have "hb_size (scheduleGraph demo_schedule) (demo_graphs [7, 8]) = Some 2" unfolding demo_simps(2) by (rule demo_getNode(3))
  moreover have "hb_getNode (scheduleGraph demo_schedule) 1 (demo_graphs [7, 8]) = Some (demo_input 7)"
    "hb_getNode (scheduleGraph demo_schedule) 2 (demo_graphs [7, 8]) = Some (demo_input 8)" unfolding demo_simps(2) by (rule demo_getNode)+
  ultimately have "add_schedule C False (\<lambda>_. True) (demo_graphs [7, 8]) demo_schedule root =
     add_all C False (demo_graphs [7, 8]) demo_schedule [([], 1, 1), ([demo_entry 1], 1 + 1, 2)] ([demo_entry 2], 2 + 1, 2) root"
    by (rule constraint_before_input) (simp_all add: demo_input_def demo_entry_def demo_schedule_def)
  moreover have "(1 :: nat) + 1 = 2" "(2 :: nat) + 1 = 3" by simp_all
  ultimately show "add_schedule C False (\<lambda>_. True) (demo_graphs [7, 8]) demo_schedule root =
     add_all C False (demo_graphs [7, 8]) demo_schedule [([], 1, 1), ([demo_entry 1], 2, 2)] ([demo_entry 2], 3, 2) root"
    by (simp only:)
qed

end
