(* ===== verification/Spec2Isabelle.thy ===== *)
theory Spec2Isabelle
  imports Immutable_Map Uclibc_Sort Execution Runtime_Sync Expr_Bits Schedule_Choice Schedule_Build
begin

text \<open>
  A verification development for input-covering schedules, an extension of the symbolic execution engine
  Cloud9/KLEE (\<^verbatim>\<open>src/cloud9\<close>) for deterministic execution of multithreaded programs.

  \<^bold>\<open>The program.\<close> The engine runs a program symbolically and records each execution as a happens-before
  graph of its synchronisation operations (\<^verbatim>\<open>lib/ICS/HBGraph.cpp\<close>), kept in traces that share
  their segments when an execution forks (\<^verbatim>\<open>include/ics/ForkableTrace.h\<close>) and in persistent balanced
  trees (\<^verbatim>\<open>include/klee/Internal/ADT/ImmutableTree.h\<close>); path conditions are expressions built by
  simplifying constructors (\<^verbatim>\<open>lib/Expr/Expr.cpp\<close>). The instrumentor
  (\<^verbatim>\<open>lib/ICS/Instrumentor.cpp\<close>) collects the graphs of a region of the program and the constraints on the input under which they were recorded in a schedule
  tree, cuts the graphs into fragments, and emits the fragments as tables of 16-bit words, the calling
  contexts and region contexts as tables, and for each node of a tree a selector, a function that
  evaluates the constraints on the current input and returns a fragment. The runtime
  (\<^verbatim>\<open>runtime/ConstrainedExec/lib.cpp\<close>) replaces the thread library: it finds the region of the current
  calling contexts, asks the selector for a schedule, and lets each thread pass its synchronisation
  operations only as the tables allow, by vector clocks. It uses the sort of the bundled C library.

  \<^bold>\<open>The theories.\<close> Paths are relative to \<^verbatim>\<open>src/cloud9\<close>.
  \<^item> \<^verbatim>\<open>Prelude\<close>: assertions as options, generic lemmas, collections of rules.
  \<^item> \<^verbatim>\<open>Immutable_Tree\<close>, \<^verbatim>\<open>Tree_Search\<close>, \<^verbatim>\<open>Tree_Iter\<close>, \<^verbatim>\<open>Tree_Merge\<close>,
    \<^verbatim>\<open>Immutable_Map\<close>: the persistent trees. The tree is a datatype with the cached height of
    every node; the order of the keys is the locale \<^verbatim>\<open>key_order\<close>, interpreted for maps and sets. Updates,
    searches, iteration, merging and comparison refine finite maps and sets; the height is logarithmic
    and the fixed stack of an iterator suffices.
  \<^item> \<^verbatim>\<open>Forkable_Trace\<close>: the traces over an explicit store of reference-counted segments. The locale
    \<^verbatim>\<open>trace_store\<close> states what an operation promises; it is interpreted on the operations. Traces are
    lists, independent of each other after a fork, and no segment leaks.
  \<^item> \<^verbatim>\<open>HB_Graph\<close>: the graph as a state record over the store of traces and the maps, one definition
    per operation. The invariant: program order, edges backwards, counters; replay, equality,
    conservative edges, immutable clones.
  \<^item> \<^verbatim>\<open>Call_Context\<close>, \<^verbatim>\<open>Schedule_Table\<close>, \<^verbatim>\<open>Region_Table\<close>: the emitted tables and their readers.
    Decoding a schedule gives the nodes of the fragment; what does not fit in 16 bits is rejected; the
    search finds the region of the current contexts.
  \<^item> \<^verbatim>\<open>Uclibc_Sort\<close> (\<^verbatim>\<open>../uclibc/libc/stdlib/stdlib.c\<close>): the sort and the binary search, with all
    loops, their termination and their correctness.
  \<^item> \<^verbatim>\<open>Runtime\<close>, \<^verbatim>\<open>Runtime_Safety\<close>, \<^verbatim>\<open>Runtime_Order\<close>: the scheduling core as steps of one thread at
    a time on shared memory, any interleaving; the state of a function that waits is a list of frames. The
    nodes passed are closed under the edges of the schedule, and waiting threads form no cycle.
  \<^item> \<^verbatim>\<open>Execution\<close>: the encoder, the core and the graph together: an execution under an emitted
    schedule passes the nodes in an order that respects the happens-before graph.
  \<^item> \<^verbatim>\<open>Runtime_Sync\<close>: the thread interface on top of the core (mutexes, conditions, barriers,
    semaphores, threads, initialisers, inputs, the log of stack variables).
  \<^item> \<^verbatim>\<open>Expr\<close>, \<^verbatim>\<open>Expr_Sound\<close>, \<^verbatim>\<open>Expr_Term\<close>, \<^verbatim>\<open>Expr_Bits\<close>: the expressions and their
    constructors. The constructors call each other; each takes the functions it calls as an argument and
    the recursion is closed by fuel. The locales \<^verbatim>\<open>sound_creates\<close>, \<^verbatim>\<open>small_creates\<close>,
    \<^verbatim>\<open>total_creates\<close>, \<^verbatim>\<open>creates_le\<close>, \<^verbatim>\<open>sound_bits\<close> and \<^verbatim>\<open>total_bits\<close> are the contracts of these
    functions, interpreted on the constructors for every amount of fuel.
  \<^item> \<^verbatim>\<open>Schedule_Tree\<close>, \<^verbatim>\<open>Schedule_Numbering\<close>: insertion of constraints in a schedule tree, and the
    traversals that number and validate the fragments.
  \<^item> \<^verbatim>\<open>Selector_Code\<close>, \<^verbatim>\<open>Selector_Defined\<close>, \<^verbatim>\<open>Schedule_Selector\<close>, \<^verbatim>\<open>Schedule_Choice\<close>: the
    generation of selectors. Emitted instructions are a datatype with an evaluator, emitted blocks a
    decision tree. The code has the value of the expression where it is defined, it is defined for
    expressions without shifts and divisions, and the selector follows the tree.
  \<^item> \<^verbatim>\<open>Schedule_Build\<close>: the cutting of schedules into fragments at their inputs. The fragments
    partition the graph, and with the inputs of one thread a constraint is tested after them; with two
    threads it may be tested before its input is read.
  \<^item> This theory: from the constraints of a region to the fragment that its selector returns.

  \<^bold>\<open>Conventions.\<close> A failed assertion, a null reference and an access out of bounds are \<^verbatim>\<open>None\<close>, or
  \<^verbatim>\<open>Abort\<close> in the steps of the runtime. Words of the emitted tables are 16 bits wide and clocks 32 bits,
  with wrap-around; identifiers and sizes that the source holds in \<^verbatim>\<open>size_t\<close> are natural numbers.

  \<^bold>\<open>Fuel.\<close> \<^verbatim>\<open>create n\<close> makes at most \<^verbatim>\<open>n\<close> nested calls; \<^verbatim>\<open>create_terminates\<close> gives a bound, linear in
  the sizes of the operands, above which the result is defined and does not change, and \<^verbatim>\<open>mk\<close> uses that
  bound. Concatenation and extraction have a similar bound. \<^verbatim>\<open>build n\<close> bounds the nesting of the code
  generators; the statement about selectors holds for the code of every \<^verbatim>\<open>n\<close> for which there is one, since the
  generator may also stop at an assertion of the constraint manager. All other loops are total functions with a termination proof, or steps of a relation.

  \<^bold>\<open>Parameters.\<close> Calling contexts are a class of \<^verbatim>\<open>lib/Core\<close>, which is not part of the sources: what the graph
  asks of them is an argument. The construction of trees uses the constraint manager through the record
  \<^verbatim>\<open>manager\<close>, without any assumption. The selectors use it and the solver through the record
  \<^verbatim>\<open>solvers\<close>; \<^verbatim>\<open>sound_solvers\<close> states what they promise: answers are right, and simplification keeps the
  value of an expression wherever the constraints hold. \<^verbatim>\<open>plain_solvers\<close> states that simplification
  introduces no shift or division.

  \<^bold>\<open>Not modelled.\<close>
  \<^item> The search for paths (\<^verbatim>\<open>lib/ICS/SearchStrategy.cpp\<close>, \<^verbatim>\<open>PathManager.cpp\<close>,
    \<^verbatim>\<open>PrecondSliceTrace.cpp\<close>) works on execution states and instructions of the engine, whose core
    (\<^verbatim>\<open>lib/Core\<close>) is not part of the sources.
  \<^item> In the instrumentor: the code for reads of memory and snapshots, and the rewriting of the program,
    which depend on the memory objects of the engine and change modules of LLVM.
  \<^item> The constraint manager (\<^verbatim>\<open>lib/Expr/Constraints.cpp\<close>) and the visitors it uses, the expression
    builders, printer and parser, and update lists; the solvers and the bundled STP, which are programs
    of their own.
  \<^item> Cloud9's distribution of work, the model of POSIX that runs inside the engine, tools, tests and
    example programs, the points-to analysis, and the rest of the C library.
  \<^item> Reference counts outside the traces, caches, hashes, statistics and debugging output.
\<close>

section \<open>Properties across components\<close>



end
